(* ===== verification/Prelude.thy ===== *)
theory Prelude
  imports Main "HOL-Library.Word" "HOL-Library.AList" "HOL-Library.Multiset"
    "HOL-Library.List_Lexorder" "HOL-Library.Char_ord" "HOL-Library.Product_Lexorder"
    "HOL-Library.Sublist"
begin

text \<open>
  What every component shares: the names of the machine types, Go maps as association
  lists, signed 64-bit counters, decimal printing, first-occurrence deduplication, the
  contract of a sorting routine, and invariants of step relations.

  A Go string is its list of bytes (\<open>string\<close>), ordered bytewise as Go orders strings. A Go
  map is an association list with distinct keys (\<open>wf_map\<close>); the order of the list stands
  for the order in which one \<open>range\<close> loop visits the keys, which Go leaves unspecified, so a
  statement that holds for every list with the same lookups holds for every visit order. A
  nil map reads as the empty one, and the code never writes to a nil map.
\<close>

section \<open>Machine types\<close>

type_synonym i64 = "64 word"
type_synonym u64 = "64 word"
type_synonym byte = "8 word"

text \<open>An \<open>int64\<close> is a word read through \<open>sint\<close>; a counter below the maximum steps by one.\<close>

definition i64_max :: int where
  "i64_max = 2 ^ 63 - 1"

lemma sint_i64_le: "sint (v :: i64) \<le> i64_max"
  using sint_less [of v] by (simp add: i64_max_def)

lemma sint_i64_ge: "- (2 ^ 63) \<le> sint (v :: i64)"
  using sint_ge [of v] by simp

lemma sint_succ:
  fixes v :: i64
  assumes "sint v < i64_max"
  shows "sint (v + 1) = sint v + 1"
proof -
  have "sint (v + 1) = signed_take_bit 63 (sint v + 1)"
    by (simp add: signed_take_bit_add [of 63 "sint v" 1, symmetric] sint_word_ariths)
  also have "\<dots> = sint v + 1"
    using assms sint_i64_ge [of v]
    by (intro signed_take_bit_int_eq_self) (simp_all add: i64_max_def)
  finally show ?thesis .
qed

section \<open>Maps\<close>

type_synonym ('k, 'v) gomap = "('k \<times> 'v) list"

named_theorems map_laws \<comment> \<open>lookup after an update, and what keeps keys distinct\<close>

definition wf_map :: "('k, 'v) gomap \<Rightarrow> bool" where
  "wf_map m \<longleftrightarrow> distinct (map fst m)"

lemma wf_map_Nil [simp, map_laws]: "wf_map []"
  by (simp add: wf_map_def)

lemma wf_map_update [simp, map_laws]: "wf_map m \<Longrightarrow> wf_map (AList.update k v m)"
  by (simp add: wf_map_def distinct_update)

lemma wf_map_delete [simp, map_laws]: "wf_map m \<Longrightarrow> wf_map (AList.delete k m)"
  by (simp add: wf_map_def distinct_delete)

lemma map_of_update [simp, map_laws]: "map_of (AList.update k v m) = (map_of m)(k \<mapsto> v)"
  by (rule update_conv')

lemma map_of_delete [simp, map_laws]: "map_of (AList.delete k m) = (map_of m)(k := None)"
  by (rule delete_conv')

lemma update_fresh: "map_of m k = None \<Longrightarrow> AList.update k v m = m @ [(k, v)]"
  by (induction m) (auto split: if_splits)

lemma wf_map_Cons [simp]: "wf_map ((k, v) # m) \<longleftrightarrow> map_of m k = None \<and> wf_map m"
  by (auto simp: wf_map_def map_of_eq_None_iff)

lemma wf_map_lookup_iff: "wf_map m \<Longrightarrow> map_of m k = Some v \<longleftrightarrow> (k, v) \<in> set m"
  by (simp add: wf_map_def)

lemma wf_map_same_set:
  "wf_map m \<Longrightarrow> wf_map m' \<Longrightarrow> map_of m = map_of m' \<Longrightarrow> set m = set m'"
  by (simp add: wf_map_def map_of_inject_set)

lemma wf_map_same_mset:
  assumes "wf_map m" and "wf_map m'" and "map_of m = map_of m'"
  shows "mset m = mset m'"
proof -
  have "distinct m" "distinct m'"
    using assms by (auto simp: wf_map_def distinct_map)
  then show ?thesis
    using wf_map_same_set [OF assms] by (simp add: set_eq_iff_mset_eq_distinct)
qed

text \<open>The loop that copies a map key by key; it returns the map it was given.\<close>

definition copy_map :: "('k, 'v) gomap \<Rightarrow> ('k, 'v) gomap" where
  "copy_map m = fold (\<lambda>(k, v) out. AList.update k v out) m []"

lemma fold_copy:
  "wf_map (acc @ m) \<Longrightarrow> fold (\<lambda>(k, v) out. AList.update k v out) m acc = acc @ m"
proof (induction m arbitrary: acc)
  case Nil
  then show ?case by simp
next
  case (Cons kv m)
  obtain k v where kv: "kv = (k, v)" by (cases kv)
  from Cons.prems kv have "map_of acc k = None" and "wf_map ((acc @ [kv]) @ m)"
    by (auto simp: wf_map_def map_of_eq_None_iff)
  with Cons.IH [of "acc @ [kv]"] kv show ?case by (simp add: update_fresh)
qed

lemma copy_map_id [simp]: "wf_map m \<Longrightarrow> copy_map m = m"
  using fold_copy [of "[]" m] by (simp add: copy_map_def)

section \<open>First occurrences\<close>

text \<open>\<open>uniq\<close> keeps the first occurrence of every element, in order of appearance.\<close>

fun uniq :: "'a list \<Rightarrow> 'a list" where
  "uniq [] = []"
| "uniq (x # xs) = x # filter (\<lambda>y. y \<noteq> x) (uniq xs)"

lemma set_uniq [simp]: "set (uniq xs) = set xs"
  by (induction xs) auto

lemma distinct_uniq [simp]: "distinct (uniq xs)"
  by (induction xs) auto

lemma length_uniq [simp]: "length (uniq xs) = card (set xs)"
  using distinct_card [of "uniq xs"] by simp

lemma filter_uniq: "filter P (uniq xs) = uniq (filter P xs)"
proof (induction xs)
  case Nil
  then show ?case by simp
next
  case (Cons x xs)
  have swap: "filter P (filter (\<lambda>y. y \<noteq> x) (uniq xs)) = filter (\<lambda>y. y \<noteq> x) (filter P (uniq xs))"
    by (simp add: conj_commute)
  show ?case
  proof (cases "P x")
    case True
    with Cons swap show ?thesis by simp
  next
    case False
    then have "filter (\<lambda>y. y \<noteq> x) (uniq (filter P xs)) = uniq (filter P xs)"
      by (intro filter_True) auto
    with Cons swap False show ?thesis by simp
  qed
qed

text \<open>Dropping one value from a list without duplicates costs at most one place.\<close>

lemma take_filter_one:
  "distinct xs \<Longrightarrow> take k (filter (\<lambda>y. y \<noteq> a) (take (Suc k) xs)) = take k (filter (\<lambda>y. y \<noteq> a) xs)"
proof (induction xs arbitrary: k)
  case Nil
  then show ?case by simp
next
  case (Cons x xs)
  show ?case
  proof (cases "x = a")
    case True
    with Cons.prems have "filter (\<lambda>y. y \<noteq> a) xs = xs" and "filter (\<lambda>y. y \<noteq> a) (take k xs) = take k xs"
      by (auto intro!: filter_True dest: in_set_takeD)
    with True show ?thesis by simp
  next
    case False
    with Cons show ?thesis by (cases k) auto
  qed
qed

section \<open>Decimal numbers\<close>

text \<open>\<open>strconv.Itoa\<close> and \<open>%d\<close> on a non-negative number.\<close>

definition digit_char :: "nat \<Rightarrow> char" where
  "digit_char d = char_of (48 + d)"

fun itoa :: "nat \<Rightarrow> string" where
  "itoa n = (if n < 10 then [digit_char n] else itoa (n div 10) @ [digit_char (n mod 10)])"

declare itoa.simps [simp del]

text \<open>\<open>%d\<close> on any integer.\<close>

definition print_int :: "int \<Rightarrow> string" where
  "print_int i = (if i < 0 then ''-'' @ itoa (nat (- i)) else itoa (nat i))"

lemma of_char_digit: "d < 10 \<Longrightarrow> (of_char (digit_char d) :: nat) = 48 + d"
  by (simp add: digit_char_def of_char_of)

lemma digit_char_inj: "a < 10 \<Longrightarrow> b < 10 \<Longrightarrow> digit_char a = digit_char b \<longleftrightarrow> a = b"
  by (metis of_char_digit add_left_imp_eq)

lemma digit_char_not_hash: "d < 10 \<Longrightarrow> digit_char d \<noteq> CHR ''#''"
  using of_char_digit [of d] by auto

lemma itoa_no_hash: "CHR ''#'' \<notin> set (itoa n)"
proof (induction n rule: itoa.induct)
  case (1 n)
  then show ?case
    using digit_char_not_hash [of n] digit_char_not_hash [of "n mod 10"]
    by (subst itoa.simps) auto
qed

lemma itoa_nonempty: "itoa n \<noteq> []"
  by (subst itoa.simps) simp

lemma itoa_inj: "itoa m = itoa n \<Longrightarrow> m = n"
proof (induction m arbitrary: n rule: itoa.induct)
  case (1 m)
  have m: "itoa m = (if m < 10 then [digit_char m] else itoa (m div 10) @ [digit_char (m mod 10)])"
    and n: "itoa n = (if n < 10 then [digit_char n] else itoa (n div 10) @ [digit_char (n mod 10)])"
    by (simp_all add: itoa.simps [symmetric])
  show ?case
  proof (cases "m < 10 \<or> n < 10")
    case True
    with "1.prems" m n show ?thesis
      by (auto simp: digit_char_inj itoa_nonempty itoa_nonempty [THEN not_sym] split: if_splits)
  next
    case False
    with "1.prems" m n have "itoa (m div 10) = itoa (n div 10)" and "m mod 10 = n mod 10"
      by (auto simp: digit_char_inj)
    with False "1.IH" have "m div 10 = n div 10" by simp
    with \<open>m mod 10 = n mod 10\<close> show ?thesis by (metis div_mult_mod_eq)
  qed
qed

text \<open>A name and a number joined by \<open>#\<close> can be told apart again: the digits hold no \<open>#\<close>.\<close>

lemma split_at_last:
  assumes "xs @ c # ys = xs' @ c # ys'" and "c \<notin> set ys" and "c \<notin> set ys'"
  shows "xs = xs' \<and> ys = ys'"
proof -
  have tail: "takeWhile (\<lambda>x. x \<noteq> c) (rev (as @ c # bs)) = rev bs" if "c \<notin> set bs" for as bs
    using that takeWhile_append2 [of "rev bs" "\<lambda>x. x \<noteq> c" "c # rev as"] by fastforce
  have "ys = ys'" using assms(1) tail [OF assms(2), of xs] tail [OF assms(3), of xs']
    by simp
  with assms(1) show ?thesis by simp
qed

lemma hash_join_inj: "a @ ''#'' @ itoa i = b @ ''#'' @ itoa j \<longleftrightarrow> a = b \<and> i = j"
  using split_at_last [of a "CHR ''#''" "itoa i" b "itoa j"] itoa_no_hash itoa_inj by auto

section \<open>Sorting\<close>

text \<open>
  \<open>sort.Slice\<close> promises an ordered permutation and no more: elements with equal keys may
  come out in any order. Where keys can be equal the routine is a parameter with this
  contract; where they cannot, the contract leaves one result, that of \<open>sort_key\<close>.
\<close>

locale slice_sort =
  fixes srt :: "'a list \<Rightarrow> 'a list" and key :: "'a \<Rightarrow> 'k::linorder"
  assumes mset_srt: "mset (srt xs) = mset xs"
    and sorted_srt: "sorted (map key (srt xs))"
begin

lemma set_srt [simp]: "set (srt xs) = set xs"
  by (metis mset_srt set_mset_mset)

lemma length_srt [simp]: "length (srt xs) = length xs"
  by (metis mset_srt size_mset)

lemma mset_filter_srt: "mset (filter P (srt xs)) = mset (filter P xs)"
  by (simp add: mset_srt)

lemma srt_distinct_keys: "inj_on key (set xs) \<Longrightarrow> srt xs = sort_key key xs"
  by (rule sort_key_inj_key_eq [symmetric]) (simp_all add: mset_srt sorted_srt)

text \<open>Elements that were in order before and have distinct keys stay where they were.\<close>

lemma filter_srt_sorted:
  assumes "sorted (map key (filter P xs))" and "inj_on key (set (filter P xs))"
  shows "filter P (srt xs) = filter P xs"
proof -
  have "sort_key key (filter P xs) = filter P (srt xs)"
    by (rule sort_key_inj_key_eq [OF mset_filter_srt [symmetric] assms(2)])
      (rule sorted_filter [OF sorted_srt])
  moreover have "sort_key key (filter P xs) = filter P xs"
    by (rule sort_key_inj_key_eq [OF refl assms(2,1)])
  ultimately show ?thesis by simp
qed

end

lemma slice_sort_sort_key: "slice_sort (sort_key key) (key :: 'a \<Rightarrow> 'k::linorder)"
  by unfold_locales simp_all

text \<open>Sorting by a key that tells the elements apart forgets the order they came in.\<close>

lemma sort_key_cong_mset:
  assumes "mset xs = mset ys" and "inj_on key (set xs)"
  shows "sort_key key xs = sort_key key ys"
  by (rule sort_key_inj_key_eq [OF _ assms(2)]) (simp_all add: assms(1))

section \<open>Invariants of step relations\<close>

inductive reach :: "('s \<Rightarrow> bool) \<Rightarrow> ('s \<Rightarrow> 's \<Rightarrow> bool) \<Rightarrow> 's \<Rightarrow> bool"
  for start :: "'s \<Rightarrow> bool" and step :: "'s \<Rightarrow> 's \<Rightarrow> bool" where
  reach_start: "start s \<Longrightarrow> reach start step s"
| reach_step: "reach start step s \<Longrightarrow> step s t \<Longrightarrow> reach start step t"

locale invariant =
  fixes start :: "'s \<Rightarrow> bool" and step :: "'s \<Rightarrow> 's \<Rightarrow> bool" and inv :: "'s \<Rightarrow> bool"
  assumes inv_start: "start s \<Longrightarrow> inv s"
    and inv_step: "inv s \<Longrightarrow> step s t \<Longrightarrow> inv t"
begin

lemma reach_inv: "reach start step s \<Longrightarrow> inv s"
  by (induction rule: reach.induct) (auto intro: inv_start inv_step)

end

section \<open>Refinement of a map\<close>

text \<open>
  A system that refines a map step by step refines it over every sequence of writes: the last one
  to a key counts.
\<close>

locale map_refinement =
  fixes put :: "'k \<times> 'v \<Rightarrow> 's \<Rightarrow> 's" and rel :: "'s \<Rightarrow> ('k \<rightharpoonup> 'v) \<Rightarrow> bool" and ok :: "'k \<Rightarrow> bool"
  assumes rel_put: "rel s m \<Longrightarrow> ok k \<Longrightarrow> rel (put (k, v) s) (m(k \<mapsto> v))"
begin

lemma rel_puts:
  "rel s Map.empty \<Longrightarrow> \<forall>u \<in> set us. ok (fst u) \<Longrightarrow> rel (fold put us s) (map_of (rev us))"
proof (induction us rule: rev_induct)
  case Nil
  then show ?case by simp
next
  case (snoc u us)
  then show ?case using rel_put [of "fold put us s" "map_of (rev us)" "fst u" "snd u"] by (simp add: fun_upd_def)
qed

end

end
