(* ===== verification/Pgxsim.thy ===== *)
theory Pgxsim
  imports Prelude
begin

text \<open>
  The transactional store of \<open>internal/metadata/pgxsim/pgxsim.go\<close>: records with versions,
  and optimistic transactions that stage their writes and check at commit that the versions
  they read are still current.

  A transaction holds no pointer here: the store it was begun on is an argument of the
  operations that read it or commit to it. The mutexes make each method one step.
\<close>

section \<open>Records and the store\<close>

record Record =
  rec_Key :: string
  rec_Value :: string
  rec_Attributes :: "(string, string) gomap"
  rec_Version :: i64

record Store =
  entries :: "(string, Record) gomap"

definition NewStore :: Store where
  "NewStore = \<lparr>entries = []\<rparr>"

definition cloneRecord :: "Record \<Rightarrow> Record" where
  "cloneRecord r =
     \<lparr>rec_Key = rec_Key r, rec_Value = rec_Value r,
      rec_Attributes = (if length (rec_Attributes r) > 0 then copy_map (rec_Attributes r) else []),
      rec_Version = rec_Version r\<rparr>"

definition pgx_hasPrefix :: "string \<Rightarrow> string \<Rightarrow> bool" where
  "pgx_hasPrefix s p =
     (if length p = 0 then True
      else if length p > length s then False
      else take (length p) s = p)"

section \<open>Transactions\<close>

abbreviation (input) IsoLevelSerializable :: int where
  "IsoLevelSerializable \<equiv> 1"

abbreviation (input) ReadOnly :: int where
  "ReadOnly \<equiv> 1"

abbreviation (input) ReadWrite :: int where
  "ReadWrite \<equiv> 2"

record TxOptions =
  IsoLevel :: int
  AccessMode :: int

datatype pgx_error = ErrSerialization | ErrReadOnly | OnlySerializable | TransactionClosed

record Tx =
  opts :: TxOptions
  writes :: "(string, Record) gomap"
  deletes :: "string list"
  readset :: "(string, i64) gomap"
  committed :: bool
  rolled :: bool

definition Pool_BeginTx :: "TxOptions \<Rightarrow> pgx_error + Tx" where
  "Pool_BeginTx options =
     (if IsoLevel options \<noteq> IsoLevelSerializable then Inl OnlySerializable
      else Inr \<lparr>opts = options, writes = [], deletes = [], readset = [], committed = False, rolled = False\<rparr>)"

definition ensureWritable :: "Tx \<Rightarrow> pgx_error option" where
  "ensureWritable tx = (if AccessMode (opts tx) = ReadOnly then Some ErrReadOnly else None)"

text \<open>
  \<open>Get\<close> never fails; \<open>None\<close> is its \<open>ok = false\<close>. A read of the store is recorded in the
  read set, with version 0 for a key that is absent.
\<close>

definition Tx_Get :: "string \<Rightarrow> Store \<Rightarrow> Tx \<Rightarrow> Tx \<times> Record option" where
  "Tx_Get key s tx =
     (case map_of (writes tx) key of
        Some r \<Rightarrow> (tx, Some (cloneRecord r))
      | None \<Rightarrow>
          if key \<in> set (deletes tx) then (tx, None)
          else (case map_of (entries s) key of
                  Some r \<Rightarrow> (tx\<lparr>readset := AList.update key (rec_Version r) (readset tx)\<rparr>,
                             Some (cloneRecord r))
                | None \<Rightarrow> (tx\<lparr>readset := AList.update key 0 (readset tx)\<rparr>, None)))"

definition Tx_Put :: "Record \<Rightarrow> Tx \<Rightarrow> pgx_error + Tx" where
  "Tx_Put r tx =
     (case ensureWritable tx of
        Some e \<Rightarrow> Inl e
      | None \<Rightarrow> Inr (tx\<lparr>writes := AList.update (rec_Key r) (cloneRecord r) (writes tx),
                       deletes := removeAll (rec_Key r) (deletes tx)\<rparr>))"

definition Tx_Delete :: "string \<Rightarrow> Tx \<Rightarrow> pgx_error + Tx" where
  "Tx_Delete key tx =
     (case ensureWritable tx of
        Some e \<Rightarrow> Inl e
      | None \<Rightarrow> Inr (tx\<lparr>writes := AList.delete key (writes tx),
                       deletes := List.insert key (deletes tx)\<rparr>))"

definition Tx_List :: "string \<Rightarrow> int \<Rightarrow> Store \<Rightarrow> Tx \<Rightarrow> Tx \<times> Record list" where
  "Tx_List p limit s tx =
     (let hits = filter (\<lambda>(k, v). p = [] \<or> pgx_hasPrefix k p) (entries s);
          items = sort_key rec_Key (map (\<lambda>(k, v). cloneRecord v) hits);
          tx' = tx\<lparr>readset := fold (\<lambda>(k, v). AList.update k (rec_Version v)) hits (readset tx)\<rparr>
      in (tx', if limit > 0 \<and> int (length items) > limit then take (nat limit) items else items))"

text \<open>The validation loop of \<open>Commit\<close>: every version read must still be the stored one.\<close>

fun reads_current :: "(string, Record) gomap \<Rightarrow> (string, i64) gomap \<Rightarrow> bool" where
  "reads_current m [] = True"
| "reads_current m ((key, expectedVersion) # rs) =
     (case map_of m key of
        None \<Rightarrow> if expectedVersion \<noteq> 0 then False else reads_current m rs
      | Some current \<Rightarrow> if rec_Version current \<noteq> expectedVersion then False else reads_current m rs)"

definition Tx_Commit :: "Store \<Rightarrow> Tx \<Rightarrow> Store \<times> Tx \<times> pgx_error option" where
  "Tx_Commit s tx =
     (if committed tx \<or> rolled tx then (s, tx, Some TransactionClosed)
      else if \<not> reads_current (entries s) (readset tx) then (s, tx\<lparr>rolled := True\<rparr>, Some ErrSerialization)
      else
        let m = fold AList.delete (deletes tx) (entries s);
            m = fold (\<lambda>(key, r). AList.update key (cloneRecord r)) (writes tx) m
        in (s\<lparr>entries := m\<rparr>, tx\<lparr>committed := True\<rparr>, None))"

definition Tx_Rollback :: "Tx \<Rightarrow> Tx" where
  "Tx_Rollback tx = (if committed tx \<or> rolled tx then tx else tx\<lparr>rolled := True\<rparr>)"

section \<open>What a transaction sees\<close>

text \<open>
  The contract of a transaction: it works on a view of the store of its own, its writes and
  deletions over the stored records, and commits it when every version it read is current.
\<close>

definition stored_version :: "Store \<Rightarrow> string \<Rightarrow> i64" where
  "stored_version s k = (case map_of (entries s) k of None \<Rightarrow> 0 | Some r \<Rightarrow> rec_Version r)"

definition reads_valid :: "Store \<Rightarrow> Tx \<Rightarrow> bool" where
  "reads_valid s tx \<longleftrightarrow> (\<forall>(k, v) \<in> set (readset tx). stored_version s k = v)"

definition tx_view :: "Store \<Rightarrow> Tx \<Rightarrow> string \<rightharpoonup> Record" where
  "tx_view s tx k =
     (case map_of (writes tx) k of
        Some r \<Rightarrow> Some r
      | None \<Rightarrow> if k \<in> set (deletes tx) then None else map_of (entries s) k)"

definition records_ok :: "(string, Record) gomap \<Rightarrow> bool" where
  "records_ok m \<longleftrightarrow> wf_map m \<and> (\<forall>(k, r) \<in> set m. rec_Key r = k \<and> wf_map (rec_Attributes r))"

definition store_ok :: "Store \<Rightarrow> bool" where
  "store_ok s \<longleftrightarrow> records_ok (entries s)"

definition tx_ok :: "Tx \<Rightarrow> bool" where
  "tx_ok tx \<longleftrightarrow> records_ok (writes tx) \<and> wf_map (readset tx) \<and>
     (\<forall>k \<in> set (deletes tx). map_of (writes tx) k = None) \<and>
     (AccessMode (opts tx) = ReadOnly \<longrightarrow> writes tx = [] \<and> deletes tx = [])"

lemma pgx_hasPrefix_iff [simp]: "pgx_hasPrefix s p \<longleftrightarrow> prefix p s"
  by (auto simp: pgx_hasPrefix_def prefix_def not_less)
    (metis append_take_drop_id)

lemma cloneRecord_id [simp]: "wf_map (rec_Attributes r) \<Longrightarrow> cloneRecord r = r"
  by (cases r) (auto simp: cloneRecord_def)

lemma records_ok_Nil [simp]: "records_ok []"
  by (simp add: records_ok_def)

lemma records_ok_wf: "records_ok m \<Longrightarrow> wf_map m"
  by (simp add: records_ok_def)

lemma records_ok_lookup:
  "records_ok m \<Longrightarrow> map_of m k = Some r \<Longrightarrow> rec_Key r = k \<and> wf_map (rec_Attributes r)"
  by (auto simp: records_ok_def wf_map_lookup_iff)

lemma records_ok_update:
  assumes "records_ok m" and "wf_map (rec_Attributes r)"
  shows "records_ok (AList.update (rec_Key r) r m)"
  unfolding records_ok_def
proof (intro conjI ballI)
  show wf: "wf_map (AList.update (rec_Key r) r m)" using assms by (simp add: records_ok_def)
  fix x assume x: "x \<in> set (AList.update (rec_Key r) r m)"
  obtain k v where kv: "x = (k, v)" by (cases x)
  from x kv have "map_of (AList.update (rec_Key r) r m) k = Some v"
    using wf_map_lookup_iff [OF wf] by blast
  with kv assms show "case x of (k, r) \<Rightarrow> rec_Key r = k \<and> wf_map (rec_Attributes r)"
    by (auto split: if_splits dest: records_ok_lookup)
qed

lemma records_ok_delete: "records_ok m \<Longrightarrow> records_ok (AList.delete k m)"
  using wf_map_delete [of m k] by (auto simp: records_ok_def AList.delete_eq)

lemma records_ok_deletes: "records_ok m \<Longrightarrow> records_ok (fold AList.delete ks m)"
  by (induction ks arbitrary: m) (simp_all add: records_ok_delete)

lemma map_of_deletes:
  "map_of (fold AList.delete ks m) = (\<lambda>k. if k \<in> set ks then None else map_of m k)"
  by (induction ks arbitrary: m) (auto simp: fun_eq_iff)

lemma apply_writes:
  assumes "records_ok ws" and "records_ok m"
  shows "records_ok (fold (\<lambda>(k, r). AList.update k (cloneRecord r)) ws m) \<and>
    map_of (fold (\<lambda>(k, r). AList.update k (cloneRecord r)) ws m) = map_of m ++ map_of ws"
  using assms
proof (induction ws arbitrary: m)
  case Nil
  then show ?case by simp
next
  case (Cons x ws)
  obtain k r where x: "x = (k, r)" by (cases x)
  with Cons.prems have r: "rec_Key r = k" "wf_map (rec_Attributes r)" and ws: "records_ok ws"
    and fresh: "map_of ws k = None"
    by (auto simp: records_ok_def)
  then have "records_ok (AList.update k r m)"
    using records_ok_update [OF Cons.prems(2) r(2)] by simp
  from Cons.IH [OF ws this] x r fresh show ?case
    by (auto simp: map_add_def fun_eq_iff split: option.splits)
qed

lemma reads_current_iff:
  "reads_current (entries s) rs \<longleftrightarrow> (\<forall>(k, v) \<in> set rs. stored_version s k = v)"
proof (induction rs)
  case Nil
  then show ?case by simp
next
  case (Cons x rs)
  have "reads_current (entries s) ((k, v) # rs) \<longleftrightarrow>
      stored_version s k = v \<and> reads_current (entries s) rs" for k v
    by (simp add: stored_version_def split: option.split) auto
  with Cons show ?case by (cases x) simp
qed

lemma Tx_Commit_reads:
  "Tx_Commit s tx =
     (if committed tx \<or> rolled tx then (s, tx, Some TransactionClosed)
      else if \<not> reads_valid s tx then (s, tx\<lparr>rolled := True\<rparr>, Some ErrSerialization)
      else (s\<lparr>entries := fold (\<lambda>(key, r). AList.update key (cloneRecord r)) (writes tx)
                (fold AList.delete (deletes tx) (entries s))\<rparr>, tx\<lparr>committed := True\<rparr>, None))"
  by (simp add: Tx_Commit_def reads_current_iff reads_valid_def)

text \<open>The three outcomes of \<open>Commit\<close>, over the view.\<close>

lemma Commit_closed: "committed tx \<or> rolled tx \<Longrightarrow> Tx_Commit s tx = (s, tx, Some TransactionClosed)"
  by (auto simp: Tx_Commit_def)

lemma Commit_conflict:
  "\<not> committed tx \<Longrightarrow> \<not> rolled tx \<Longrightarrow> \<not> reads_valid s tx \<Longrightarrow>
    Tx_Commit s tx = (s, tx\<lparr>rolled := True\<rparr>, Some ErrSerialization)"
  by (simp add: Tx_Commit_def reads_current_iff reads_valid_def)

lemma Commit_valid:
  assumes "\<not> committed tx" and "\<not> rolled tx" and "reads_valid s tx"
    and "store_ok s" and "tx_ok tx"
  obtains s' where "Tx_Commit s tx = (s', tx\<lparr>committed := True\<rparr>, None)"
    and "store_ok s'" and "map_of (entries s') = tx_view s tx"
proof -
  let ?m = "fold AList.delete (deletes tx) (entries s)"
  let ?m' = "fold (\<lambda>(k, r). AList.update k (cloneRecord r)) (writes tx) ?m"
  have ok: "records_ok ?m" "records_ok (writes tx)"
    using assms(4,5) by (simp_all add: store_ok_def tx_ok_def records_ok_deletes)
  show ?thesis
  proof (rule that [of "s\<lparr>entries := ?m'\<rparr>"])
    show "Tx_Commit s tx = (s\<lparr>entries := ?m'\<rparr>, tx\<lparr>committed := True\<rparr>, None)"
      using assms(1-3) by (simp add: Tx_Commit_def reads_current_iff reads_valid_def)
    show "store_ok (s\<lparr>entries := ?m'\<rparr>)"
      using apply_writes [OF ok(2,1)] by (simp add: store_ok_def)
    show "map_of (entries (s\<lparr>entries := ?m'\<rparr>)) = tx_view s tx"
      using apply_writes [OF ok(2,1)]
      by (auto simp: tx_view_def map_of_deletes map_add_def fun_eq_iff split: option.splits)
  qed
qed

lemma tx_ok_begin: "Pool_BeginTx options = Inr tx \<Longrightarrow> tx_ok tx"
  by (auto simp: Pool_BeginTx_def tx_ok_def split: if_splits)

lemma tx_ok_Get: "tx_ok tx \<Longrightarrow> tx_ok (fst (Tx_Get k s tx))"
  by (auto simp: Tx_Get_def tx_ok_def split: option.splits)

lemma tx_ok_Put:
  assumes "tx_ok tx" and "wf_map (rec_Attributes r)" and "Tx_Put r tx = Inr tx'"
  shows "tx_ok tx'"
  using assms records_ok_update [of "writes tx" r]
  by (auto simp: Tx_Put_def tx_ok_def ensureWritable_def split: if_splits)

lemma tx_ok_Delete:
  assumes "tx_ok tx" and "Tx_Delete k tx = Inr tx'"
  shows "tx_ok tx'"
  using assms records_ok_delete [of "writes tx" k]
  by (auto simp: Tx_Delete_def tx_ok_def ensureWritable_def split: if_splits)

lemma wf_map_fold_update:
  "wf_map m \<Longrightarrow> wf_map (fold (\<lambda>(k, v). AList.update k (f v)) xs m)"
  by (induction xs arbitrary: m) auto

lemma tx_ok_List: "tx_ok tx \<Longrightarrow> tx_ok (fst (Tx_List p limit s tx))"
  by (simp add: Tx_List_def Let_def tx_ok_def wf_map_fold_update)

lemma tx_ok_flags: "tx_ok tx \<Longrightarrow> tx_ok (tx\<lparr>committed := c\<rparr>) \<and> tx_ok (tx\<lparr>rolled := b\<rparr>)"
  by (simp add: tx_ok_def)

lemma tx_ok_Commit: "tx_ok tx \<Longrightarrow> tx_ok (fst (snd (Tx_Commit s tx)))"
  by (simp add: Tx_Commit_def Let_def tx_ok_flags)

section \<open>The life of a transaction\<close>

text \<open>
  Every transaction the code can hold: begun by a pool, then moved by its methods. Reads and
  commits may meet a different store each time, since other transactions commit in between.
\<close>

inductive tx_step :: "Tx \<Rightarrow> Tx \<Rightarrow> bool" where
  step_Get: "tx_step tx (fst (Tx_Get k s tx))"
| step_List: "tx_step tx (fst (Tx_List p limit s tx))"
| step_Put: "wf_map (rec_Attributes r) \<Longrightarrow> Tx_Put r tx = Inr tx' \<Longrightarrow> tx_step tx tx'"
| step_Delete: "Tx_Delete k tx = Inr tx' \<Longrightarrow> tx_step tx tx'"
| step_Commit: "tx_step tx (fst (snd (Tx_Commit s tx)))"
| step_Rollback: "tx_step tx (Tx_Rollback tx)"

inductive_cases tx_stepE: "tx_step tx tx'"

definition tx_start :: "Tx \<Rightarrow> bool" where
  "tx_start tx \<longleftrightarrow> (\<exists>options. Pool_BeginTx options = Inr tx)"

lemma tx_ok_step: "tx_ok tx \<Longrightarrow> tx_step tx tx' \<Longrightarrow> tx_ok tx'"
  by (erule tx_stepE)
    (auto simp: tx_ok_Get tx_ok_List tx_ok_Commit tx_ok_flags Tx_Rollback_def
      intro: tx_ok_Put tx_ok_Delete)

interpretation txs: invariant tx_start tx_step tx_ok
  by unfold_locales (auto simp: tx_start_def tx_ok_begin intro: tx_ok_step)

text \<open>The steps of a transaction that read neither \<open>k\<close> nor a whole range of keys.\<close>

inductive quiet_step :: "string \<Rightarrow> Tx \<Rightarrow> Tx \<Rightarrow> bool" for k where
  quiet_Get: "k' \<noteq> k \<Longrightarrow> quiet_step k tx (fst (Tx_Get k' s tx))"
| quiet_Put: "Tx_Put r tx = Inr tx' \<Longrightarrow> quiet_step k tx tx'"
| quiet_Delete: "Tx_Delete k' tx = Inr tx' \<Longrightarrow> quiet_step k tx tx'"

inductive_cases quiet_stepE: "quiet_step k tx tx'"

text \<open>An open transaction that will check version \<open>v\<close> of \<open>k\<close>.\<close>

definition watches :: "string \<Rightarrow> i64 \<Rightarrow> Tx \<Rightarrow> bool" where
  "watches k v tx \<longleftrightarrow> (k, v) \<in> set (readset tx) \<and> wf_map (readset tx) \<and>
     \<not> committed tx \<and> \<not> rolled tx"

lemma watches_map_of: "watches k v tx \<longleftrightarrow> map_of (readset tx) k = Some v \<and> wf_map (readset tx) \<and>
     \<not> committed tx \<and> \<not> rolled tx"
  by (auto simp: watches_def wf_map_lookup_iff)

lemma watches_quiet: "watches k v tx \<Longrightarrow> quiet_step k tx tx' \<Longrightarrow> watches k v tx'"
  by (erule quiet_stepE)
    (auto simp: watches_map_of Tx_Get_def Tx_Put_def Tx_Delete_def split: option.splits if_splits)

interpretation quiet: invariant "watches k v" "quiet_step k" "watches k v" for k v
  by unfold_locales (auto intro: watches_quiet)

lemma Get_watches:
  assumes "wf_map (readset tx)" and "\<not> committed tx" and "\<not> rolled tx"
    and "map_of (writes tx) k = None" and "k \<notin> set (deletes tx)"
  shows "watches k (stored_version s k) (fst (Tx_Get k s tx))"
  using assms by (auto simp: watches_map_of Tx_Get_def stored_version_def split: option.splits)

lemma Tx_Get_value:
  assumes "store_ok s" and "tx_ok tx"
  shows "snd (Tx_Get k s tx) = tx_view s tx k"
  using assms
  by (auto simp: Tx_Get_def tx_view_def store_ok_def tx_ok_def split: option.splits
      dest: records_ok_lookup)

lemma Tx_Get_view [simp]: "tx_view t (fst (Tx_Get k s tx)) = tx_view t tx"
  by (auto simp: Tx_Get_def tx_view_def fun_eq_iff split: option.splits)

lemma Tx_Put_view:
  assumes "AccessMode (opts tx) \<noteq> ReadOnly" and "wf_map (rec_Attributes r)"
  obtains tx' where "Tx_Put r tx = Inr tx'" and "tx_view s tx' = (tx_view s tx)(rec_Key r \<mapsto> r)"
    and "readset tx' = readset tx" and "committed tx' = committed tx" and "rolled tx' = rolled tx"
  using assms
  by (auto simp: Tx_Put_def ensureWritable_def tx_view_def fun_eq_iff split: option.splits)

lemma Tx_Delete_view:
  assumes "AccessMode (opts tx) \<noteq> ReadOnly"
  obtains tx' where "Tx_Delete k tx = Inr tx'" and "tx_view s tx' = (tx_view s tx)(k := None)"
    and "readset tx' = readset tx" and "committed tx' = committed tx" and "rolled tx' = rolled tx"
  using assms
  by (auto simp: Tx_Delete_def ensureWritable_def tx_view_def fun_eq_iff split: option.splits)

section \<open>Listing\<close>

definition matching :: "string \<Rightarrow> Store \<Rightarrow> Record list" where
  "matching p s = sort_key rec_Key (map snd (filter (\<lambda>(k, r). prefix p k) (entries s)))"

lemma set_matching:
  "store_ok s \<Longrightarrow> set (matching p s) = {r. prefix p (rec_Key r) \<and> map_of (entries s) (rec_Key r) = Some r}"
  by (force simp: matching_def store_ok_def records_ok_def wf_map_lookup_iff)

lemma matching_keys_strict:
  assumes "store_ok s"
  shows "sorted_wrt (<) (map rec_Key (matching p s))"
proof -
  have keys: "map rec_Key (map snd (filter (\<lambda>(k, r). prefix p k) m)) = filter (prefix p) (map fst m)"
    if "\<forall>(k, r) \<in> set m. rec_Key r = k" for m :: "(string, Record) gomap"
    using that by (induction m) auto
  have "distinct (map rec_Key (map snd (filter (\<lambda>(k, r). prefix p k) (entries s))))"
    using assms by (subst keys) (auto simp: store_ok_def records_ok_def wf_map_def)
  then have "distinct (map rec_Key (matching p s))"
    unfolding matching_def by (metis mset_map mset_sort mset_eq_imp_distinct_iff)
  then show ?thesis
    by (simp add: strict_sorted_iff matching_def)
qed

lemma matching_cong:
  assumes "store_ok s" and "store_ok t" and "map_of (entries s) = map_of (entries t)"
  shows "matching p s = matching p t"
proof -
  have "set (matching p s) = set (matching p t)"
    using assms by (simp add: set_matching)
  moreover have inj: "inj_on rec_Key (set (matching p s))"
    and "distinct (matching p s)" "distinct (matching p t)"
    using matching_keys_strict [OF assms(1), of p] matching_keys_strict [OF assms(2), of p]
    by (simp_all add: strict_sorted_iff distinct_map)
  ultimately have mset: "mset (matching p s) = mset (matching p t)"
    by (simp add: set_eq_iff_mset_eq_distinct)
  have "sort_key rec_Key (matching p s) = matching p s"
    by (rule sort_key_inj_key_eq [OF refl inj]) (simp add: matching_def)
  moreover have "sort_key rec_Key (matching p s) = matching p t"
    by (rule sort_key_inj_key_eq [OF mset inj]) (simp add: matching_def)
  ultimately show ?thesis by simp
qed

lemma Tx_List_value:
  assumes "store_ok s"
  shows "snd (Tx_List p limit s tx) =
    (if limit > 0 then take (nat limit) (matching p s) else matching p s)"
proof -
  have pred: "(\<lambda>(k, v). p = [] \<or> pgx_hasPrefix k p) = (\<lambda>(k, v :: Record). prefix p k)" by auto
  have "map (\<lambda>(k, v). cloneRecord v) (filter (\<lambda>(k, v). prefix p k) (entries s)) =
      map snd (filter (\<lambda>(k, v). prefix p k) (entries s))"
    using assms by (intro map_cong refl) (auto simp: store_ok_def records_ok_def)
  then show ?thesis by (simp only: Tx_List_def Let_def pred matching_def snd_conv) simp
qed

section \<open>Properties\<close>

text \<open>
  C6: Commit is atomic and optimistic. An open transaction either finds every version it read
  still current, and then the store becomes exactly the transaction's view (its writes and
  deletions over what is stored, nothing else), or it fails with a serialization error, is
  rolled back, and leaves the store as it was.
\<close>

theorem Commit_is_atomic:
  assumes "store_ok s" and "reach tx_start tx_step tx" and "\<not> committed tx" and "\<not> rolled tx"
  shows "case Tx_Commit s tx of (s', tx', e) \<Rightarrow>
    if reads_valid s tx
    then e = None \<and> committed tx' \<and> store_ok s' \<and> map_of (entries s') = tx_view s tx
    else e = Some ErrSerialization \<and> rolled tx' \<and> s' = s"
proof (cases "reads_valid s tx")
  case True
  with assms txs.reach_inv [OF assms(2)] show ?thesis
    by (auto elim!: Commit_valid [of tx s])
next
  case False
  with assms show ?thesis by (simp add: Commit_conflict)
qed

text \<open>A store with one record, and a transaction that has read it and replaced it.\<close>

definition sample_record :: "i64 \<Rightarrow> string \<Rightarrow> Record" where
  "sample_record v x = \<lparr>rec_Key = ''k'', rec_Value = x, rec_Attributes = [(''a'', ''b'')], rec_Version = v\<rparr>"

definition sample_store :: Store where
  "sample_store = \<lparr>entries = [(''k'', sample_record 3 ''x'')]\<rparr>"

definition rw_options :: TxOptions where
  "rw_options = \<lparr>IsoLevel = IsoLevelSerializable, AccessMode = ReadWrite\<rparr>"

definition ro_options :: TxOptions where
  "ro_options = \<lparr>IsoLevel = IsoLevelSerializable, AccessMode = ReadOnly\<rparr>"

definition fresh_tx :: "TxOptions \<Rightarrow> Tx" where
  "fresh_tx options = \<lparr>opts = options, writes = [], deletes = [], readset = [], committed = False, rolled = False\<rparr>"

lemma BeginTx_ok [simp]:
  "Pool_BeginTx rw_options = Inr (fresh_tx rw_options)"
  "Pool_BeginTx ro_options = Inr (fresh_tx ro_options)"
  by (simp_all add: Pool_BeginTx_def rw_options_def ro_options_def fresh_tx_def)

lemma tx_start_begin: "Pool_BeginTx options = Inr tx \<Longrightarrow> reach tx_start tx_step tx"
  by (rule reach_start) (auto simp: tx_start_def)

lemmas reach_fresh = tx_start_begin [OF BeginTx_ok(1)] tx_start_begin [OF BeginTx_ok(2)]

lemmas tx_eval = sample_store_def sample_record_def fresh_tx_def rw_options_def ro_options_def
  Tx_Get_def Tx_Put_def Tx_Delete_def ensureWritable_def Tx_Commit_def cloneRecord_def copy_map_def

lemma sample_store_ok: "store_ok sample_store"
  by (simp add: store_ok_def records_ok_def sample_store_def sample_record_def)

lemma Commit_is_atomic_witness:
  "let tx = fst (Tx_Get ''k'' sample_store (fresh_tx rw_options)) in
   case Tx_Commit sample_store tx of (s', tx', e) \<Rightarrow>
     e = None \<and> map_of (entries s') = tx_view sample_store tx"
proof -
  let ?tx = "fst (Tx_Get ''k'' sample_store (fresh_tx rw_options))"
  have "reach tx_start tx_step ?tx"
    by (rule reach_step [OF reach_fresh(1) step_Get])
  moreover have "\<not> committed ?tx" "\<not> rolled ?tx" "reads_valid sample_store ?tx"
    by (simp_all add: tx_eval reads_valid_def stored_version_def)
  ultimately show ?thesis
    using Commit_is_atomic [OF sample_store_ok, of ?tx] by (auto simp: Let_def)
qed

text \<open>
  C26: A transaction reads its own writes. \<open>Get\<close> returns what the transaction's view holds and
  does not change the view, a \<open>Put\<close> or \<open>Delete\<close> of a read-write transaction changes it at its
  key only, and a read-only transaction refuses both.
\<close>

theorem Tx_reads_own_writes:
  assumes "store_ok s" and "reach tx_start tx_step tx" and "wf_map (rec_Attributes r)"
  shows "snd (Tx_Get k s tx) = tx_view s tx k \<and>
    tx_view s (fst (Tx_Get k s tx)) = tx_view s tx \<and>
    (if AccessMode (opts tx) = ReadOnly
     then Tx_Put r tx = Inl ErrReadOnly \<and> Tx_Delete k tx = Inl ErrReadOnly
     else (\<exists>tx'. Tx_Put r tx = Inr tx' \<and> tx_view s tx' = (tx_view s tx)(rec_Key r \<mapsto> r)) \<and>
       (\<exists>tx'. Tx_Delete k tx = Inr tx' \<and> tx_view s tx' = (tx_view s tx)(k := None)))"
proof (intro conjI)
  show "snd (Tx_Get k s tx) = tx_view s tx k"
    by (rule Tx_Get_value [OF assms(1) txs.reach_inv [OF assms(2)]])
  show "tx_view s (fst (Tx_Get k s tx)) = tx_view s tx" by simp
  show "if AccessMode (opts tx) = ReadOnly
     then Tx_Put r tx = Inl ErrReadOnly \<and> Tx_Delete k tx = Inl ErrReadOnly
     else (\<exists>tx'. Tx_Put r tx = Inr tx' \<and> tx_view s tx' = (tx_view s tx)(rec_Key r \<mapsto> r)) \<and>
       (\<exists>tx'. Tx_Delete k tx = Inr tx' \<and> tx_view s tx' = (tx_view s tx)(k := None))"
    using assms(3) by (auto simp: Tx_Put_def Tx_Delete_def ensureWritable_def tx_view_def
        fun_eq_iff split: option.splits)
qed

lemma Tx_reads_own_writes_witness:
  "snd (Tx_Get ''k'' sample_store (fresh_tx rw_options)) = Some (sample_record 3 ''x'') \<and>
   (\<exists>tx'. Tx_Put (sample_record 4 ''y'') (fresh_tx rw_options) = Inr tx' \<and>
      tx_view sample_store tx' ''k'' = Some (sample_record 4 ''y''))"
proof -
  have wf: "wf_map (rec_Attributes (sample_record 4 ''y''))" by (simp add: sample_record_def)
  have "AccessMode (opts (fresh_tx rw_options)) \<noteq> ReadOnly" by (simp add: fresh_tx_def rw_options_def)
  moreover have "rec_Key (sample_record 4 ''y'') = ''k''" by (simp add: sample_record_def)
  moreover have "tx_view sample_store (fresh_tx rw_options) ''k'' = Some (sample_record 3 ''x'')"
    by (simp add: tx_view_def fresh_tx_def sample_store_def)
  ultimately show ?thesis
    using Tx_reads_own_writes [OF sample_store_ok reach_fresh(1) wf, of "''k''"] by auto
qed

text \<open>
  C27: First committer wins. A transaction reads a key; while it goes on with other keys, another
  transaction commits a version of that key that differs; then its commit fails and changes
  nothing, whatever it has staged.
\<close>

theorem first_committer_wins:
  assumes "reach tx_start tx_step tx" and "\<not> committed tx" and "\<not> rolled tx"
    and "map_of (writes tx) k = None" and "k \<notin> set (deletes tx)"
    and "reach (\<lambda>t. t = fst (Tx_Get k s tx)) (quiet_step k) tx'"
    and "stored_version s' k \<noteq> stored_version s k"
  shows "Tx_Commit s' tx' = (s', tx'\<lparr>rolled := True\<rparr>, Some ErrSerialization)"
proof -
  have "watches k (stored_version s k) (fst (Tx_Get k s tx))"
    using txs.reach_inv [OF assms(1)] assms(2-5) by (intro Get_watches) (simp_all add: tx_ok_def)
  with assms(6) have "watches k (stored_version s k) tx'"
    by (intro quiet.reach_inv) (auto elim: reach.induct intro: reach.intros)
  with assms(7) show ?thesis
    by (intro Commit_conflict) (auto simp: watches_def reads_valid_def intro!: bexI)
qed

definition changed_store :: Store where
  "changed_store = \<lparr>entries = [(''k'', sample_record 4 ''z'')]\<rparr>"

lemma first_committer_wins_witness:
  "\<exists>tx'. Tx_Put (sample_record 4 ''y'') (fst (Tx_Get ''k'' sample_store (fresh_tx rw_options))) = Inr tx' \<and>
    Tx_Commit changed_store tx' = (changed_store, tx'\<lparr>rolled := True\<rparr>, Some ErrSerialization)"
proof -
  let ?tx = "fst (Tx_Get ''k'' sample_store (fresh_tx rw_options))"
  obtain tx' where put: "Tx_Put (sample_record 4 ''y'') ?tx = Inr tx'"
    by (simp add: tx_eval)
  have "reach (\<lambda>t. t = ?tx) (quiet_step ''k'') tx'"
    using quiet_Put [OF put] by (rule reach_step [OF reach_start, rotated]) simp
  moreover have "stored_version changed_store ''k'' \<noteq> stored_version sample_store ''k''"
    by (simp add: stored_version_def changed_store_def sample_store_def sample_record_def)
  ultimately show ?thesis
    using first_committer_wins [OF reach_fresh(1), of "''k''" sample_store tx' changed_store] put
    by (simp add: fresh_tx_def)
qed

text \<open>
  A listing is the committed records under the prefix in strictly increasing key order, cut
  at the limit. It depends on the contents of the store alone: not on the order the map is
  visited in, and not on the transaction, whose own writes and deletions it ignores.
\<close>

theorem List_committed_records:
  assumes "store_ok s" and "store_ok t" and "map_of (entries t) = map_of (entries s)"
  shows "\<exists>all. sorted_wrt (<) (map rec_Key all) \<and>
    (\<forall>r. r \<in> set all \<longleftrightarrow> prefix p (rec_Key r) \<and> map_of (entries s) (rec_Key r) = Some r) \<and>
    (\<forall>tx. snd (Tx_List p limit s tx) = (if limit > 0 then take (nat limit) all else all)) \<and>
    (\<forall>tx. snd (Tx_List p limit t tx) = snd (Tx_List p limit s tx))"
proof (intro exI [of _ "matching p s"] conjI)
  show "sorted_wrt (<) (map rec_Key (matching p s))" by (rule matching_keys_strict [OF assms(1)])
  show "\<forall>r. r \<in> set (matching p s) \<longleftrightarrow> prefix p (rec_Key r) \<and> map_of (entries s) (rec_Key r) = Some r"
    using set_matching [OF assms(1)] by blast
qed (simp_all add: Tx_List_value [OF assms(1)] Tx_List_value [OF assms(2)]
      matching_cong [OF assms(2,1,3)])

definition two_records :: Store where
  "two_records = \<lparr>entries = [(''kb'', \<lparr>rec_Key = ''kb'', rec_Value = [], rec_Attributes = [], rec_Version = 1\<rparr>),
     (''ka'', \<lparr>rec_Key = ''ka'', rec_Value = [], rec_Attributes = [], rec_Version = 1\<rparr>)]\<rparr>"

definition two_records' :: Store where
  "two_records' = \<lparr>entries = rev (entries two_records)\<rparr>"

lemma List_committed_records_witness:
  "snd (Tx_List ''k'' 1 two_records' (fresh_tx ro_options)) =
     snd (Tx_List ''k'' 1 two_records (fresh_tx rw_options)) \<and>
   map rec_Key (snd (Tx_List ''k'' 1 two_records (fresh_tx rw_options))) = [''ka'']"
proof -
  have ok: "store_ok two_records" "store_ok two_records'"
    and same: "map_of (entries two_records') = map_of (entries two_records)"
    by (auto simp: store_ok_def records_ok_def two_records_def two_records'_def)
  have "map rec_Key (snd (Tx_List ''k'' 1 two_records tx)) = [''ka'']" for tx
    unfolding Tx_List_value [OF ok(1)] by (simp add: matching_def two_records_def prefix_def)
  moreover have "snd (Tx_List ''k'' 1 two_records' (fresh_tx ro_options)) =
      snd (Tx_List ''k'' 1 two_records (fresh_tx rw_options))"
    using List_committed_records [OF ok same, of "''k''" 1] by metis
  ultimately show ?thesis by metis
qed

text \<open>
  Reading a key twice hides a conflict. The second \<open>Get\<close> replaces the version recorded by
  the first, so a transaction whose two reads returned different values still commits: the
  read is not repeatable although the isolation level is named serializable.
\<close>

theorem reread_hides_conflict:
  assumes "store_ok t" and "\<not> committed tx" and "\<not> rolled tx" and "tx_ok tx" and "readset tx = []"
  shows "snd (snd (Tx_Commit t (fst (Tx_Get k t (fst (Tx_Get k s tx)))))) = None"
proof -
  let ?tx = "fst (Tx_Get k t (fst (Tx_Get k s tx)))"
  have "reads_valid t ?tx" and "\<not> committed ?tx" and "\<not> rolled ?tx"
    using assms by (auto simp: reads_valid_def Tx_Get_def stored_version_def split: option.splits)
  moreover have "tx_ok ?tx" by (intro tx_ok_Get assms(4))
  ultimately show ?thesis by (auto elim: Commit_valid [OF _ _ _ assms(1)])
qed

lemma reread_hides_conflict_witness:
  "let tx1 = fst (Tx_Get ''k'' sample_store (fresh_tx rw_options)) in
   snd (Tx_Get ''k'' sample_store (fresh_tx rw_options)) \<noteq> snd (Tx_Get ''k'' changed_store tx1) \<and>
   snd (snd (Tx_Commit changed_store (fst (Tx_Get ''k'' changed_store tx1)))) = None"
proof -
  have "store_ok changed_store"
    by (simp add: store_ok_def records_ok_def changed_store_def sample_record_def)
  from reread_hides_conflict [OF this, of "fresh_tx rw_options" "''k''" sample_store]
  have "snd (snd (Tx_Commit changed_store (fst (Tx_Get ''k'' changed_store
      (fst (Tx_Get ''k'' sample_store (fresh_tx rw_options))))))) = None"
    using txs.reach_inv [OF reach_fresh(1)] by (simp add: fresh_tx_def)
  then show ?thesis by (simp add: Let_def) (simp add: tx_eval changed_store_def)
qed

text \<open>
  A transaction takes effect at most once, and never when it is read-only: after a commit or
  a rollback every later commit fails with \<open>transaction closed\<close> on an unchanged store, and the
  commit of a read-only transaction leaves the store as it is.
\<close>

theorem Commit_at_most_once:
  assumes "reach tx_start tx_step tx"
  shows "Tx_Commit t (Tx_Rollback tx) = (t, Tx_Rollback tx, Some TransactionClosed) \<and>
    (let tx' = fst (snd (Tx_Commit s tx)) in Tx_Commit t tx' = (t, tx', Some TransactionClosed)) \<and>
    (AccessMode (opts tx) = ReadOnly \<longrightarrow> fst (Tx_Commit t tx) = t)"
proof -
  have "tx_ok tx" by (rule txs.reach_inv [OF assms])
  then show ?thesis
    by (auto simp: Tx_Commit_def Tx_Rollback_def Let_def tx_ok_def)
qed

lemma Commit_at_most_once_witness:
  "let tx = fst (Tx_Get ''k'' sample_store (fresh_tx ro_options)) in
   AccessMode (opts tx) = ReadOnly \<and> fst (Tx_Commit changed_store tx) = changed_store \<and>
   Tx_Commit changed_store (Tx_Rollback tx) = (changed_store, Tx_Rollback tx, Some TransactionClosed)"
proof -
  let ?tx = "fst (Tx_Get ''k'' sample_store (fresh_tx ro_options))"
  have "reach tx_start tx_step ?tx" by (rule reach_step [OF reach_fresh(2) step_Get])
  moreover have "AccessMode (opts ?tx) = ReadOnly" by (simp add: tx_eval)
  ultimately show ?thesis
    using Commit_at_most_once [of ?tx changed_store] by (simp add: Let_def)
qed

end
