(* ===== verification/Etcdsim.thy ===== *)
theory Etcdsim
  imports Prelude
begin

text \<open>
  The etcd simulator of \<open>internal/metadata/etcdsim/etcdsim.go\<close>: a revisioned key-value map,
  conditional transactions over it, and watchers fed through buffered channels.

  Every method that takes the mutex is one step, a function of the client's state. Channels
  are shared between the client and its watchers, so they live in a heap: \<open>chans\<close> lists the
  channels made so far and a watcher holds the index of its own. A send on a closed channel
  panics in Go; here it is the error \<open>SendOnClosed\<close>, which the invariant rules out.
\<close>

section \<open>State\<close>

record kvPair =
  kv_value :: string
  kv_modRevision :: i64

datatype EventType = EventTypePut | EventTypeDelete

record WatchEvent =
  ev_Type :: EventType
  ev_Key :: string
  ev_Value :: string
  ev_ModRevision :: i64

record WatchResponse =
  wr_Events :: "WatchEvent list"
  wr_Revision :: i64

record watch_chan =
  buf :: "WatchResponse list"
  closed :: bool

record watchSubscription =
  ws_prefix :: string
  ws_ch :: nat

record Client =
  revision :: i64
  kv :: "(string, kvPair) gomap"
  watchers :: "(i64, watchSubscription) gomap"
  nextID :: i64
  chans :: "watch_chan list"

datatype etcd_error = UnsupportedCompareOp | UnsupportedCompareTarget | UnsupportedOp | SendOnClosed

fun etcd_message :: "etcd_error \<Rightarrow> string" where
  "etcd_message UnsupportedCompareOp = ''etcdsim: unsupported compare op''"
| "etcd_message UnsupportedCompareTarget = ''etcdsim: unsupported compare target''"
| "etcd_message UnsupportedOp = ''etcdsim: unsupported op''"
| "etcd_message SendOnClosed = ''send on closed channel''"

definition etcd_New :: Client where
  "etcd_New = \<lparr>revision = 0, kv = [], watchers = [], nextID = 0, chans = []\<rparr>"

section \<open>Transactions\<close>

text \<open>
  Compare targets, compare operators and operation types are open types in the source (an
  integer, a string, an integer), so the error branches for unknown ones are part of the model.
\<close>

record Cmp =
  cmp_key :: string
  cmp_target :: int
  cmp_op :: string
  cmp_value :: i64

abbreviation (input) compareModRevision :: int where
  "compareModRevision \<equiv> 1"

abbreviation (input) CompareOpEqual :: string where
  "CompareOpEqual \<equiv> ''=''"

definition CompareModRevision :: "string \<Rightarrow> string \<Rightarrow> i64 \<Rightarrow> Cmp" where
  "CompareModRevision key op v =
     \<lparr>cmp_key = key, cmp_target = compareModRevision, cmp_op = op, cmp_value = v\<rparr>"

record Op =
  op_typ :: int
  op_key :: string
  op_value :: string

abbreviation (input) opPut :: int where
  "opPut \<equiv> 1"

abbreviation (input) opDelete :: int where
  "opDelete \<equiv> 2"

definition OpPut :: "string \<Rightarrow> string \<Rightarrow> Op" where
  "OpPut key v = \<lparr>op_typ = opPut, op_key = key, op_value = v\<rparr>"

definition OpDelete :: "string \<Rightarrow> Op" where
  "OpDelete key = \<lparr>op_typ = opDelete, op_key = key, op_value = []\<rparr>"

record TxnResponse =
  Succeeded :: bool
  Revision :: i64

record Txn =
  compares :: "Cmp list"
  onSuccess :: "Op list"
  onFailure :: "Op list"

definition Client_Txn :: Txn where
  "Client_Txn = \<lparr>compares = [], onSuccess = [], onFailure = []\<rparr>"

definition Txn_If :: "Cmp list \<Rightarrow> Txn \<Rightarrow> Txn" where
  "Txn_If cmps t = t\<lparr>compares := compares t @ cmps\<rparr>"

definition Txn_Then :: "Op list \<Rightarrow> Txn \<Rightarrow> Txn" where
  "Txn_Then ops t = t\<lparr>onSuccess := onSuccess t @ ops\<rparr>"

definition Txn_Else :: "Op list \<Rightarrow> Txn \<Rightarrow> Txn" where
  "Txn_Else ops t = t\<lparr>onFailure := onFailure t @ ops\<rparr>"

text \<open>The first loop of \<open>Commit\<close>: it stops at the first comparison that fails.\<close>

fun check_compares :: "(string, kvPair) gomap \<Rightarrow> Cmp list \<Rightarrow> etcd_error + bool" where
  "check_compares m [] = Inr True"
| "check_compares m (c # cs) =
     (if cmp_target c = compareModRevision then
        if cmp_op c = CompareOpEqual then
          let current = (case map_of m (cmp_key c) of Some entry \<Rightarrow> kv_modRevision entry | None \<Rightarrow> 0)
          in if current \<noteq> cmp_value c then Inr False else check_compares m cs
        else Inl UnsupportedCompareOp
      else Inl UnsupportedCompareTarget)"

text \<open>The second loop: its body on one operation, and the loop, which collects the events.\<close>

definition op_step :: "Op \<Rightarrow> Client \<Rightarrow> etcd_error + Client \<times> WatchEvent list" where
  "op_step p c =
     (if op_typ p = opPut then
        let rv = revision c + 1 in
        Inr (c\<lparr>revision := rv,
               kv := AList.update (op_key p) \<lparr>kv_value = op_value p, kv_modRevision = rv\<rparr> (kv c)\<rparr>,
             [\<lparr>ev_Type = EventTypePut, ev_Key = op_key p, ev_Value = op_value p, ev_ModRevision = rv\<rparr>])
      else if op_typ p = opDelete then
        (case map_of (kv c) (op_key p) of
           None \<Rightarrow> Inr (c, [])
         | Some _ \<Rightarrow>
             let rv = revision c + 1 in
             Inr (c\<lparr>revision := rv, kv := AList.delete (op_key p) (kv c)\<rparr>,
                  [\<lparr>ev_Type = EventTypeDelete, ev_Key = op_key p, ev_Value = [], ev_ModRevision = rv\<rparr>]))
      else Inl UnsupportedOp)"

fun apply_ops :: "Op list \<Rightarrow> WatchEvent list \<Rightarrow> Client \<Rightarrow> Client \<times> (etcd_error + WatchEvent list)" where
  "apply_ops [] events c = (c, Inr events)"
| "apply_ops (p # ops) events c =
     (case op_step p c of
        Inl e \<Rightarrow> (c, Inl e)
      | Inr (c', es) \<Rightarrow> apply_ops ops (events @ es) c')"

text \<open>
  \<open>notifyWatchersLocked\<close>: each event goes, on its own, to every watcher whose prefix it
  has; the send does not wait, so a channel with a full buffer of 8 drops it.
\<close>

definition chan_cap :: nat where
  "chan_cap = 8"

definition send_or_drop :: "WatchResponse \<Rightarrow> watch_chan \<Rightarrow> watch_chan" where
  "send_or_drop resp ch = (if length (buf ch) < chan_cap then ch\<lparr>buf := buf ch @ [resp]\<rparr> else ch)"

fun notify_event ::
  "WatchEvent \<Rightarrow> i64 \<Rightarrow> (i64, watchSubscription) gomap \<Rightarrow> watch_chan list \<Rightarrow> watch_chan list option" where
  "notify_event evt rv [] chs = Some chs"
| "notify_event evt rv ((_, w) # ws) chs =
     (if \<not> prefix (ws_prefix w) (ev_Key evt) then notify_event evt rv ws chs
      else if closed (chs ! ws_ch w) then None
      else notify_event evt rv ws
        (chs[ws_ch w := send_or_drop \<lparr>wr_Events = [evt], wr_Revision = rv\<rparr> (chs ! ws_ch w)]))"

fun notify_events ::
  "WatchEvent list \<Rightarrow> i64 \<Rightarrow> (i64, watchSubscription) gomap \<Rightarrow> watch_chan list \<Rightarrow> watch_chan list option" where
  "notify_events [] rv ws chs = Some chs"
| "notify_events (e # es) rv ws chs =
     (case notify_event e rv ws chs of None \<Rightarrow> None | Some chs' \<Rightarrow> notify_events es rv ws chs')"

definition notifyWatchersLocked :: "WatchEvent list \<Rightarrow> Client \<Rightarrow> Client option" where
  "notifyWatchersLocked events c =
     (if watchers c = [] then Some c
      else case notify_events events (revision c) (watchers c) (chans c) of
             None \<Rightarrow> None
           | Some chs \<Rightarrow> Some (c\<lparr>chans := chs\<rparr>))"

definition Txn_Commit :: "Txn \<Rightarrow> Client \<Rightarrow> Client \<times> (etcd_error + TxnResponse)" where
  "Txn_Commit t c =
     (case check_compares (kv c) (compares t) of
        Inl e \<Rightarrow> (c, Inl e)
      | Inr success \<Rightarrow>
          let ops = (if success then onSuccess t else onFailure t) in
          if ops = [] then (c, Inr \<lparr>Succeeded = success, Revision = revision c\<rparr>)
          else (case apply_ops ops [] c of
                  (c', Inl e) \<Rightarrow> (c', Inl e)
                | (c', Inr events) \<Rightarrow>
                    if events = [] then (c', Inr \<lparr>Succeeded = success, Revision = revision c'\<rparr>)
                    else (case notifyWatchersLocked events c' of
                            None \<Rightarrow> (c', Inl SendOnClosed)
                          | Some c'' \<Rightarrow> (c'', Inr \<lparr>Succeeded = success, Revision = revision c''\<rparr>))))"

section \<open>Reads, single writes and watches\<close>

record KeyValue =
  kvs_Key :: string
  kvs_Value :: string
  kvs_ModRevision :: i64

record GetResponse =
  KVs :: "KeyValue list"
  get_Revision :: i64

definition Client_Get :: "string \<Rightarrow> bool \<Rightarrow> Client \<Rightarrow> GetResponse" where
  "Client_Get key with_prefix c =
     (if with_prefix then
        \<lparr>KVs = map (\<lambda>(k, v). \<lparr>kvs_Key = k, kvs_Value = kv_value v, kvs_ModRevision = kv_modRevision v\<rparr>)
                  (filter (\<lambda>(k, v). prefix key k) (kv c)),
         get_Revision = revision c\<rparr>
      else
        \<lparr>KVs = (case map_of (kv c) key of
                  Some v \<Rightarrow> [\<lparr>kvs_Key = key, kvs_Value = kv_value v, kvs_ModRevision = kv_modRevision v\<rparr>]
                | None \<Rightarrow> []),
         get_Revision = revision c\<rparr>)"

definition Client_Put :: "string \<Rightarrow> string \<Rightarrow> Client \<Rightarrow> Client \<times> (etcd_error + TxnResponse)" where
  "Client_Put key v c = Txn_Commit (Txn_Then [OpPut key v] Client_Txn) c"

definition Client_Delete :: "string \<Rightarrow> Client \<Rightarrow> Client \<times> (etcd_error + TxnResponse)" where
  "Client_Delete key c = Txn_Commit (Txn_Then [OpDelete key] Client_Txn) c"

text \<open>
  \<open>Watch\<close> makes the channel and registers the watcher under a new id, which it returns
  with the channel. Its goroutine waits for the context and then runs \<open>removeWatcher\<close> and
  closes the channel: two more steps.
\<close>

definition Client_Watch :: "string \<Rightarrow> Client \<Rightarrow> Client \<times> i64 \<times> nat" where
  "Client_Watch p c =
     (let ch = length (chans c); id = nextID c + 1
      in (c\<lparr>nextID := id,
            watchers := AList.update id \<lparr>ws_prefix = p, ws_ch = ch\<rparr> (watchers c),
            chans := chans c @ [\<lparr>buf = [], closed = False\<rparr>]\<rparr>, id, ch))"

definition removeWatcher :: "i64 \<Rightarrow> Client \<Rightarrow> Client" where
  "removeWatcher wid c =
     (case map_of (watchers c) wid of
        Some w \<Rightarrow> c\<lparr>watchers := AList.delete wid (watchers c)\<rparr>
      | None \<Rightarrow> c)"

definition close_chan :: "nat \<Rightarrow> Client \<Rightarrow> Client" where
  "close_chan ch c = c\<lparr>chans := (chans c)[ch := (chans c ! ch)\<lparr>closed := True\<rparr>]\<rparr>"

text \<open>A receive by the holder of a channel; nothing to receive while the buffer is empty.\<close>

definition chan_recv :: "nat \<Rightarrow> Client \<Rightarrow> (WatchResponse \<times> Client) option" where
  "chan_recv ch c =
     (case buf (chans c ! ch) of
        [] \<Rightarrow> None
      | resp # rest \<Rightarrow> Some (resp, c\<lparr>chans := (chans c)[ch := (chans c ! ch)\<lparr>buf := rest\<rparr>]\<rparr>))"

section \<open>What an event does to a view of the store\<close>

definition view :: "Client \<Rightarrow> string \<rightharpoonup> string" where
  "view c = (\<lambda>k. map_option kv_value (map_of (kv c) k))"

definition apply_event :: "WatchEvent \<Rightarrow> (string \<rightharpoonup> string) \<Rightarrow> (string \<rightharpoonup> string)" where
  "apply_event e m = (case ev_Type e of
      EventTypePut \<Rightarrow> m(ev_Key e \<mapsto> ev_Value e)
    | EventTypeDelete \<Rightarrow> m(ev_Key e := None))"

definition keys_under :: "string \<Rightarrow> (string \<rightharpoonup> 'v) \<Rightarrow> (string \<rightharpoonup> 'v)" where
  "keys_under p m = m |` {k. prefix p k}"

lemma apply_event_keys_under:
  "keys_under p (apply_event e m) = (if prefix p (ev_Key e) then apply_event e (keys_under p m) else keys_under p m)"
  by (auto simp: keys_under_def apply_event_def restrict_map_def fun_eq_iff split: EventType.splits)

lemma replay_under:
  "keys_under p (fold apply_event es m) =
     fold apply_event (filter (\<lambda>e. prefix p (ev_Key e)) es) (keys_under p m)"
  by (induction es arbitrary: m) (simp_all add: apply_event_keys_under)

text \<open>The reference semantics of one operation.\<close>

definition op_effect :: "Op \<Rightarrow> (string \<rightharpoonup> string) \<Rightarrow> (string \<rightharpoonup> string)" where
  "op_effect p m =
     (if op_typ p = opPut then m(op_key p \<mapsto> op_value p) else m(op_key p := None))"

definition op_supported :: "Op \<Rightarrow> bool" where
  "op_supported p \<longleftrightarrow> op_typ p = opPut \<or> op_typ p = opDelete"

text \<open>The revision at which a key was last written, 0 when it is absent.\<close>

definition mod_rev :: "Client \<Rightarrow> string \<Rightarrow> i64" where
  "mod_rev c k = (case map_of (kv c) k of Some entry \<Rightarrow> kv_modRevision entry | None \<Rightarrow> 0)"

definition cmp_supported :: "Cmp \<Rightarrow> bool" where
  "cmp_supported c \<longleftrightarrow> cmp_target c = compareModRevision \<and> cmp_op c = CompareOpEqual"

definition cmp_holds :: "Client \<Rightarrow> Cmp \<Rightarrow> bool" where
  "cmp_holds cl c \<longleftrightarrow> mod_rev cl (cmp_key c) = cmp_value c"

lemma check_compares_supported:
  "\<forall>c \<in> set cs. cmp_supported c \<Longrightarrow> check_compares (kv cl) cs = Inr (\<forall>c \<in> set cs. cmp_holds cl c)"
  by (induction cs) (auto simp: cmp_supported_def cmp_holds_def mod_rev_def Let_def)

lemma op_step_supported:
  assumes "op_supported p"
  obtains c' es where "op_step p c = Inr (c', es)"
    and "view c' = fold apply_event es (view c)" and "view c' = op_effect p (view c)"
    and "watchers c' = watchers c" and "chans c' = chans c" and "nextID c' = nextID c"
    and "wf_map (kv c) \<Longrightarrow> wf_map (kv c')"
proof -
  have absent: "op_effect p (view c) = view c" if "op_typ p \<noteq> opPut" "map_of (kv c) (op_key p) = None"
    using that by (auto simp: op_effect_def view_def fun_eq_iff)
  show ?thesis
    using assms absent
    by (intro that [of "fst (projr (op_step p c))" "snd (projr (op_step p c))"])
      (auto simp: op_supported_def op_step_def Let_def view_def apply_event_def op_effect_def
        fun_eq_iff split: option.splits)
qed

lemma apply_ops_supported:
  assumes "\<forall>p \<in> set ops. op_supported p"
  shows "\<exists>c' new. apply_ops ops events c = (c', Inr (events @ new)) \<and>
    view c' = fold apply_event new (view c) \<and> view c' = fold op_effect ops (view c) \<and>
    watchers c' = watchers c \<and> chans c' = chans c \<and> nextID c' = nextID c \<and>
    (wf_map (kv c) \<longrightarrow> wf_map (kv c'))"
  using assms
proof (induction ops arbitrary: events c)
  case Nil
  then show ?case by auto
next
  case (Cons p ops)
  then have p: "op_supported p" by simp
  obtain c1 es where one: "op_step p c = Inr (c1, es)"
    "view c1 = fold apply_event es (view c)" "view c1 = op_effect p (view c)"
    "watchers c1 = watchers c" "chans c1 = chans c" "nextID c1 = nextID c"
    "wf_map (kv c) \<Longrightarrow> wf_map (kv c1)"
    using op_step_supported [OF p, of c] by metis
  obtain c' new where "apply_ops ops (events @ es) c1 = (c', Inr ((events @ es) @ new))"
    "view c' = fold apply_event new (view c1)" "view c' = fold op_effect ops (view c1)"
    "watchers c' = watchers c1" "chans c' = chans c1" "nextID c' = nextID c1"
    "wf_map (kv c1) \<longrightarrow> wf_map (kv c')"
    using Cons.IH [of "events @ es" c1] Cons.prems by auto
  with one show ?case
    by (intro exI [of _ c'] exI [of _ "es @ new"]) simp
qed

section \<open>Delivery to watchers\<close>

definition watchers_ok :: "(i64, watchSubscription) gomap \<Rightarrow> watch_chan list \<Rightarrow> bool" where
  "watchers_ok ws chs \<longleftrightarrow> distinct (map (ws_ch \<circ> snd) ws) \<and>
     (\<forall>(wid, w) \<in> set ws. ws_ch w < length chs \<and> \<not> closed (chs ! ws_ch w))"

lemma closed_send_or_drop [simp]: "closed (send_or_drop resp ch) = closed ch"
  by (simp add: send_or_drop_def)

lemma buf_send_or_drop: "length (buf ch) \<le> chan_cap \<Longrightarrow> length (buf (send_or_drop resp ch)) \<le> chan_cap"
  by (simp add: send_or_drop_def)

lemma closed_after_send [simp]:
  "closed (chs[i := send_or_drop resp (chs ! i)] ! j) = closed (chs ! j)"
  by (cases "i < length chs"; cases "i = j") (simp_all add: list_update_beyond)

lemma watchers_ok_send:
  "watchers_ok ws chs \<Longrightarrow> watchers_ok ws (chs[i := send_or_drop resp (chs ! i)])"
  by (simp add: watchers_ok_def)

text \<open>Whether the channel \<open>ch\<close> belongs to a watcher that wants the event.\<close>

definition wants :: "(i64, watchSubscription) gomap \<Rightarrow> nat \<Rightarrow> WatchEvent \<Rightarrow> bool" where
  "wants ws ch e \<longleftrightarrow> (\<exists>(wid, w) \<in> set ws. ws_ch w = ch \<and> prefix (ws_prefix w) (ev_Key e))"

lemma wants_Cons [simp]:
  "wants ((wid, w) # ws) ch e \<longleftrightarrow> ws_ch w = ch \<and> prefix (ws_prefix w) (ev_Key e) \<or> wants ws ch e"
  by (auto simp: wants_def)

lemma wants_Nil [simp]: "\<not> wants [] ch e"
  by (simp add: wants_def)

lemma wants_own:
  assumes "distinct (map (ws_ch \<circ> snd) ws)" and "(wid, w) \<in> set ws"
  shows "wants ws (ws_ch w) e \<longleftrightarrow> prefix (ws_prefix w) (ev_Key e)"
  using assms by (induction ws) (force simp: wants_def)+

lemma notify_event_ok:
  assumes "watchers_ok ws chs"
  shows "\<exists>chs'. notify_event e rv ws chs = Some chs' \<and> length chs' = length chs \<and>
    (\<forall>ch < length chs. chs' ! ch =
       (if wants ws ch e then send_or_drop \<lparr>wr_Events = [e], wr_Revision = rv\<rparr> (chs ! ch) else chs ! ch))"
  using assms
proof (induction ws arbitrary: chs)
  case Nil
  then show ?case by simp
next
  case (Cons x ws)
  obtain wid w where x: "x = (wid, w)" by (cases x)
  have tail: "watchers_ok ws chs" and new: "ws_ch w \<notin> ws_ch ` snd ` set ws"
    and here: "ws_ch w < length chs" "\<not> closed (chs ! ws_ch w)"
    using Cons.prems by (auto simp: watchers_ok_def x image_image)
  have other: "\<not> wants ws (ws_ch w) e" using new by (fastforce simp: wants_def intro: rev_image_eqI)
  show ?case
  proof (cases "prefix (ws_prefix w) (ev_Key e)")
    case False
    with Cons.IH [OF tail] x show ?thesis by simp
  next
    case True
    let ?chs = "chs[ws_ch w := send_or_drop \<lparr>wr_Events = [e], wr_Revision = rv\<rparr> (chs ! ws_ch w)]"
    obtain chs' where "notify_event e rv ws ?chs = Some chs'" "length chs' = length ?chs"
      "\<forall>ch < length ?chs. chs' ! ch = (if wants ws ch e
          then send_or_drop \<lparr>wr_Events = [e], wr_Revision = rv\<rparr> (?chs ! ch) else ?chs ! ch)"
      using Cons.IH [OF watchers_ok_send [OF tail]] by blast
    with True here other x show ?thesis by (auto simp: nth_list_update)
  qed
qed

text \<open>
  After a batch of events every channel has the wanted events appended, in order, up to the
  capacity of its buffer.
\<close>

definition received :: "(i64, watchSubscription) gomap \<Rightarrow> nat \<Rightarrow> i64 \<Rightarrow> WatchEvent list \<Rightarrow> WatchResponse list"
  where
  "received ws ch rv es = map (\<lambda>e. \<lparr>wr_Events = [e], wr_Revision = rv\<rparr>) (filter (wants ws ch) es)"

lemma notify_events_ok:
  assumes "watchers_ok ws chs"
  shows "\<exists>chs'. notify_events es rv ws chs = Some chs' \<and> length chs' = length chs \<and>
    watchers_ok ws chs' \<and>
    (\<forall>ch < length chs. closed (chs' ! ch) = closed (chs ! ch) \<and>
       (length (buf (chs ! ch)) \<le> chan_cap \<longrightarrow> buf (chs' ! ch) =
          buf (chs ! ch) @ take (chan_cap - length (buf (chs ! ch))) (received ws ch rv es)))"
  using assms
proof (induction es arbitrary: chs)
  case Nil
  then show ?case by (simp add: received_def)
next
  case (Cons e es)
  obtain chs1 where one: "notify_event e rv ws chs = Some chs1" "length chs1 = length chs"
    "\<forall>ch < length chs. chs1 ! ch =
       (if wants ws ch e then send_or_drop \<lparr>wr_Events = [e], wr_Revision = rv\<rparr> (chs ! ch) else chs ! ch)"
    using notify_event_ok [OF Cons.prems] by blast
  have "closed (chs1 ! ch) = closed (chs ! ch)" if "ch < length chs" for ch
    using one(3) that by simp
  then have "watchers_ok ws chs1" using Cons.prems one(2) by (fastforce simp: watchers_ok_def)
  from Cons.IH [OF this] obtain chs2 where rest: "notify_events es rv ws chs1 = Some chs2"
    "length chs2 = length chs1" "watchers_ok ws chs2"
    "\<forall>ch < length chs1. closed (chs2 ! ch) = closed (chs1 ! ch) \<and>
       (length (buf (chs1 ! ch)) \<le> chan_cap \<longrightarrow> buf (chs2 ! ch) =
          buf (chs1 ! ch) @ take (chan_cap - length (buf (chs1 ! ch))) (received ws ch rv es))"
    by blast
  have "buf (chs2 ! ch) =
      buf (chs ! ch) @ take (chan_cap - length (buf (chs ! ch))) (received ws ch rv (e # es))"
    if "ch < length chs" "length (buf (chs ! ch)) \<le> chan_cap" for ch
    using one rest that
    by (cases "length (buf (chs ! ch)) < chan_cap")
      (auto simp: send_or_drop_def received_def Suc_diff_Suc [symmetric])
  with one rest show ?case by auto
qed

section \<open>Commits of supported transactions\<close>

text \<open>
  \<open>client_ok\<close>: the maps have distinct keys, and every registered watcher has a channel of its
  own that is still open. It is what makes a send safe.
\<close>

definition client_ok :: "Client \<Rightarrow> bool" where
  "client_ok c \<longleftrightarrow> wf_map (kv c) \<and> wf_map (watchers c) \<and> watchers_ok (watchers c) (chans c)"

definition txn_supported :: "Txn \<Rightarrow> bool" where
  "txn_supported t \<longleftrightarrow> (\<forall>c \<in> set (compares t). cmp_supported c) \<and>
     (\<forall>p \<in> set (onSuccess t). op_supported p) \<and> (\<forall>p \<in> set (onFailure t). op_supported p)"

definition txn_ops :: "Client \<Rightarrow> Txn \<Rightarrow> Op list" where
  "txn_ops c t = (if \<forall>k \<in> set (compares t). cmp_holds c k then onSuccess t else onFailure t)"

lemma notify_ok:
  assumes "watchers_ok (watchers c) (chans c)"
  shows "\<exists>chs. notifyWatchersLocked es c = Some (c\<lparr>chans := chs\<rparr>) \<and> length chs = length (chans c) \<and>
    watchers_ok (watchers c) chs \<and>
    (\<forall>ch < length chs. closed (chs ! ch) = closed (chans c ! ch) \<and>
       (length (buf (chans c ! ch)) \<le> chan_cap \<longrightarrow> buf (chs ! ch) = buf (chans c ! ch) @
          take (chan_cap - length (buf (chans c ! ch))) (received (watchers c) ch (revision c) es)))"
proof (cases "watchers c = []")
  case True
  with assms show ?thesis
    by (intro exI [of _ "chans c"])
      (simp add: notifyWatchersLocked_def received_def)
next
  case False
  with assms notify_events_ok [of "watchers c" "chans c" es "revision c"] show ?thesis
    by (auto simp: notifyWatchersLocked_def)
qed

lemma Txn_Commit_supported:
  fixes c :: Client
  assumes "txn_supported t"
  defines "s \<equiv> (\<forall>k \<in> set (compares t). cmp_holds c k)"
  shows "Txn_Commit t c =
    (if txn_ops c t = [] then (c, Inr \<lparr>Succeeded = s, Revision = revision c\<rparr>)
     else (case apply_ops (txn_ops c t) [] c of
             (c', Inl e) \<Rightarrow> (c', Inl e)
           | (c', Inr events) \<Rightarrow>
               if events = [] then (c', Inr \<lparr>Succeeded = s, Revision = revision c'\<rparr>)
               else (case notifyWatchersLocked events c' of
                       None \<Rightarrow> (c', Inl SendOnClosed)
                     | Some c'' \<Rightarrow> (c'', Inr \<lparr>Succeeded = s, Revision = revision c''\<rparr>))))"
proof -
  have "check_compares (kv c) (compares t) = Inr s"
    unfolding s_def using assms(1) by (intro check_compares_supported) (simp add: txn_supported_def)
  then show ?thesis by (simp add: Txn_Commit_def txn_ops_def Let_def flip: s_def)
qed

text \<open>The whole of \<open>Commit\<close> on a supported transaction, in terms of the view and the buffers.\<close>

lemma Txn_Commit_ok:
  assumes "client_ok c" and "txn_supported t"
  obtains c' new where
    "Txn_Commit t c = (c', Inr \<lparr>Succeeded = (\<forall>k \<in> set (compares t). cmp_holds c k), Revision = revision c'\<rparr>)"
    and "apply_ops (txn_ops c t) [] c = (c'\<lparr>chans := chans c\<rparr>, Inr new)"
    and "view c' = fold apply_event new (view c)" and "view c' = fold op_effect (txn_ops c t) (view c)"
    and "client_ok c'" and "watchers c' = watchers c" and "nextID c' = nextID c"
    and "length (chans c') = length (chans c)"
    and "\<forall>ch < length (chans c). closed (chans c' ! ch) = closed (chans c ! ch) \<and>
       (length (buf (chans c ! ch)) \<le> chan_cap \<longrightarrow> buf (chans c' ! ch) = buf (chans c ! ch) @
          take (chan_cap - length (buf (chans c ! ch))) (received (watchers c) ch (revision c') new))"
proof -
  note commit_eq = Txn_Commit_supported [OF assms(2), of c]
  have "\<forall>p \<in> set (txn_ops c t). op_supported p"
    using assms(2) by (simp add: txn_supported_def txn_ops_def)
  then obtain c1 new where run: "apply_ops (txn_ops c t) [] c = (c1, Inr new)"
    "view c1 = fold apply_event new (view c)" "view c1 = fold op_effect (txn_ops c t) (view c)"
    "watchers c1 = watchers c" "chans c1 = chans c" "nextID c1 = nextID c"
    "wf_map (kv c) \<longrightarrow> wf_map (kv c1)"
    using apply_ops_supported [of "txn_ops c t" "[]" c] by auto
  with assms(1) have ok1: "client_ok c1" by (simp add: client_ok_def)
  show ?thesis
  proof (cases "new = []")
    case True
    have "c1 = c" if "txn_ops c t = []" using run(1) that by simp
    with run(1) True have "Txn_Commit t c = (c1, Inr \<lparr>Succeeded = (\<forall>k \<in> set (compares t). cmp_holds c k),
        Revision = revision c1\<rparr>)"
      unfolding commit_eq by simp
    then show ?thesis
      using that [of c1 new] run ok1 True by (simp add: received_def)
  next
    case False
    obtain chs where told: "notifyWatchersLocked new c1 = Some (c1\<lparr>chans := chs\<rparr>)"
      "length chs = length (chans c1)" "watchers_ok (watchers c1) chs"
      "\<forall>ch < length chs. closed (chs ! ch) = closed (chans c1 ! ch) \<and>
         (length (buf (chans c1 ! ch)) \<le> chan_cap \<longrightarrow> buf (chs ! ch) = buf (chans c1 ! ch) @
            take (chan_cap - length (buf (chans c1 ! ch))) (received (watchers c1) ch (revision c1) new))"
      using notify_ok [of c1 new] ok1 unfolding client_ok_def by blast
    define c' where "c' = c1\<lparr>chans := chs\<rparr>"
    from False run(1) have "txn_ops c t \<noteq> []" by auto
    with False run(1) told(1) have commit: "Txn_Commit t c = (c',
        Inr \<lparr>Succeeded = (\<forall>k \<in> set (compares t). cmp_holds c k), Revision = revision c'\<rparr>)"
      unfolding commit_eq by (simp add: c'_def)
    have c1: "c1 = c'\<lparr>chans := chans c\<rparr>" using run(5) by (simp add: c'_def)
    have same: "view c' = view c1" "revision c' = revision c1" "watchers c' = watchers c1"
      "nextID c' = nextID c1" "chans c' = chs"
      by (simp_all add: c'_def view_def)
    show ?thesis
    proof (rule that [OF commit])
      show "apply_ops (txn_ops c t) [] c = (c'\<lparr>chans := chans c\<rparr>, Inr new)"
        using run(1) c1 by simp
      show "client_ok c'" using ok1 told(3) by (simp add: client_ok_def c'_def)
    qed (use run told same in simp_all)
  qed
qed

section \<open>Revisions\<close>

text \<open>
  \<open>rev_ok\<close>: the store's revision is not negative, and every key present was written at a
  positive revision not above it, no two keys at the same one. Revisions are 64-bit, so what
  keeps it has a bound on the number of operations still to come.
\<close>

definition rev_ok :: "Client \<Rightarrow> bool" where
  "rev_ok c \<longleftrightarrow> 0 \<le> sint (revision c) \<and>
     (\<forall>k. mod_rev c k \<noteq> 0 \<longrightarrow> 0 < sint (mod_rev c k) \<and> sint (mod_rev c k) \<le> sint (revision c)) \<and>
     (\<forall>k. map_of (kv c) k \<noteq> None \<longrightarrow> mod_rev c k \<noteq> 0) \<and>
     (\<forall>k k'. mod_rev c k = mod_rev c k' \<longrightarrow> mod_rev c k \<noteq> 0 \<longrightarrow> k = k')"

lemma rev_ok_New: "rev_ok etcd_New"
  by (simp add: rev_ok_def etcd_New_def mod_rev_def)

lemma rev_ok_le: "rev_ok c \<Longrightarrow> mod_rev c k \<noteq> 0 \<Longrightarrow> sint (mod_rev c k) \<le> sint (revision c)"
  by (simp add: rev_ok_def)

text \<open>What one operation, and a run of them, does to the revisions.\<close>

definition revs_advance :: "int \<Rightarrow> Client \<Rightarrow> Client \<Rightarrow> bool" where
  "revs_advance n c c' \<longleftrightarrow> rev_ok c' \<and>
     sint (revision c) \<le> sint (revision c') \<and> sint (revision c') \<le> sint (revision c) + n \<and>
     (\<forall>k. mod_rev c' k = mod_rev c k \<or> mod_rev c' k = 0 \<or> sint (revision c) < sint (mod_rev c' k))"

lemma revs_advance_refl: "rev_ok c \<Longrightarrow> revs_advance 0 c c"
  by (simp add: revs_advance_def)

lemma revs_advance_trans:
  "revs_advance m a b \<Longrightarrow> revs_advance n b c \<Longrightarrow> revs_advance (m + n) a c"
  unfolding revs_advance_def by (smt (verit))

text \<open>One key is written at the next revision, or deleted; the others keep theirs.\<close>

lemma rev_ok_next:
  assumes "rev_ok c" and "sint (revision c) < i64_max" and "revision c' = revision c + 1"
    and r: "r = 0 \<or> r = revision c + 1" and mr: "\<And>k. mod_rev c' k = (if k = key then r else mod_rev c k)"
    and present: "\<And>k. map_of (kv c') k \<noteq> None \<Longrightarrow> if k = key then r \<noteq> 0 else map_of (kv c) k \<noteq> None"
  shows "rev_ok c'"
proof -
  have up: "sint (revision c') = sint (revision c) + 1" using sint_succ [OF assms(2)] assms(3) by simp
  have fresh: "mod_rev c k \<noteq> revision c + 1" if "mod_rev c k \<noteq> 0" for k
    using rev_ok_le [OF assms(1) that] up assms(3) by auto
  have "mod_rev c' k \<noteq> 0" if "map_of (kv c') k \<noteq> None" for k
    using present [OF that] assms(1) by (auto simp: mr rev_ok_def split: if_splits)
  moreover have "k = k'" if "mod_rev c' k = mod_rev c' k'" "mod_rev c' k \<noteq> 0" for k k'
    using assms(1) that r fresh [of k] fresh [of k'] unfolding rev_ok_def mr by metis
  moreover have "0 < sint (mod_rev c' k) \<and> sint (mod_rev c' k) \<le> sint (revision c')"
    if "mod_rev c' k \<noteq> 0" for k
    using assms(1,3) that r up by (auto simp: mr rev_ok_def split: if_splits)
  ultimately show ?thesis
    unfolding rev_ok_def using up assms(1) by (auto simp: rev_ok_def)
qed

lemma op_step_revs:
  assumes "rev_ok c" and "sint (revision c) < i64_max" and "op_step p c = Inr (c', es)"
  shows "revs_advance 1 c c'"
proof -
  have up: "sint (revision c + 1) = sint (revision c) + 1" by (rule sint_succ [OF assms(2)])
  then have pos: "revision c + 1 \<noteq> 0" using assms(1) by (auto simp: rev_ok_def)
  let ?r = "if op_typ p = opPut then revision c + 1 else 0"
  have mr: "mod_rev c' k = (if k = op_key p then ?r else mod_rev c k)" for k
    using assms(3) by (auto simp: op_step_def Let_def mod_rev_def split: if_splits option.splits)
  have present: "if k = op_key p then ?r \<noteq> 0 else map_of (kv c) k \<noteq> None" if "map_of (kv c') k \<noteq> None" for k
    using assms(3) that pos by (auto simp: op_step_def Let_def split: if_splits option.splits)
  have "revision c' = revision c \<and> c' = c \<or> revision c' = revision c + 1"
    using assms(3) by (auto simp: op_step_def Let_def split: if_splits option.splits)
  then show ?thesis
  proof
    assume "revision c' = revision c \<and> c' = c"
    then show ?thesis using assms(1) by (simp add: revs_advance_def)
  next
    assume next_rev: "revision c' = revision c + 1"
    have "rev_ok c'" by (rule rev_ok_next [OF assms(1,2) next_rev _ mr present]) auto
    then show ?thesis
      unfolding revs_advance_def using up next_rev by (auto simp: mr)
  qed
qed

lemma apply_ops_revs:
  assumes "rev_ok c" and "sint (revision c) + int (length ops) \<le> i64_max"
    and "apply_ops ops events c = (c', Inr evs)"
  shows "revs_advance (int (length ops)) c c'"
  using assms
proof (induction ops events c rule: apply_ops.induct)
  case (1 events c)
  then show ?case by (simp add: revs_advance_refl)
next
  case (2 p ops events c)
  then obtain c1 es where one: "op_step p c = Inr (c1, es)"
    by (auto split: sum.splits)
  with "2.prems" have step: "revs_advance 1 c c1" by (intro op_step_revs [OF _ _ one]) simp_all
  then have "rev_ok c1" and "sint (revision c1) + int (length ops) \<le> i64_max"
    using "2.prems"(2) by (simp_all add: revs_advance_def)
  with "2.IH" [OF one refl] "2.prems"(3) one have "revs_advance (int (length ops)) c1 c'" by simp
  from revs_advance_trans [OF step this] show ?case by simp
qed

definition txn_size :: "Txn \<Rightarrow> nat" where
  "txn_size t = max (length (onSuccess t)) (length (onFailure t))"

lemma revs_advance_weaken: "revs_advance m a b \<Longrightarrow> m \<le> n \<Longrightarrow> revs_advance n a b"
  by (simp add: revs_advance_def)

lemma Txn_Commit_revs:
  assumes "client_ok c" and "txn_supported t" and "rev_ok c"
    and "sint (revision c) + int (txn_size t) \<le> i64_max"
  shows "revs_advance (int (txn_size t)) c (fst (Txn_Commit t c))"
proof -
  obtain c' new where commit: "fst (Txn_Commit t c) = c'"
    and run: "apply_ops (txn_ops c t) [] c = (c'\<lparr>chans := chans c\<rparr>, Inr new)"
    by (rule Txn_Commit_ok [OF assms(1,2)]) simp
  have size: "length (txn_ops c t) \<le> txn_size t" by (simp add: txn_ops_def txn_size_def)
  with assms(3,4) run have "revs_advance (int (length (txn_ops c t))) c (c'\<lparr>chans := chans c\<rparr>)"
    by (intro apply_ops_revs) auto
  moreover have "revs_advance n c (c'\<lparr>chans := chs\<rparr>) = revs_advance n c c'" for n chs
    by (simp add: revs_advance_def rev_ok_def mod_rev_def)
  ultimately show ?thesis using size commit by (auto intro: revs_advance_weaken)
qed

lemma Txn_Commit_client_ok:
  assumes "client_ok c" and "txn_supported t"
  shows "client_ok (fst (Txn_Commit t c))"
  by (rule Txn_Commit_ok [OF assms]) simp

definition commits :: "Txn list \<Rightarrow> Client \<Rightarrow> Client" where
  "commits ts c = fold (\<lambda>t c. fst (Txn_Commit t c)) ts c"

definition total_size :: "Txn list \<Rightarrow> nat" where
  "total_size ts = sum_list (map txn_size ts)"

lemma commits_revs:
  assumes "client_ok c" and "\<forall>t \<in> set ts. txn_supported t" and "rev_ok c"
    and "sint (revision c) + int (total_size ts) \<le> i64_max"
  shows "client_ok (commits ts c) \<and> revs_advance (int (total_size ts)) c (commits ts c)"
  using assms
proof (induction ts arbitrary: c)
  case Nil
  then show ?case by (simp add: commits_def total_size_def revs_advance_refl)
next
  case (Cons t ts)
  let ?c = "fst (Txn_Commit t c)"
  have step: "revs_advance (int (txn_size t)) c ?c"
    using Cons.prems by (intro Txn_Commit_revs) (auto simp: total_size_def)
  moreover have "client_ok ?c" using Cons.prems by (simp add: Txn_Commit_client_ok)
  moreover have "rev_ok ?c" "sint (revision ?c) + int (total_size ts) \<le> i64_max"
    using step Cons.prems(4) by (auto simp: revs_advance_def total_size_def)
  ultimately have "client_ok (commits ts ?c) \<and> revs_advance (int (total_size ts)) ?c (commits ts ?c)"
    using Cons.IH [of ?c] Cons.prems(2) by simp
  with revs_advance_trans [OF step] show ?case by (simp add: commits_def total_size_def)
qed

section \<open>The store as a map: the interface the services use\<close>

text \<open>
  What the ring manager, the segment store and the metadata service rely on: a read after a
  write or a deletion, for keys under a prefix of their own.
\<close>

locale kv_store =
  fixes lookup :: "'s \<Rightarrow> string \<rightharpoonup> string"
    and put :: "string \<Rightarrow> string \<Rightarrow> 's \<Rightarrow> 's" and del :: "string \<Rightarrow> 's \<Rightarrow> 's"
    and ok :: "'s \<Rightarrow> bool"
  assumes lookup_put: "ok s \<Longrightarrow> lookup (put k v s) = (lookup s)(k \<mapsto> v)"
    and lookup_del: "ok s \<Longrightarrow> lookup (del k s) = (lookup s)(k := None)"
    and ok_put: "ok s \<Longrightarrow> ok (put k v s)"
    and ok_del: "ok s \<Longrightarrow> ok (del k s)"
begin

definition sub :: "string \<Rightarrow> 's \<Rightarrow> string \<rightharpoonup> string" where
  "sub p s = (\<lambda>k. lookup s (p @ k))"

lemma sub_put: "ok s \<Longrightarrow> sub p (put (p @ k) v s) = (sub p s)(k \<mapsto> v)"
  by (auto simp: sub_def lookup_put fun_eq_iff)

lemma sub_del: "ok s \<Longrightarrow> sub p (del (p @ k) s) = (sub p s)(k := None)"
  by (auto simp: sub_def lookup_del fun_eq_iff)

lemma sub_put_other: "ok s \<Longrightarrow> \<not> prefix p k \<Longrightarrow> sub p (put k v s) = sub p s"
  by (auto simp: sub_def lookup_put fun_eq_iff prefix_def)

lemma sub_del_other: "ok s \<Longrightarrow> \<not> prefix p k \<Longrightarrow> sub p (del k s) = sub p s"
  by (auto simp: sub_def lookup_del fun_eq_iff prefix_def)

text \<open>Writes and deletions of others, outside the prefix, are invisible under it.\<close>

lemma sub_writes_other:
  "ok s \<Longrightarrow> \<forall>(k, x) \<in> set ws. \<not> prefix p k \<Longrightarrow>
    sub p (fold (\<lambda>(k, x) s. case x of Some v \<Rightarrow> put k v s | None \<Rightarrow> del k s) ws s) = sub p s \<and>
    ok (fold (\<lambda>(k, x) s. case x of Some v \<Rightarrow> put k v s | None \<Rightarrow> del k s) ws s)"
proof (induction ws arbitrary: s)
  case Nil
  then show ?case by simp
next
  case (Cons w ws)
  obtain k x where w: "w = (k, x)" by (cases w)
  let ?s = "case x of Some v \<Rightarrow> put k v s | None \<Rightarrow> del k s"
  have "ok ?s" "sub p ?s = sub p s"
    using Cons.prems w by (auto simp: ok_put ok_del sub_put_other sub_del_other split: option.split)
  with Cons.IH [of ?s] Cons.prems(2) w show ?case by simp
qed

lemma put_put: "ok s \<Longrightarrow> lookup (put k v' (put k v s)) = lookup (put k v' s)"
  by (simp add: lookup_put ok_put)

end

lemma single_put_supported: "txn_supported (Txn_Then [OpPut k v] Client_Txn)"
  and single_del_supported: "txn_supported (Txn_Then [OpDelete k] Client_Txn)"
  by (auto simp: txn_supported_def Txn_Then_def Client_Txn_def op_supported_def OpPut_def OpDelete_def)

lemma view_Client_Put:
  assumes "client_ok c"
  shows "view (fst (Client_Put k v c)) = (view c)(k \<mapsto> v)"
  by (rule Txn_Commit_ok [OF assms single_put_supported [of k v]])
    (simp add: Client_Put_def txn_ops_def Txn_Then_def Client_Txn_def op_effect_def OpPut_def)

lemma view_Client_Delete:
  assumes "client_ok c"
  shows "view (fst (Client_Delete k c)) = (view c)(k := None)"
  by (rule Txn_Commit_ok [OF assms single_del_supported [of k]])
    (simp add: Client_Delete_def txn_ops_def Txn_Then_def Client_Txn_def op_effect_def OpDelete_def)

lemma Client_Put_ok:
  assumes "client_ok c"
  obtains c' where "Client_Put k v c = (c', Inr \<lparr>Succeeded = True, Revision = revision c'\<rparr>)"
    and "client_ok c'" and "view c' = (view c)(k \<mapsto> v)"
  by (rule Txn_Commit_ok [OF assms single_put_supported [of k v]])
    (simp add: Client_Put_def txn_ops_def Txn_Then_def Client_Txn_def op_effect_def OpPut_def)

text \<open>A read of one key, over the view.\<close>

lemma KVs_Get_view:
  "KVs (Client_Get k False c) =
     (case view c k of None \<Rightarrow> []
      | Some v \<Rightarrow> [\<lparr>kvs_Key = k, kvs_Value = v, kvs_ModRevision = mod_rev c k\<rparr>])"
  by (simp add: Client_Get_def view_def mod_rev_def split: option.split)

lemma client_ok_Put: "client_ok c \<Longrightarrow> client_ok (fst (Client_Put k v c))"
  by (simp add: Client_Put_def Txn_Commit_client_ok single_put_supported)

lemma client_ok_Delete: "client_ok c \<Longrightarrow> client_ok (fst (Client_Delete k c))"
  by (simp add: Client_Delete_def Txn_Commit_client_ok single_del_supported)

interpretation etcd: kv_store view "\<lambda>k v c. fst (Client_Put k v c)"
  "\<lambda>k c. fst (Client_Delete k c)" client_ok
  by unfold_locales
    (simp_all add: view_Client_Put view_Client_Delete client_ok_Put client_ok_Delete)

definition Client_writes :: "(string \<times> string option) list \<Rightarrow> Client \<Rightarrow> Client" where
  "Client_writes ws c = fold (\<lambda>(k, x) c. case x of Some v \<Rightarrow> fst (Client_Put k v c)
     | None \<Rightarrow> fst (Client_Delete k c)) ws c"

lemma Client_writes_other:
  assumes "client_ok c" and "\<forall>(k, x) \<in> set ws. \<not> prefix p k"
  shows "view (Client_writes ws c) (p @ k) = view c (p @ k)" and "client_ok (Client_writes ws c)"
  using etcd.sub_writes_other [OF assms] by (simp_all add: Client_writes_def etcd.sub_def fun_eq_iff)

lemma client_ok_New: "client_ok etcd_New"
  by (simp add: client_ok_def etcd_New_def watchers_ok_def)

section \<open>Watchers as a transition system\<close>

text \<open>
  The client with the goroutines that \<open>Watch\<close> starts: those waiting for their context
  (\<open>waiting\<close>, by id and channel) and those that have run \<open>removeWatcher\<close> but not yet closed
  their channel (\<open>leaving\<close>). Any client of the store may commit between the two.
\<close>

record watch_sys =
  client :: Client
  waiting :: "(i64 \<times> nat) set"
  leaving :: "nat set"
  panicked :: bool

inductive etcd_step :: "watch_sys \<Rightarrow> watch_sys \<Rightarrow> bool" where
  commit: "Txn_Commit t (client s) = (c, res) \<Longrightarrow>
    etcd_step s (s\<lparr>client := c, panicked := (panicked s \<or> res = Inl SendOnClosed)\<rparr>)"
| watch: "Client_Watch p (client s) = (c, wid, ch) \<Longrightarrow>
    etcd_step s (s\<lparr>client := c, waiting := insert (wid, ch) (waiting s)\<rparr>)"
| cancel: "(wid, ch) \<in> waiting s \<Longrightarrow>
    etcd_step s (s\<lparr>client := removeWatcher wid (client s), waiting := waiting s - {(wid, ch)},
      leaving := insert ch (leaving s)\<rparr>)"
| close: "ch \<in> leaving s \<Longrightarrow>
    etcd_step s (s\<lparr>client := close_chan ch (client s), leaving := leaving s - {ch},
      panicked := (panicked s \<or> closed (chans (client s) ! ch))\<rparr>)"
| receive: "chan_recv ch (client s) = Some (resp, c) \<Longrightarrow> ch < length (chans (client s)) \<Longrightarrow>
    etcd_step s (s\<lparr>client := c\<rparr>)"

inductive_cases etcd_stepE: "etcd_step s t"

definition etcd_start :: "watch_sys \<Rightarrow> bool" where
  "etcd_start s \<longleftrightarrow> s = \<lparr>client = etcd_New, waiting = {}, leaving = {}, panicked = False\<rparr>"

text \<open>
  The invariant ties the registered watchers to the goroutines that wait for them: a channel is
  closed only by its own goroutine, after the watcher is gone.
\<close>

definition watch_inv :: "watch_sys \<Rightarrow> bool" where
  "watch_inv s \<longleftrightarrow>
     wf_map (watchers (client s)) \<and>
     (\<forall>(wid, w) \<in> set (watchers (client s)). (wid, ws_ch w) \<in> waiting s) \<and>
     (\<forall>(wid, ch) \<in> waiting s. ch < length (chans (client s)) \<and>
        \<not> closed (chans (client s) ! ch) \<and> ch \<notin> leaving s) \<and>
     (\<forall>ch \<in> leaving s. ch < length (chans (client s)) \<and> \<not> closed (chans (client s) ! ch)) \<and>
     inj_on snd (waiting s) \<and>
     (\<forall>ch < length (chans (client s)). length (buf (chans (client s) ! ch)) \<le> chan_cap) \<and>
     \<not> panicked s"

lemma watch_inv_start: "etcd_start s \<Longrightarrow> watch_inv s"
  by (simp add: etcd_start_def watch_inv_def etcd_New_def)

lemma watch_inv_watchers_ok:
  assumes "watch_inv s"
  shows "watchers_ok (watchers (client s)) (chans (client s))"
proof -
  have "inj_on (ws_ch \<circ> snd) (set (watchers (client s)))"
  proof (rule inj_onI)
    fix x y assume xy: "x \<in> set (watchers (client s))" "y \<in> set (watchers (client s))"
      "(ws_ch \<circ> snd) x = (ws_ch \<circ> snd) y"
    obtain i w j u where x: "x = (i, w)" and y: "y = (j, u)" by (cases x, cases y)
    with xy assms have "(i, ws_ch w) \<in> waiting s" "(j, ws_ch u) \<in> waiting s" "ws_ch w = ws_ch u"
      by (auto simp: watch_inv_def)
    moreover have "inj_on snd (waiting s)" using assms by (simp add: watch_inv_def)
    ultimately have "i = j" using inj_onD [of snd "waiting s" "(i, ws_ch w)" "(j, ws_ch u)"] by simp
    with xy x y assms show "x = y"
      by (auto simp: watch_inv_def wf_map_def dest: eq_key_imp_eq_value)
  qed
  moreover have "distinct (watchers (client s))"
    using assms by (simp add: watch_inv_def wf_map_def distinct_map)
  ultimately show ?thesis
    using assms by (fastforce simp: watchers_ok_def distinct_map watch_inv_def)
qed

lemma apply_ops_frame:
  "apply_ops ops events c = (c', r) \<Longrightarrow> watchers c' = watchers c \<and> chans c' = chans c"
proof (induction ops events c rule: apply_ops.induct)
  case (2 p ops events c)
  have "watchers c1 = watchers c \<and> chans c1 = chans c" if "op_step p c = Inr (c1, es)" for c1 es
    using that by (auto simp: op_step_def Let_def split: if_splits option.splits)
  with 2 show ?case by (fastforce split: sum.splits prod.splits)
qed simp

lemma apply_ops_no_panic: "apply_ops ops events c = (c', Inl e) \<Longrightarrow> e = UnsupportedOp"
proof (induction ops events c rule: apply_ops.induct)
  case (2 p ops events c)
  have "e = UnsupportedOp" if "op_step p c = Inl e"
    using that by (auto simp: op_step_def Let_def split: if_splits option.splits)
  with 2 show ?case by (fastforce split: sum.splits prod.splits)
qed simp

lemma check_compares_no_panic: "check_compares m cs \<noteq> Inl SendOnClosed"
  by (induction cs) (auto simp: Let_def)

text \<open>Any commit, supported or not, keeps the channels' states and bounds and does not panic.\<close>

definition same_chans :: "Client \<Rightarrow> Client \<Rightarrow> bool" where
  "same_chans c c' \<longleftrightarrow> watchers c' = watchers c \<and> length (chans c') = length (chans c) \<and>
     (\<forall>ch < length (chans c). closed (chans c' ! ch) = closed (chans c ! ch) \<and>
        (length (buf (chans c ! ch)) \<le> chan_cap \<longrightarrow> length (buf (chans c' ! ch)) \<le> chan_cap))"

lemma Txn_Commit_same_chans:
  assumes "watchers_ok (watchers c) (chans c)"
  shows "same_chans c (fst (Txn_Commit t c)) \<and> snd (Txn_Commit t c) \<noteq> Inl SendOnClosed"
proof (cases "check_compares (kv c) (compares t)")
  case (Inl e)
  then show ?thesis
    using check_compares_no_panic [of "kv c" "compares t"]
    by (auto simp: Txn_Commit_def same_chans_def)
next
  case (Inr success)
  let ?ops = "if success then onSuccess t else onFailure t"
  obtain c1 r where run: "apply_ops ?ops [] c = (c1, r)" by (cases "apply_ops ?ops [] c")
  then have frame: "watchers c1 = watchers c" "chans c1 = chans c"
    using apply_ops_frame by blast+
  then have same1: "same_chans c c1" by (simp add: same_chans_def)
  have same: "same_chans c c" by (simp add: same_chans_def)
  show ?thesis
  proof (cases r)
    case (Inl e)
    with run apply_ops_no_panic have "e \<noteq> SendOnClosed" by blast
    with Inl Inr run same same1 show ?thesis
      by (auto simp: Txn_Commit_def Let_def)
  next
    case events: (Inr events)
    obtain chs where told: "notifyWatchersLocked events c1 = Some (c1\<lparr>chans := chs\<rparr>)"
      "length chs = length (chans c1)"
      "\<forall>ch < length chs. closed (chs ! ch) = closed (chans c1 ! ch) \<and>
         (length (buf (chans c1 ! ch)) \<le> chan_cap \<longrightarrow> buf (chs ! ch) = buf (chans c1 ! ch) @
            take (chan_cap - length (buf (chans c1 ! ch))) (received (watchers c1) ch (revision c1) events))"
      using notify_ok [of c1 events] assms frame by auto
    then have "same_chans c (c1\<lparr>chans := chs\<rparr>)"
      using frame by (auto simp: same_chans_def)
    with events Inr run same same1 told(1) show ?thesis
      by (simp add: Txn_Commit_def Let_def)
  qed
qed

lemma watch_inv_same_chans:
  assumes "watch_inv s" and "same_chans (client s) c"
  shows "watch_inv (s\<lparr>client := c\<rparr>)"
  using assms by (fastforce simp: watch_inv_def same_chans_def)

lemma watch_inv_watch:
  assumes "watch_inv s" and "Client_Watch p (client s) = (c, wid, ch)"
  shows "watch_inv (s\<lparr>client := c, waiting := insert (wid, ch) (waiting s)\<rparr>)"
proof -
  let ?n = "length (chans (client s))"
  from assms(2) have c: "wid = nextID (client s) + 1" "ch = ?n"
    "chans c = chans (client s) @ [\<lparr>buf = [], closed = False\<rparr>]"
    "watchers c = AList.update wid \<lparr>ws_prefix = p, ws_ch = ch\<rparr> (watchers (client s))"
    by (auto simp: Client_Watch_def Let_def)
  have old: "i' < ?n" if "(i, i') \<in> waiting s" for i i'
    using assms(1) that by (auto simp: watch_inv_def)
  have wf: "wf_map (watchers (client s))" using assms(1) by (simp add: watch_inv_def)
  have regs: "(i, ws_ch w) \<in> insert (wid, ch) (waiting s)" if "(i, w) \<in> set (watchers c)" for i w
  proof -
    have "map_of (watchers c) i = Some w"
      using that wf_map_lookup_iff [OF wf_map_update [OF wf]] unfolding c(4) by blast
    then have "i = wid \<and> ws_ch w = ch \<or> (i, w) \<in> set (watchers (client s))"
      using wf by (auto simp: c(4) wf_map_lookup_iff split: if_splits)
    then show ?thesis using assms(1) by (auto simp: watch_inv_def)
  qed
  have "inj_on snd (insert (wid, ch) (waiting s))"
    using assms(1) old unfolding c(2) by (fastforce simp: watch_inv_def inj_on_def)
  moreover have "\<forall>(i, i') \<in> insert (wid, ch) (waiting s). i' < length (chans c) \<and>
      \<not> closed (chans c ! i') \<and> i' \<notin> leaving s"
    using assms(1) old unfolding c(2,3) by (fastforce simp: watch_inv_def nth_append)
  moreover have "\<forall>i \<in> leaving s. i < length (chans c) \<and> \<not> closed (chans c ! i)"
    using assms(1) unfolding c(3) by (fastforce simp: watch_inv_def nth_append)
  moreover have "\<forall>i < length (chans c). length (buf (chans c ! i)) \<le> chan_cap"
    using assms(1) unfolding c(3) by (auto simp: watch_inv_def nth_append less_Suc_eq)
  moreover have "\<forall>(i, w) \<in> set (watchers c). (i, ws_ch w) \<in> insert (wid, ch) (waiting s)"
    using regs by blast
  moreover have "wf_map (watchers c)" unfolding c(4) using wf by simp
  ultimately show ?thesis
    using assms(1) by (simp add: watch_inv_def del: insert_iff)
qed

lemma watch_inv_cancel:
  assumes "watch_inv s" and "(wid, ch) \<in> waiting s"
  shows "watch_inv (s\<lparr>client := removeWatcher wid (client s), waiting := waiting s - {(wid, ch)},
      leaving := insert ch (leaving s)\<rparr>)"
proof -
  let ?c = "removeWatcher wid (client s)"
  have c: "chans ?c = chans (client s)" "watchers ?c = AList.delete wid (watchers (client s))"
    by (auto simp: removeWatcher_def map_of_eq_None_iff split: option.splits)
  have wf: "wf_map (watchers (client s))" using assms(1) by (simp add: watch_inv_def)
  have regs: "(i, ws_ch w) \<in> waiting s - {(wid, ch)}" if "(i, w) \<in> set (watchers ?c)" for i w
  proof -
    have "map_of (watchers ?c) i = Some w"
      using that wf_map_lookup_iff [OF wf_map_delete [OF wf]] unfolding c(2) by blast
    then have "i \<noteq> wid \<and> (i, w) \<in> set (watchers (client s))"
      using wf by (auto simp: c(2) wf_map_lookup_iff split: if_splits)
    then show ?thesis using assms(1) by (auto simp: watch_inv_def)
  qed
  have "i' \<noteq> ch" if "(i, i') \<in> waiting s - {(wid, ch)}" for i i'
    using that assms inj_onD [of snd "waiting s" "(i, i')" "(wid, ch)"] by (auto simp: watch_inv_def)
  then have waits: "\<forall>(i, i') \<in> waiting s - {(wid, ch)}. i' \<notin> insert ch (leaving s)"
    using assms(1) by (auto simp: watch_inv_def)
  show ?thesis
    using assms waits regs wf unfolding watch_inv_def c by (auto simp: c intro: inj_on_diff)
qed

lemma watch_inv_close:
  assumes "watch_inv s" and "ch \<in> leaving s"
  shows "watch_inv (s\<lparr>client := close_chan ch (client s), leaving := leaving s - {ch},
      panicked := (panicked s \<or> closed (chans (client s) ! ch))\<rparr>)"
proof -
  have "i' \<noteq> ch" if "(i, i') \<in> waiting s" for i i'
    using that assms by (auto simp: watch_inv_def)
  with assms show ?thesis
    by (fastforce simp: watch_inv_def close_chan_def nth_list_update)
qed

lemma watch_inv_receive:
  assumes "watch_inv s" and "chan_recv ch (client s) = Some (resp, c)"
    and "ch < length (chans (client s))"
  shows "watch_inv (s\<lparr>client := c\<rparr>)"
proof (rule watch_inv_same_chans [OF assms(1)])
  show "same_chans (client s) c"
    using assms(2,3)
    by (auto simp: chan_recv_def same_chans_def nth_list_update split: list.splits if_splits)
qed

lemma watch_inv_step: "watch_inv s \<Longrightarrow> etcd_step s t \<Longrightarrow> watch_inv t"
proof (erule etcd_stepE)
  fix t' c res
  assume s: "watch_inv s" and t: "t = s\<lparr>client := c, panicked := (panicked s \<or> res = Inl SendOnClosed)\<rparr>"
    and commit: "Txn_Commit t' (client s) = (c, res)"
  have "same_chans (client s) c" "res \<noteq> Inl SendOnClosed"
    using Txn_Commit_same_chans [OF watch_inv_watchers_ok [OF s], of t'] commit by auto
  with watch_inv_same_chans [OF s, of c] show "watch_inv t"
    using s t by (simp add: watch_inv_def)
qed (auto intro: watch_inv_watch watch_inv_cancel watch_inv_close watch_inv_receive)

interpretation watch: invariant etcd_start etcd_step watch_inv
  by unfold_locales (auto intro: watch_inv_start watch_inv_step)

section \<open>A watcher's copy of the store\<close>

lemma apply_ops_length:
  "apply_ops ops events c = (c', Inr evs) \<Longrightarrow> length evs \<le> length events + length ops"
proof (induction ops events c rule: apply_ops.induct)
  case (2 p ops events c)
  have "length es \<le> 1" if "op_step p c = Inr (c1, es)" for c1 es
    using that by (auto simp: op_step_def Let_def split: if_splits option.splits)
  with 2 show ?case by (fastforce split: sum.splits prod.splits)
qed simp

text \<open>What the holder of a channel has still to receive, and when its copy is up to date.\<close>

definition pending :: "nat \<Rightarrow> Client \<Rightarrow> WatchEvent list" where
  "pending ch c = concat (map wr_Events (buf (chans c ! ch)))"

definition synced :: "string \<Rightarrow> nat \<Rightarrow> Client \<Rightarrow> (string \<rightharpoonup> string) \<Rightarrow> bool" where
  "synced p ch c seen \<longleftrightarrow> fold apply_event (pending ch c) seen = keys_under p (view c)"

lemma received_events: "concat (map wr_Events (received ws ch rv es)) = filter (wants ws ch) es"
  by (induction es) (auto simp: received_def)

lemma synced_commit:
  assumes "client_ok c" and "txn_supported t" and "(wid, w) \<in> set (watchers c)"
    and "length (buf (chans c ! ws_ch w)) + txn_size t \<le> chan_cap"
    and "synced (ws_prefix w) (ws_ch w) c seen"
  shows "synced (ws_prefix w) (ws_ch w) (fst (Txn_Commit t c)) seen"
proof -
  obtain c' new where commit: "fst (Txn_Commit t c) = c'"
    and run: "apply_ops (txn_ops c t) [] c = (c'\<lparr>chans := chans c\<rparr>, Inr new)"
    and view: "view c' = fold apply_event new (view c)"
    and bufs: "\<forall>ch < length (chans c). closed (chans c' ! ch) = closed (chans c ! ch) \<and>
       (length (buf (chans c ! ch)) \<le> chan_cap \<longrightarrow> buf (chans c' ! ch) = buf (chans c ! ch) @
          take (chan_cap - length (buf (chans c ! ch))) (received (watchers c) ch (revision c') new))"
    by (rule Txn_Commit_ok [OF assms(1,2)]) simp
  have reg: "ws_ch w < length (chans c)" and dist: "distinct (map (ws_ch \<circ> snd) (watchers c))"
    using assms(1,3) by (auto simp: client_ok_def watchers_ok_def)
  have size: "length new \<le> txn_size t"
    using apply_ops_length [OF run] by (simp add: txn_ops_def txn_size_def split: if_splits)
  have room: "length (received (watchers c) (ws_ch w) rv new) \<le> chan_cap - length (buf (chans c ! ws_ch w))"
    for rv
  proof -
    have "length (received (watchers c) (ws_ch w) rv new) \<le> length new" by (simp add: received_def)
    with size assms(4) show ?thesis by linarith
  qed
  have "buf (chans c' ! ws_ch w) =
      buf (chans c ! ws_ch w) @ received (watchers c) (ws_ch w) (revision c') new"
    using bufs reg assms(4) room by simp
  then have "pending (ws_ch w) c' = pending (ws_ch w) c @ filter (wants (watchers c) (ws_ch w)) new"
    by (simp add: pending_def received_events)
  moreover have "wants (watchers c) (ws_ch w) = (\<lambda>e. prefix (ws_prefix w) (ev_Key e))"
    using wants_own [OF dist assms(3)] by blast
  ultimately show ?thesis
    using assms(5) view commit by (simp add: synced_def replay_under)
qed

lemma synced_receive:
  assumes "synced p ch c seen" and "chan_recv ch c = Some (resp, c')" and "ch < length (chans c)"
  shows "synced p ch c' (fold apply_event (wr_Events resp) seen)"
  using assms by (auto simp: synced_def pending_def chan_recv_def view_def split: list.splits)

lemma update_set_subset: "set (AList.update k v m) \<subseteq> insert (k, v) (set m)"
  by (induction m) auto

lemma update_mem [simp]: "(k, v) \<in> set (AList.update k v m)"
  by (induction m) auto

lemma update_distinct_chans:
  "distinct (map (ws_ch \<circ> snd) ws) \<Longrightarrow> ws_ch w \<notin> (ws_ch \<circ> snd) ` set ws \<Longrightarrow>
   distinct (map (ws_ch \<circ> snd) (AList.update wid w ws))"
proof (induction ws)
  case (Cons x ws)
  have "(ws_ch \<circ> snd) ` set (AList.update wid w ws) \<subseteq> insert (ws_ch w) ((ws_ch \<circ> snd) ` set ws)"
    using update_set_subset [of wid w ws] by force
  with Cons show ?case by (cases x) force
qed simp

lemma Client_Watch_ok:
  assumes "client_ok c" and "Client_Watch p c = (c', wid, ch)"
  shows "client_ok c' \<and> (wid, \<lparr>ws_prefix = p, ws_ch = ch\<rparr>) \<in> set (watchers c') \<and>
    ch < length (chans c') \<and> synced p ch c' (keys_under p (view c'))"
proof -
  let ?w = "\<lparr>ws_prefix = p, ws_ch = ch\<rparr>"
  from assms(2) have c': "ch = length (chans c)" "kv c' = kv c"
    "chans c' = chans c @ [\<lparr>buf = [], closed = False\<rparr>]"
    "watchers c' = AList.update wid ?w (watchers c)"
    by (auto simp: Client_Watch_def Let_def)
  have wf: "wf_map (watchers c)" and wk: "watchers_ok (watchers c) (chans c)"
    using assms(1) by (simp_all add: client_ok_def)
  have "ws_ch ?w \<notin> (ws_ch \<circ> snd) ` set (watchers c)"
    using wk c'(1) by (force simp: watchers_ok_def)
  then have "distinct (map (ws_ch \<circ> snd) (watchers c'))"
    unfolding c'(4) using wk by (intro update_distinct_chans) (simp_all add: watchers_ok_def)
  moreover have "\<forall>(i, w) \<in> set (watchers c'). ws_ch w < length (chans c') \<and> \<not> closed (chans c' ! ws_ch w)"
    using update_set_subset [of wid ?w "watchers c"] wk
    unfolding c'(3,4) by (fastforce simp: watchers_ok_def nth_append c'(1))
  ultimately have "client_ok c'"
    using assms(1) wf unfolding client_ok_def watchers_ok_def c'(2) by (simp add: c'(4))
  moreover have "(wid, ?w) \<in> set (watchers c')"
    unfolding c'(4) by simp
  ultimately show ?thesis
    using c' by (simp add: synced_def pending_def)
qed

datatype watch_act = Committed Txn | Received

fun watch_run ::
  "nat \<Rightarrow> watch_act list \<Rightarrow> Client \<times> (string \<rightharpoonup> string) \<Rightarrow> Client \<times> (string \<rightharpoonup> string)" where
  "watch_run ch [] s = s"
| "watch_run ch (Committed t # acts) (c, seen) = watch_run ch acts (fst (Txn_Commit t c), seen)"
| "watch_run ch (Received # acts) (c, seen) =
     (case chan_recv ch c of
        None \<Rightarrow> watch_run ch acts (c, seen)
      | Some (resp, c') \<Rightarrow> watch_run ch acts (c', fold apply_event (wr_Events resp) seen))"

text \<open>No commit of the run finds the buffer too full for its events.\<close>

fun keeps_up :: "nat \<Rightarrow> watch_act list \<Rightarrow> Client \<Rightarrow> bool" where
  "keeps_up ch [] c = True"
| "keeps_up ch (Committed t # acts) c =
     (txn_supported t \<and> length (buf (chans c ! ch)) + txn_size t \<le> chan_cap \<and>
      keeps_up ch acts (fst (Txn_Commit t c)))"
| "keeps_up ch (Received # acts) c =
     (case chan_recv ch c of None \<Rightarrow> keeps_up ch acts c | Some (resp, c') \<Rightarrow> keeps_up ch acts c')"

lemma chan_recv_ok:
  assumes "client_ok c" and "chan_recv ch c = Some (resp, c')"
  shows "client_ok c' \<and> watchers c' = watchers c \<and> length (chans c') = length (chans c)"
proof -
  have "closed (chans c' ! i) = closed (chans c ! i)" for i
    using assms(2)
    by (cases "ch < length (chans c)"; cases "i = ch")
      (auto simp: chan_recv_def list_update_beyond split: list.splits)
  with assms show ?thesis
    by (auto simp: client_ok_def watchers_ok_def chan_recv_def split: list.splits)
qed

lemma watch_run_synced:
  assumes "client_ok c" and "(wid, w) \<in> set (watchers c)" and "ws_ch w < length (chans c)"
    and "synced (ws_prefix w) (ws_ch w) c seen" and "keeps_up (ws_ch w) acts c"
    and "watch_run (ws_ch w) acts (c, seen) = (c', seen')"
  shows "synced (ws_prefix w) (ws_ch w) c' seen'"
  using assms
proof (induction acts arbitrary: c seen)
  case Nil
  then show ?case by simp
next
  case (Cons a acts)
  show ?case
  proof (cases a)
    case (Committed t)
    let ?c = "fst (Txn_Commit t c)"
    have t: "txn_supported t" "length (buf (chans c ! ws_ch w)) + txn_size t \<le> chan_cap"
      using Cons.prems(5) Committed by simp_all
    have "client_ok ?c" "watchers ?c = watchers c" "length (chans ?c) = length (chans c)"
      by (rule Txn_Commit_ok [OF Cons.prems(1) t(1)], simp)+
    with Cons.IH [of ?c seen] Cons.prems Committed synced_commit [OF Cons.prems(1) t(1) Cons.prems(2) t(2)]
    show ?thesis by simp
  next
    case Received
    show ?thesis
    proof (cases "chan_recv (ws_ch w) c")
      case None
      with Cons.IH [of c seen] Cons.prems Received show ?thesis by simp
    next
      case (Some p)
      obtain resp c1 where p: "p = (resp, c1)" by (cases p)
      with Some chan_recv_ok [OF Cons.prems(1)] synced_receive [OF Cons.prems(4) _ Cons.prems(3)]
        Cons.IH [of c1 "fold apply_event (wr_Events resp) seen"] Cons.prems Received
      show ?thesis by simp
    qed
  qed
qed

section \<open>Concrete clients\<close>

lemmas txn_eval = Client_Txn_def Txn_If_def Txn_Then_def Txn_Else_def OpPut_def OpDelete_def
  CompareModRevision_def
lemmas etcd_eval = Txn_Commit_def Client_Put_def Client_Delete_def Client_Watch_def chan_recv_def
  op_step_def notifyWatchersLocked_def send_or_drop_def chan_cap_def etcd_New_def Let_def txn_eval

definition cas_put :: "string \<Rightarrow> i64 \<Rightarrow> string \<Rightarrow> Txn" where
  "cas_put k r v = Txn_Then [OpPut k v] (Txn_If [CompareModRevision k CompareOpEqual r] Client_Txn)"

lemma cas_put_supported: "txn_supported (cas_put k r v)"
  by (auto simp: cas_put_def txn_supported_def op_supported_def cmp_supported_def txn_eval)

definition one_key :: Client where
  "one_key = \<lparr>revision = 1, kv = [(''k'', \<lparr>kv_value = ''v'', kv_modRevision = 1\<rparr>)],
     watchers = [], nextID = 0, chans = []\<rparr>"

lemma one_key_put: "fst (Client_Put ''k'' ''v'' etcd_New) = one_key"
  by (simp add: etcd_eval one_key_def)

lemma one_key_ok: "client_ok one_key"
  by (simp add: client_ok_def watchers_ok_def one_key_def)

section \<open>Properties\<close>

text \<open>
  C5: A transaction with supported comparisons and operations runs atomically: it reports success
  exactly when every compared key is at the expected revision (0 for an absent key), the store it
  leaves is that of before with the operations of the branch taken applied in order, and a failed
  comparison with no \<open>Else\<close> branch leaves the client untouched.
\<close>

theorem Commit_compare_and_apply:
  assumes "client_ok c" and "txn_supported t"
  defines "ok \<equiv> (\<forall>k \<in> set (compares t). mod_rev c (cmp_key k) = cmp_value k)"
  shows "\<exists>c'. Txn_Commit t c = (c', Inr \<lparr>Succeeded = ok, Revision = revision c'\<rparr>) \<and>
    view c' = fold op_effect (if ok then onSuccess t else onFailure t) (view c) \<and>
    (\<not> ok \<and> onFailure t = [] \<longrightarrow> c' = c)"
proof -
  have ok: "ok = (\<forall>k \<in> set (compares t). cmp_holds c k)" by (simp add: ok_def cmp_holds_def)
  obtain c' where commit: "Txn_Commit t c = (c', Inr \<lparr>Succeeded = ok, Revision = revision c'\<rparr>)"
    and view: "view c' = fold op_effect (txn_ops c t) (view c)"
    unfolding ok by (rule Txn_Commit_ok [OF assms(1,2)]) simp
  have "c' = c" if "\<not> ok" "onFailure t = []"
    using commit Txn_Commit_supported [OF assms(2), of c] that by (simp add: txn_ops_def ok split: if_splits)
  with commit view show ?thesis
    by (intro exI [of _ c']) (simp add: txn_ops_def ok)
qed

theorem Commit_compare_and_apply_witness:
  "client_ok one_key \<and> txn_supported (cas_put ''k'' 7 ''w'') \<and>
   Txn_Commit (cas_put ''k'' 7 ''w'') one_key = (one_key, Inr \<lparr>Succeeded = False, Revision = 1\<rparr>)"
  using Commit_compare_and_apply [OF one_key_ok cas_put_supported [of "''k''" 7 "''w''"]]
    one_key_ok cas_put_supported [of "''k''" 7 "''w''"]
  by (auto simp: cas_put_def txn_eval mod_rev_def one_key_def)

text \<open>
  C25: Revisions are never reused, so a compare-and-swap cannot be fooled: once a key has been
  written or deleted after revision \<open>r\<close>, no later transactions bring it back to \<open>r\<close>. The bound
  keeps the 64-bit revision from wrapping.
\<close>

theorem revision_never_reused:
  assumes "client_ok c" and "rev_ok c" and "\<forall>t \<in> set (ts @ ts'). txn_supported t"
    and "sint (revision c) + int (total_size (ts @ ts')) \<le> i64_max"
    and "mod_rev c k = r" and "r \<noteq> 0" and "mod_rev (commits ts c) k \<noteq> r"
  shows "mod_rev (commits ts' (commits ts c)) k \<noteq> r"
proof -
  have sizes: "total_size (ts @ ts') = total_size ts + total_size ts'"
    by (simp add: total_size_def)
  have mid: "client_ok (commits ts c) \<and> revs_advance (int (total_size ts)) c (commits ts c)"
    using assms by (intro commits_revs) (auto simp: sizes)
  then have "client_ok (commits ts' (commits ts c)) \<and>
      revs_advance (int (total_size ts')) (commits ts c) (commits ts' (commits ts c))"
    using assms by (intro commits_revs) (auto simp: sizes revs_advance_def)
  then have "mod_rev (commits ts' (commits ts c)) k = mod_rev (commits ts c) k \<or>
      mod_rev (commits ts' (commits ts c)) k = 0 \<or>
      sint (revision (commits ts c)) < sint (mod_rev (commits ts' (commits ts c)) k)"
    by (simp add: revs_advance_def)
  moreover have "sint r \<le> sint (revision (commits ts c))"
    using rev_ok_le [OF assms(2), of k] assms(5,6) mid by (simp add: revs_advance_def)
  ultimately show ?thesis using assms(6,7) by auto
qed

theorem revision_never_reused_witness:
  "mod_rev (commits [Txn_Then [OpPut ''k'' ''v''] Client_Txn] (commits [Txn_Then [OpDelete ''k''] Client_Txn] one_key))
     ''k'' \<noteq> 1"
proof (rule revision_never_reused [OF one_key_ok])
  show "rev_ok one_key" by (simp add: rev_ok_def one_key_def mod_rev_def)
  show "\<forall>t \<in> set ([Txn_Then [OpDelete ''k''] Client_Txn] @ [Txn_Then [OpPut ''k'' ''v''] Client_Txn]).
      txn_supported t"
    by (simp add: single_put_supported single_del_supported)
qed (auto simp: one_key_def mod_rev_def commits_def etcd_eval
  total_size_def txn_size_def i64_max_def)

text \<open>
  C16: However commits, new watches, cancellations, closes and receives interleave, no send meets
  a closed channel and no channel is closed twice, every registered watcher's channel is open, and
  no buffer passes its capacity.
\<close>

theorem watch_never_panics:
  assumes "reach etcd_start etcd_step s"
  shows "\<not> panicked s \<and>
    (\<forall>(wid, w) \<in> set (watchers (client s)). \<not> closed (chans (client s) ! ws_ch w)) \<and>
    (\<forall>ch < length (chans (client s)). length (buf (chans (client s) ! ch)) \<le> chan_cap)"
proof -
  have inv: "watch_inv s" by (rule watch.reach_inv [OF assms])
  then have "\<forall>(wid, w) \<in> set (watchers (client s)). \<not> closed (chans (client s) ! ws_ch w)"
    using watch_inv_watchers_ok [OF inv] by (fastforce simp: watchers_ok_def)
  with inv show ?thesis by (simp add: watch_inv_def)
qed

theorem watch_never_panics_witness:
  "\<exists>s. reach etcd_start etcd_step s \<and> watchers (client s) \<noteq> [] \<and> \<not> panicked s"
proof -
  let ?s = "\<lparr>client = etcd_New, waiting = {}, leaving = {}, panicked = False\<rparr>"
  obtain c wid ch where w: "Client_Watch ''p'' (client ?s) = (c, wid, ch)"
    by (cases "Client_Watch ''p'' (client ?s)") auto
  have "reach etcd_start etcd_step (?s\<lparr>client := c, waiting := insert (wid, ch) (waiting ?s)\<rparr>)"
    using etcd_step.watch [OF w] by (intro reach_step [OF reach_start]) (simp_all add: etcd_start_def)
  then show ?thesis
    using watch_never_panics [of "?s\<lparr>client := c, waiting := insert (wid, ch) (waiting ?s)\<rparr>"] w
    by (intro exI [of _ "?s\<lparr>client := c, waiting := insert (wid, ch) (waiting ?s)\<rparr>"])
      (auto simp: etcd_eval)
qed

text \<open>
  C15: A watcher that starts with the keys under its prefix and applies the events it receives has
  an exact copy of those keys whenever its channel is empty, through any run of transactions in
  which its buffer has room for their events.
\<close>

theorem watch_replica:
  assumes "client_ok c0" and "Client_Watch p c0 = (c, wid, ch)" and "keeps_up ch acts c"
    and "watch_run ch acts (c, keys_under p (view c)) = (c', seen)" and "buf (chans c' ! ch) = []"
  shows "seen = keys_under p (view c')"
proof -
  have "client_ok c" "(wid, \<lparr>ws_prefix = p, ws_ch = ch\<rparr>) \<in> set (watchers c)" "ch < length (chans c)"
    "synced p ch c (keys_under p (view c))"
    using Client_Watch_ok [OF assms(1,2)] by simp_all
  then have "synced p ch c' seen"
    using watch_run_synced [of c wid "\<lparr>ws_prefix = p, ws_ch = ch\<rparr>"] assms(3,4) by simp
  with assms(5) show ?thesis by (simp add: synced_def pending_def)
qed

theorem watch_replica_witness:
  "\<exists>c wid c' seen. Client_Watch ''k'' one_key = (c, wid, 0) \<and>
     watch_run 0 [Committed (cas_put ''k'' 1 ''w''), Received] (c, keys_under ''k'' (view c)) = (c', seen) \<and>
     seen ''k'' = Some ''w''"
proof -
  obtain c wid ch where w: "Client_Watch ''k'' one_key = (c, wid, ch)"
    by (cases "Client_Watch ''k'' one_key") auto
  let ?acts = "[Committed (cas_put ''k'' 1 ''w''), Received]"
  obtain c' seen where r: "watch_run ch ?acts (c, keys_under ''k'' (view c)) = (c', seen)"
    by (cases "watch_run ch ?acts (c, keys_under ''k'' (view c))")
  have "txn_size (cas_put ''k'' 1 ''w'') = 1" by (simp add: cas_put_def txn_eval txn_size_def)
  moreover have "ch = 0" "buf (chans c ! ch) = []" using w by (auto simp: etcd_eval one_key_def)
  ultimately have "ch = 0" and k: "keeps_up ch ?acts c"
    by (auto simp: cas_put_supported chan_cap_def split: option.splits prod.splits)
  have c: "ch = 0" "keeps_up ch ?acts c" "buf (chans c' ! ch) = []" "view c' ''k'' = Some ''w''"
    using k w r by (auto simp: etcd_eval one_key_def cas_put_def view_def)
  have "seen = keys_under ''k'' (view c')" by (rule watch_replica [OF one_key_ok w c(2) r c(3)])
  with c w r show ?thesis by (auto simp: keys_under_def)
qed

text \<open>
  A watcher whose buffer is full misses a change for good: the store takes the new value and
  the watcher's channel is left as it was, with no trace of the event.
\<close>

theorem full_buffer_drops_event:
  assumes "client_ok c" and "(wid, w) \<in> set (watchers c)" and "prefix (ws_prefix w) k"
    and "length (buf (chans c ! ws_ch w)) = chan_cap"
  shows "view (fst (Client_Put k v c)) k = Some v \<and>
    buf (chans (fst (Client_Put k v c)) ! ws_ch w) = buf (chans c ! ws_ch w)"
proof -
  have reg: "ws_ch w < length (chans c)" using assms(1,2) by (auto simp: client_ok_def watchers_ok_def)
  have "buf (chans (fst (Client_Put k v c)) ! ws_ch w) = buf (chans c ! ws_ch w)"
    by (rule Txn_Commit_ok [OF assms(1) single_put_supported [of k v]])
      (use assms(4) reg in \<open>simp add: Client_Put_def\<close>)
  with view_Client_Put [OF assms(1)] show ?thesis by simp
qed

definition full_watch :: Client where
  "full_watch = \<lparr>revision = 8, kv = [],
     watchers = [(1, \<lparr>ws_prefix = ''a'', ws_ch = 0\<rparr>)], nextID = 1,
     chans = [\<lparr>buf = replicate 8 \<lparr>wr_Events = [], wr_Revision = 8\<rparr>, closed = False\<rparr>]\<rparr>"

theorem full_buffer_drops_event_witness:
  "client_ok full_watch \<and> view (fst (Client_Put ''ab'' ''v'' full_watch)) ''ab'' = Some ''v'' \<and>
   length (buf (chans (fst (Client_Put ''ab'' ''v'' full_watch)) ! 0)) = 8"
proof -
  have ok: "client_ok full_watch" by (simp add: client_ok_def watchers_ok_def full_watch_def)
  show ?thesis
    using full_buffer_drops_event [OF ok, of 1 "\<lparr>ws_prefix = ''a'', ws_ch = 0\<rparr>" "''ab''" "''v''"] ok
    by (simp add: full_watch_def chan_cap_def)
qed

end
