(* ===== verification/MetadataService.thy ===== *)
theory MetadataService
  imports Pgxsim Etcdsim
begin

text \<open>
  The metadata service of \<open>internal/metadata/service.go\<close>, with the messages of
  \<open>internal/metadata/metadata.pb.go\<close>: every write goes through a transaction of the store first
  and a guarded etcd transaction after it.

  Pools and etcd clients are pointers: indices into the heap \<open>World\<close>, so that a service may read
  and write the same store or two, and share its etcd client with others. The handlers here run
  without interference; MetadataConcurrency interleaves them. The deferred \<open>Rollback\<close> acts on a
  transaction that nobody holds afterwards and has no effect on the world.
\<close>

section \<open>Messages\<close>

record MetadataItem =
  item_Key :: string
  item_Value :: string
  item_Attributes :: "(string, string) gomap"
  item_Version :: i64

definition MetadataItem_GetAttributes :: "MetadataItem option \<Rightarrow> (string, string) gomap" where
  "MetadataItem_GetAttributes x = (case x of Some i \<Rightarrow> item_Attributes i | None \<Rightarrow> [])"

definition MetadataItem_Clone :: "MetadataItem \<Rightarrow> MetadataItem" where
  "MetadataItem_Clone x =
     \<lparr>item_Key = item_Key x, item_Value = item_Value x,
      item_Attributes = (if length (item_Attributes x) > 0 then copy_map (item_Attributes x) else []),
      item_Version = item_Version x\<rparr>"

record PutMetadataRequest =
  put_Item :: "MetadataItem option"
  put_ExpectedVersion :: i64
  put_ExpectedEtcdRevision :: i64

record PutMetadataResponse =
  putr_Item :: MetadataItem
  putr_EtcdRevision :: i64

record GetMetadataRequest =
  get_Key :: string

record GetMetadataResponse =
  getr_Item :: MetadataItem

record DeleteMetadataRequest =
  del_Key :: string
  del_ExpectedVersion :: i64
  del_ExpectedEtcdRevision :: i64

record DeleteMetadataResponse =
  delr_EtcdRevision :: i64

record ListMetadataRequest =
  list_Prefix :: string
  list_Limit :: "32 word"
  list_PageToken :: string

record ListMetadataResponse =
  listr_Items :: "MetadataItem list"
  listr_NextPageToken :: string

section \<open>The service\<close>

datatype svc_error =
    WritePoolRequired | EtcdRequired | ItemRequired | KeyRequired
  | MissingKey string | VersionMismatch string | NotFound string | DeleteLost string
  | EtcdConflict string | RetryBudget int | MarshalFailed
  | PgxError pgx_error | EtcdError etcd_error

record World =
  stores :: "nat \<Rightarrow> Store"
  etcds :: "nat \<Rightarrow> Client"

record Service =
  writePool :: nat
  readPool :: nat
  svc_etcd :: nat
  maxRetries :: int
  keyPrefix :: string

record ServiceConfig =
  cfg_WritePool :: "nat option"
  cfg_ReadPool :: "nat option"
  cfg_Etcd :: "nat option"
  cfg_KeyPrefix :: string
  cfg_MaxRetries :: int

definition NewService :: "ServiceConfig \<Rightarrow> svc_error + Service" where
  "NewService cfg =
     (case cfg_WritePool cfg of
        None \<Rightarrow> Inl WritePoolRequired
      | Some wp \<Rightarrow>
          let rp = (case cfg_ReadPool cfg of None \<Rightarrow> wp | Some rp \<Rightarrow> rp) in
          (case cfg_Etcd cfg of
             None \<Rightarrow> Inl EtcdRequired
           | Some e \<Rightarrow> Inr \<lparr>writePool = wp, readPool = rp, svc_etcd = e,
               maxRetries = (if cfg_MaxRetries cfg \<le> 0 then 5 else cfg_MaxRetries cfg),
               keyPrefix = (if cfg_KeyPrefix cfg = [] then ''metadata/'' else cfg_KeyPrefix cfg)\<rparr>))"

text \<open>
  \<open>retry\<close> runs a closure over a state \<open>'s\<close>, which holds the world and the variables the closure
  captures. Only a serialization failure is tried again.
\<close>

fun retry_loop :: "nat \<Rightarrow> svc_error \<Rightarrow> ('s \<Rightarrow> 's \<times> svc_error option) \<Rightarrow> svc_error option \<Rightarrow> 's
    \<Rightarrow> 's \<times> svc_error option" where
  "retry_loop 0 exceeded fn lastErr s =
     (s, Some (case lastErr of Some e \<Rightarrow> e | None \<Rightarrow> exceeded))"
| "retry_loop (Suc n) exceeded fn lastErr s =
     (case fn s of
        (s', None) \<Rightarrow> (s', None)
      | (s', Some e) \<Rightarrow>
          if e = PgxError ErrSerialization then retry_loop n exceeded fn (Some e) s'
          else (s', Some e))"

definition retry :: "Service \<Rightarrow> ('s \<Rightarrow> 's \<times> svc_error option) \<Rightarrow> 's \<Rightarrow> 's \<times> svc_error option" where
  "retry svc fn s = retry_loop (nat (maxRetries svc)) (RetryBudget (maxRetries svc)) fn None s"

definition etcdKey :: "Service \<Rightarrow> string \<Rightarrow> string" where
  "etcdKey svc key = keyPrefix svc @ key"

definition cloneMap :: "(string, string) gomap \<Rightarrow> (string, string) gomap" where
  "cloneMap src = (if length src = 0 then [] else copy_map src)"

definition recordToItem :: "Record \<Rightarrow> MetadataItem" where
  "recordToItem r =
     \<lparr>item_Key = rec_Key r, item_Value = rec_Value r,
      item_Attributes = cloneMap (rec_Attributes r), item_Version = rec_Version r\<rparr>"

abbreviation (input) write_tx :: TxOptions where
  "write_tx \<equiv> \<lparr>IsoLevel = IsoLevelSerializable, AccessMode = ReadWrite\<rparr>"

abbreviation (input) read_tx :: TxOptions where
  "read_tx \<equiv> \<lparr>IsoLevel = IsoLevelSerializable, AccessMode = ReadOnly\<rparr>"

section \<open>PutMetadata\<close>

text \<open>
  The closure of \<open>PutMetadata\<close> is split where another goroutine can come in: \<open>put_stage\<close> begins
  the transaction, reads the key, checks the expected version and stages the new record;
  \<open>put_attempt\<close> adds the commit. The record staged is the captured variable \<open>newRec\<close>.
\<close>

definition put_stage :: "MetadataItem \<Rightarrow> i64 \<Rightarrow> Store \<Rightarrow> svc_error + Record \<times> Tx" where
  "put_stage item expected s =
     (case Pool_BeginTx write_tx of
        Inl e \<Rightarrow> Inl (PgxError e)
      | Inr tx \<Rightarrow>
          let (tx, existing) = Tx_Get (item_Key item) s tx in
          (case (if sint expected > 0 then
                   (case existing of
                      None \<Rightarrow> Some (MissingKey (item_Key item))
                    | Some r \<Rightarrow> if rec_Version r \<noteq> expected then Some (VersionMismatch (item_Key item))
                                else None)
                 else None) of
             Some e \<Rightarrow> Inl e
           | None \<Rightarrow>
               let version = (case existing of Some r \<Rightarrow> rec_Version r + 1 | None \<Rightarrow> 1);
                   newRec = \<lparr>rec_Key = item_Key item, rec_Value = item_Value item,
                             rec_Attributes = cloneMap (item_Attributes item), rec_Version = version\<rparr>
               in (case Tx_Put newRec tx of
                     Inl e \<Rightarrow> Inl (PgxError e)
                   | Inr tx \<Rightarrow> Inr (newRec, tx))))"

definition put_attempt :: "Service \<Rightarrow> MetadataItem \<Rightarrow> i64 \<Rightarrow> Record \<times> World \<Rightarrow>
    (Record \<times> World) \<times> svc_error option" where
  "put_attempt svc item expected = (\<lambda>(newRec, w).
     (case put_stage item expected (stores w (writePool svc)) of
        Inl e \<Rightarrow> ((newRec, w), Some e)
      | Inr (newRec, tx) \<Rightarrow>
          (case Tx_Commit (stores w (writePool svc)) tx of
             (s, _, e) \<Rightarrow> ((newRec, w\<lparr>stores := (stores w)(writePool svc := s)\<rparr>), map_option PgxError e))))"

text \<open>The guarded etcd transaction that \<open>PutMetadata\<close> and \<open>DeleteMetadata\<close> end with.\<close>

definition guarded_txn :: "Service \<Rightarrow> string \<Rightarrow> i64 \<Rightarrow> Op \<Rightarrow> Txn" where
  "guarded_txn svc key expected p =
     (let txn = Client_Txn;
          txn = (if sint expected \<ge> 0
                 then Txn_If [CompareModRevision (etcdKey svc key) CompareOpEqual expected] txn else txn)
      in Txn_Then [p] txn)"

definition etcd_commit :: "Service \<Rightarrow> string \<Rightarrow> i64 \<Rightarrow> Op \<Rightarrow> World \<Rightarrow> World \<times> (svc_error + i64)" where
  "etcd_commit svc key expected p w =
     (case Txn_Commit (guarded_txn svc key expected p) (etcds w (svc_etcd svc)) of
        (c, res) \<Rightarrow>
          (w\<lparr>etcds := (etcds w)(svc_etcd svc := c)\<rparr>,
           (case res of
              Inl e \<Rightarrow> Inl (EtcdError e)
            | Inr resp \<Rightarrow> if \<not> Succeeded resp then Inl (EtcdConflict key) else Inr (Revision resp))))"

definition PutMetadata :: "(MetadataItem \<Rightarrow> string option) \<Rightarrow> Service \<Rightarrow> PutMetadataRequest option \<Rightarrow>
    World \<Rightarrow> World \<times> (svc_error + PutMetadataResponse)" where
  "PutMetadata marshal svc request w =
     (case request of
        None \<Rightarrow> (w, Inl ItemRequired)
      | Some req \<Rightarrow>
     (case put_Item req of
        None \<Rightarrow> (w, Inl ItemRequired)
      | Some item0 \<Rightarrow>
          let item = MetadataItem_Clone item0 in
          if item_Key item = [] then (w, Inl KeyRequired)
          else
            let newRec = \<lparr>rec_Key = [], rec_Value = [], rec_Attributes = [], rec_Version = 0\<rparr> in
            (case retry svc (put_attempt svc item (put_ExpectedVersion req)) (newRec, w) of
               ((newRec, w), Some e) \<Rightarrow> (w, Inl e)
             | ((newRec, w), None) \<Rightarrow>
                 let item = item\<lparr>item_Version := rec_Version newRec\<rparr> in
                 (case marshal item of
                    None \<Rightarrow> (w, Inl MarshalFailed)
                  | Some encoded \<Rightarrow>
                      (case etcd_commit svc (item_Key item) (put_ExpectedEtcdRevision req)
                              (OpPut (etcdKey svc (item_Key item)) encoded) w of
                         (w, Inl e) \<Rightarrow> (w, Inl e)
                       | (w, Inr r) \<Rightarrow> (w, Inr \<lparr>putr_Item = item, putr_EtcdRevision = r\<rparr>))))))"

section \<open>GetMetadata, DeleteMetadata, ListMetadata\<close>

definition GetMetadata :: "Service \<Rightarrow> GetMetadataRequest option \<Rightarrow> World \<Rightarrow> svc_error + GetMetadataResponse" where
  "GetMetadata svc request w =
     (case request of
        None \<Rightarrow> Inl KeyRequired
      | Some req \<Rightarrow>
          if get_Key req = [] then Inl KeyRequired
          else
            (case Pool_BeginTx read_tx of
               Inl e \<Rightarrow> Inl (PgxError e)
             | Inr tx \<Rightarrow>
                 (case snd (Tx_Get (get_Key req) (stores w (readPool svc)) tx) of
                    None \<Rightarrow> Inl (NotFound (get_Key req))
                  | Some r \<Rightarrow> Inr \<lparr>getr_Item = recordToItem r\<rparr>)))"

definition delete_stage :: "DeleteMetadataRequest \<Rightarrow> Store \<Rightarrow> svc_error + Tx" where
  "delete_stage req s =
     (case Pool_BeginTx write_tx of
        Inl e \<Rightarrow> Inl (PgxError e)
      | Inr tx \<Rightarrow>
          let (tx, existing) = Tx_Get (del_Key req) s tx in
          (case existing of
             None \<Rightarrow> Inl (NotFound (del_Key req))
           | Some r \<Rightarrow>
               if sint (del_ExpectedVersion req) > 0 \<and> rec_Version r \<noteq> del_ExpectedVersion req
               then Inl (VersionMismatch (del_Key req))
               else (case Tx_Delete (del_Key req) tx of
                       Inl e \<Rightarrow> Inl (PgxError e)
                     | Inr tx \<Rightarrow> Inr tx)))"

text \<open>The captured variable \<open>deleted\<close> is set once the commit has succeeded.\<close>

definition delete_attempt :: "Service \<Rightarrow> DeleteMetadataRequest \<Rightarrow> bool \<times> World \<Rightarrow>
    (bool \<times> World) \<times> svc_error option" where
  "delete_attempt svc req = (\<lambda>(deleted, w).
     (case delete_stage req (stores w (writePool svc)) of
        Inl e \<Rightarrow> ((deleted, w), Some e)
      | Inr tx \<Rightarrow>
          (case Tx_Commit (stores w (writePool svc)) tx of
             (s, _, e) \<Rightarrow>
               let w = w\<lparr>stores := (stores w)(writePool svc := s)\<rparr> in
               (case e of
                  Some e \<Rightarrow> ((deleted, w), Some (PgxError e))
                | None \<Rightarrow> ((True, w), None)))))"

definition DeleteMetadata :: "Service \<Rightarrow> DeleteMetadataRequest option \<Rightarrow> World \<Rightarrow>
    World \<times> (svc_error + DeleteMetadataResponse)" where
  "DeleteMetadata svc request w =
     (case request of
        None \<Rightarrow> (w, Inl KeyRequired)
      | Some req \<Rightarrow>
          if del_Key req = [] then (w, Inl KeyRequired)
          else
            (case retry svc (delete_attempt svc req) (False, w) of
               ((_, w), Some e) \<Rightarrow> (w, Inl e)
             | ((deleted, w), None) \<Rightarrow>
                 if \<not> deleted then (w, Inl (DeleteLost (del_Key req)))
                 else
                   (case etcd_commit svc (del_Key req) (del_ExpectedEtcdRevision req)
                           (OpDelete (etcdKey svc (del_Key req))) w of
                      (w, Inl e) \<Rightarrow> (w, Inl e)
                    | (w, Inr r) \<Rightarrow> (w, Inr \<lparr>delr_EtcdRevision = r\<rparr>))))"

text \<open>\<open>ListMetadata\<close> reads a field of its request first; \<open>None\<close> is its panic on a nil pointer.\<close>

definition ListMetadata :: "Service \<Rightarrow> ListMetadataRequest option \<Rightarrow> World \<Rightarrow>
    (svc_error + ListMetadataResponse) option" where
  "ListMetadata svc request w =
     (case request of
        None \<Rightarrow> None
      | Some req \<Rightarrow> Some
     (let limit = (if sint (list_Limit req) \<le> 0 then 100 else sint (list_Limit req)) in
      (case Pool_BeginTx read_tx of
         Inl e \<Rightarrow> Inl (PgxError e)
       | Inr tx \<Rightarrow>
           let items = snd (Tx_List (list_Prefix req) (limit + 1) (stores w (readPool svc)) tx);
               startKey = list_PageToken req;
               items = (if startKey \<noteq> [] then filter (\<lambda>r. rec_Key r > startKey) items else items);
               nextToken = (if int (length items) > limit then rec_Key (items ! nat limit) else []);
               items = (if int (length items) > limit then take (nat limit) items else items)
           in Inr \<lparr>listr_Items = map recordToItem items, listr_NextPageToken = nextToken\<rparr>)))"

section \<open>The world and its invariant\<close>

text \<open>\<open>pg\<close> and \<open>kvs\<close> read a store and an etcd client of the world as maps.\<close>

definition pg :: "World \<Rightarrow> nat \<Rightarrow> string \<rightharpoonup> Record" where
  "pg w i = map_of (entries (stores w i))"

definition kvs :: "World \<Rightarrow> nat \<Rightarrow> string \<rightharpoonup> string" where
  "kvs w i = view (etcds w i)"

definition world_ok :: "World \<Rightarrow> bool" where
  "world_ok w \<longleftrightarrow> (\<forall>i. store_ok (stores w i)) \<and> (\<forall>i. client_ok (etcds w i))"

lemma cloneMap_id [simp]: "wf_map m \<Longrightarrow> cloneMap m = m"
  by (simp add: cloneMap_def)

lemma MetadataItem_Clone_id [simp]: "wf_map (item_Attributes i) \<Longrightarrow> MetadataItem_Clone i = i"
  by (cases i) (auto simp: MetadataItem_Clone_def)

lemma BeginTx_service [simp]:
  "Pool_BeginTx write_tx =
     Inr \<lparr>opts = write_tx, writes = [], deletes = [], readset = [], committed = False, rolled = False\<rparr>"
  "Pool_BeginTx read_tx =
     Inr \<lparr>opts = read_tx, writes = [], deletes = [], readset = [], committed = False, rolled = False\<rparr>"
  by (simp_all add: Pool_BeginTx_def)

section \<open>What the attempts do\<close>

text \<open>The version check, the record a put stores, and the transactions the two writes stage.\<close>

definition version_check :: "svc_error \<Rightarrow> svc_error \<Rightarrow> i64 \<Rightarrow> Record option \<Rightarrow> svc_error option" where
  "version_check absent mismatch expected old =
     (if sint expected \<le> 0 then None
      else case old of None \<Rightarrow> Some absent
                     | Some r \<Rightarrow> if rec_Version r = expected then None else Some mismatch)"

definition next_version :: "Record option \<Rightarrow> i64" where
  "next_version old = (case old of None \<Rightarrow> 1 | Some r \<Rightarrow> rec_Version r + 1)"

definition put_record :: "MetadataItem \<Rightarrow> Record option \<Rightarrow> Record" where
  "put_record item old =
     \<lparr>rec_Key = item_Key item, rec_Value = item_Value item, rec_Attributes = item_Attributes item,
      rec_Version = next_version old\<rparr>"

definition put_tx :: "MetadataItem \<Rightarrow> Store \<Rightarrow> Tx" where
  "put_tx item s =
     \<lparr>opts = write_tx, writes = [(item_Key item, put_record item (map_of (entries s) (item_Key item)))],
      deletes = [], readset = [(item_Key item, stored_version s (item_Key item))],
      committed = False, rolled = False\<rparr>"

definition delete_tx :: "string \<Rightarrow> Store \<Rightarrow> Tx" where
  "delete_tx k s = \<lparr>opts = write_tx, writes = [], deletes = [k],
     readset = [(k, stored_version s k)], committed = False, rolled = False\<rparr>"

lemma put_stage_eq:
  assumes "store_ok s" and "wf_map (item_Attributes item)"
  shows "put_stage item expected s =
    (case version_check (MissingKey (item_Key item)) (VersionMismatch (item_Key item)) expected
            (map_of (entries s) (item_Key item)) of
       Some e \<Rightarrow> Inl e
     | None \<Rightarrow> Inr (put_record item (map_of (entries s) (item_Key item)), put_tx item s))"
  using assms
  by (auto simp: put_stage_def version_check_def put_tx_def put_record_def next_version_def
      Tx_Get_def Tx_Put_def ensureWritable_def stored_version_def Let_def store_ok_def
      cloneRecord_def split: option.splits dest!: records_ok_lookup)

lemma delete_stage_eq:
  assumes "store_ok s"
  shows "delete_stage req s =
    (case map_of (entries s) (del_Key req) of
       None \<Rightarrow> Inl (NotFound (del_Key req))
     | Some r \<Rightarrow>
         (case version_check (NotFound (del_Key req)) (VersionMismatch (del_Key req))
                 (del_ExpectedVersion req) (Some r) of
            Some e \<Rightarrow> Inl e
          | None \<Rightarrow> Inr (delete_tx (del_Key req) s)))"
  using assms
  by (auto simp: delete_stage_def version_check_def delete_tx_def Tx_Get_def Tx_Delete_def
      ensureWritable_def stored_version_def Let_def store_ok_def
      split: option.splits dest!: records_ok_lookup)

text \<open>
  Committing a staged write on a store \<open>t\<close>, which may differ from the store \<open>s\<close> it was staged
  on: it goes through if the version of its key is the same in both.
\<close>

lemma put_commit:
  assumes "wf_map (item_Attributes item)"
  shows "Tx_Commit t (put_tx item s) =
    (if stored_version t (item_Key item) = stored_version s (item_Key item)
     then (t\<lparr>entries := AList.update (item_Key item)
              (put_record item (map_of (entries s) (item_Key item))) (entries t)\<rparr>,
           (put_tx item s)\<lparr>committed := True\<rparr>, None)
     else (t, (put_tx item s)\<lparr>rolled := True\<rparr>, Some ErrSerialization))"
  using assms by (simp add: Tx_Commit_reads reads_valid_def put_tx_def put_record_def)

lemma delete_commit:
  "Tx_Commit t (delete_tx k s) =
    (if stored_version t k = stored_version s k
     then (t\<lparr>entries := AList.delete k (entries t)\<rparr>, (delete_tx k s)\<lparr>committed := True\<rparr>, None)
     else (t, (delete_tx k s)\<lparr>rolled := True\<rparr>, Some ErrSerialization))"
  by (simp add: Tx_Commit_reads reads_valid_def delete_tx_def)

lemma store_ok_put:
  "store_ok s \<Longrightarrow> wf_map (item_Attributes item) \<Longrightarrow>
    store_ok (s\<lparr>entries := AList.update (item_Key item) (put_record item old) (entries s)\<rparr>)"
  using records_ok_update [of "entries s" "put_record item old"]
  by (simp add: store_ok_def put_record_def)

lemma store_ok_delete: "store_ok s \<Longrightarrow> store_ok (s\<lparr>entries := AList.delete k (entries s)\<rparr>)"
  by (simp add: store_ok_def records_ok_delete)

definition set_store :: "nat \<Rightarrow> (string, Record) gomap \<Rightarrow> World \<Rightarrow> World" where
  "set_store i m w = w\<lparr>stores := (stores w)(i := (stores w i)\<lparr>entries := m\<rparr>)\<rparr>"

lemma set_store_simps [simp]:
  "stores (set_store i m w) i = (stores w i)\<lparr>entries := m\<rparr>"
  "j \<noteq> i \<Longrightarrow> stores (set_store i m w) j = stores w j"
  "etcds (set_store i m w) = etcds w"
  by (simp_all add: set_store_def)

lemma put_attempt_eq:
  fixes svc :: Service
  assumes "world_ok w" and "wf_map (item_Attributes item)"
  defines "old \<equiv> pg w (writePool svc) (item_Key item)"
  shows "put_attempt svc item expected (nr, w) =
    (case version_check (MissingKey (item_Key item)) (VersionMismatch (item_Key item)) expected old of
       Some e \<Rightarrow> ((nr, w), Some e)
     | None \<Rightarrow> ((put_record item old, set_store (writePool svc)
         (AList.update (item_Key item) (put_record item old) (entries (stores w (writePool svc)))) w), None))"
  using assms
  by (simp add: put_attempt_def put_stage_eq world_ok_def pg_def put_commit set_store_def
      split: option.split)

lemma delete_attempt_eq:
  assumes "world_ok w"
  shows "delete_attempt svc req (d, w) =
    (case pg w (writePool svc) (del_Key req) of
       None \<Rightarrow> ((d, w), Some (NotFound (del_Key req)))
     | Some r \<Rightarrow>
         (case version_check (NotFound (del_Key req)) (VersionMismatch (del_Key req))
                 (del_ExpectedVersion req) (Some r) of
            Some e \<Rightarrow> ((d, w), Some e)
          | None \<Rightarrow> ((True, set_store (writePool svc)
              (AList.delete (del_Key req) (entries (stores w (writePool svc)))) w), None)))"
  using assms
  by (simp add: delete_attempt_def delete_stage_eq world_ok_def pg_def delete_commit set_store_def
      Let_def split: option.split)

text \<open>\<open>retry\<close> returns the first result that is not a serialization failure.\<close>

lemma retry_once:
  assumes "maxRetries svc > 0" and "snd (fn s) \<noteq> Some (PgxError ErrSerialization)"
  shows "retry svc fn s = fn s"
proof -
  obtain n where "nat (maxRetries svc) = Suc n"
    using assms(1) by (cases "nat (maxRetries svc)") auto
  with assms(2) show ?thesis
    by (auto simp: retry_def split: prod.split option.split)
qed

lemma version_check_errors:
  "version_check absent mismatch expected old = Some e \<Longrightarrow> e = absent \<or> e = mismatch"
  by (auto simp: version_check_def split: if_splits option.splits)

section \<open>The guarded etcd transaction\<close>

definition guard_holds :: "World \<Rightarrow> Service \<Rightarrow> string \<Rightarrow> i64 \<Rightarrow> bool" where
  "guard_holds w svc key expected \<longleftrightarrow>
     sint expected \<ge> 0 \<longrightarrow> mod_rev (etcds w (svc_etcd svc)) (etcdKey svc key) = expected"

lemma guarded_supported: "op_supported p \<Longrightarrow> txn_supported (guarded_txn svc key expected p)"
  by (auto simp: guarded_txn_def txn_supported_def cmp_supported_def txn_eval Let_def)

lemma guarded_ops:
  "txn_ops (etcds w (svc_etcd svc)) (guarded_txn svc key expected p) =
     (if guard_holds w svc key expected then [p] else [])"
  by (auto simp: guarded_txn_def txn_ops_def guard_holds_def cmp_holds_def txn_eval Let_def)

lemma guarded_compares:
  "(\<forall>k \<in> set (compares (guarded_txn svc key expected p)). cmp_holds (etcds w (svc_etcd svc)) k) =
     guard_holds w svc key expected"
  by (auto simp: guarded_txn_def guard_holds_def cmp_holds_def txn_eval Let_def)

lemma etcd_commit_ok:
  assumes "world_ok w" and "op_supported p"
  obtains w' where
    "etcd_commit svc key expected p w =
       (w', if guard_holds w svc key expected then Inr (revision (etcds w' (svc_etcd svc)))
            else Inl (EtcdConflict key))"
    and "world_ok w'" and "stores w' = stores w" and "\<And>i. i \<noteq> svc_etcd svc \<Longrightarrow> etcds w' i = etcds w i"
    and "kvs w' (svc_etcd svc) =
      (if guard_holds w svc key expected then op_effect p (kvs w (svc_etcd svc)) else kvs w (svc_etcd svc))"
    and "\<not> guard_holds w svc key expected \<Longrightarrow> w' = w"
proof -
  let ?c = "etcds w (svc_etcd svc)" and ?t = "guarded_txn svc key expected p"
  have ok: "client_ok ?c" using assms(1) by (simp add: world_ok_def)
  note sup = guarded_supported [OF assms(2), of svc key expected]
  obtain c' where c': "Txn_Commit ?t ?c = (c', Inr \<lparr>Succeeded = guard_holds w svc key expected, Revision = revision c'\<rparr>)"
    "view c' = fold op_effect (txn_ops ?c ?t) (view ?c)" "client_ok c'"
    by (rule Txn_Commit_ok [OF ok sup]) (simp only: guarded_compares)
  have same: "c' = ?c" if "\<not> guard_holds w svc key expected"
    using that c'(1) Txn_Commit_supported [OF sup, of ?c]
    by (simp add: guarded_ops)
  show ?thesis
  proof (rule that [of "w\<lparr>etcds := (etcds w)(svc_etcd svc := c')\<rparr>"])
    show "world_ok (w\<lparr>etcds := (etcds w)(svc_etcd svc := c')\<rparr>)"
      using assms(1) c'(3) by (simp add: world_ok_def)
  qed (auto simp: etcd_commit_def c' guarded_ops kvs_def same)
qed

section \<open>The handlers as a whole\<close>

lemma pg_set_store:
  "pg (set_store i m w) = (pg w)(i := map_of m)"
  by (auto simp: pg_def set_store_def fun_eq_iff)

lemma kvs_set_store [simp]: "kvs (set_store i m w) = kvs w"
  by (simp add: kvs_def fun_eq_iff)

lemma world_ok_set_store:
  "world_ok w \<Longrightarrow> store_ok ((stores w i)\<lparr>entries := m\<rparr>) \<Longrightarrow> world_ok (set_store i m w)"
  by (simp add: world_ok_def set_store_def)

lemma guard_set_store [simp]: "guard_holds (set_store i m w) = guard_holds w"
  by (simp add: guard_holds_def fun_eq_iff)

text \<open>
  The reference semantics of a put, over the store and the etcd client as maps: \<open>stored\<close> is the
  store after the transaction, and the etcd phase then takes place or not.
\<close>

definition put_result :: "(MetadataItem \<Rightarrow> string option) \<Rightarrow> Service \<Rightarrow> MetadataItem \<Rightarrow> i64 \<Rightarrow> i64 \<Rightarrow>
    World \<Rightarrow> World \<Rightarrow> svc_error + PutMetadataResponse \<Rightarrow> bool" where
  "put_result marshal svc item expected rv w w' res \<longleftrightarrow>
     (let k = item_Key item; old = pg w (writePool svc) k; item' = item\<lparr>item_Version := next_version old\<rparr>
      in case version_check (MissingKey k) (VersionMismatch k) expected old of
           Some e \<Rightarrow> w' = w \<and> res = Inl e
         | None \<Rightarrow>
             pg w' = (pg w)(writePool svc := (pg w (writePool svc))(k \<mapsto> put_record item old)) \<and>
             (case marshal item' of
                None \<Rightarrow> etcds w' = etcds w \<and> res = Inl MarshalFailed
              | Some encoded \<Rightarrow>
                  (\<forall>i. i \<noteq> svc_etcd svc \<longrightarrow> etcds w' i = etcds w i) \<and>
                  (if guard_holds w svc k rv
                   then kvs w' (svc_etcd svc) = (kvs w (svc_etcd svc))(etcdKey svc k \<mapsto> encoded) \<and>
                     res = Inr \<lparr>putr_Item = item', putr_EtcdRevision = revision (etcds w' (svc_etcd svc))\<rparr>
                   else etcds w' = etcds w \<and> res = Inl (EtcdConflict k))))"

lemma op_supported_PutDelete [simp]: "op_supported (OpPut k v)" "op_supported (OpDelete k)"
  by (simp_all add: op_supported_def OpPut_def OpDelete_def)

lemma op_effect_PutDelete [simp]:
  "op_effect (OpPut k v) m = m(k \<mapsto> v)" "op_effect (OpDelete k) m = m(k := None)"
  by (simp_all add: op_effect_def OpPut_def OpDelete_def)

lemma PutMetadata_result:
  assumes "world_ok w" and "maxRetries svc > 0" and "put_Item req = Some item"
    and "item_Key item \<noteq> []" and "wf_map (item_Attributes item)"
  obtains w' res where "PutMetadata marshal svc (Some req) w = (w', res)" and "world_ok w'"
    and "put_result marshal svc item (put_ExpectedVersion req) (put_ExpectedEtcdRevision req) w w' res"
proof -
  let ?k = "item_Key item" and ?old = "pg w (writePool svc) (item_Key item)"
  let ?nr = "\<lparr>rec_Key = [], rec_Value = [], rec_Attributes = [], rec_Version = 0\<rparr> :: Record"
  let ?check = "version_check (MissingKey ?k) (VersionMismatch ?k) (put_ExpectedVersion req) ?old"
  note attempt = put_attempt_eq [OF assms(1,5), of svc "put_ExpectedVersion req" ?nr]
  have "snd (put_attempt svc item (put_ExpectedVersion req) (?nr, w)) \<noteq> Some (PgxError ErrSerialization)"
    unfolding attempt by (auto split: option.split dest: version_check_errors)
  note retried = retry_once [where fn = "put_attempt svc item (put_ExpectedVersion req)"
      and s = "(?nr, w)", OF assms(2) this, unfolded attempt]
  show ?thesis
  proof (cases ?check)
    case (Some e)
    then show ?thesis using assms
      by (intro that [of w "Inl e"])
        (simp_all add: PutMetadata_def retried put_result_def Let_def)
  next
    case None
    let ?w = "set_store (writePool svc) (AList.update ?k (put_record item ?old)
        (entries (stores w (writePool svc)))) w"
    let ?item = "item\<lparr>item_Version := next_version ?old\<rparr>"
    have ok: "world_ok ?w"
      using assms(1,5) by (intro world_ok_set_store store_ok_put) (simp_all add: world_ok_def)
    have pg: "pg ?w = (pg w)(writePool svc := (pg w (writePool svc))(?k \<mapsto> put_record item ?old))"
      by (simp add: pg_set_store pg_def)
    have version: "rec_Version (put_record item ?old) = next_version ?old"
      by (simp add: put_record_def)
    show ?thesis
    proof (cases "marshal ?item")
      case marshal: None
      with None assms ok pg version show ?thesis
        by (intro that [of ?w "Inl MarshalFailed"])
          (simp_all add: PutMetadata_def retried put_result_def Let_def)
    next
      case (Some encoded)
      obtain w' where w': "etcd_commit svc ?k (put_ExpectedEtcdRevision req)
            (OpPut (etcdKey svc ?k) encoded) ?w =
          (w', if guard_holds w svc ?k (put_ExpectedEtcdRevision req)
            then Inr (revision (etcds w' (svc_etcd svc))) else Inl (EtcdConflict ?k))"
        "world_ok w'" "stores w' = stores ?w" "\<And>i. i \<noteq> svc_etcd svc \<Longrightarrow> etcds w' i = etcds w i"
        "kvs w' (svc_etcd svc) = (if guard_holds w svc ?k (put_ExpectedEtcdRevision req)
          then (kvs w (svc_etcd svc))(etcdKey svc ?k \<mapsto> encoded) else kvs w (svc_etcd svc))"
        "\<not> guard_holds w svc ?k (put_ExpectedEtcdRevision req) \<Longrightarrow> w' = ?w"
        by (rule etcd_commit_ok [OF ok op_supported_PutDelete(1), of svc ?k
              "put_ExpectedEtcdRevision req" "etcdKey svc ?k" encoded]) auto
      have "pg w' = pg ?w" using w'(3) by (simp add: pg_def fun_eq_iff)
      with None Some assms pg version w' show ?thesis
        by (intro that [of w' "if guard_holds w svc ?k (put_ExpectedEtcdRevision req)
              then Inr \<lparr>putr_Item = ?item, putr_EtcdRevision = revision (etcds w' (svc_etcd svc))\<rparr>
              else Inl (EtcdConflict ?k)"])
          (simp_all add: PutMetadata_def retried put_result_def Let_def)
    qed
  qed
qed

definition delete_result :: "Service \<Rightarrow> DeleteMetadataRequest \<Rightarrow> World \<Rightarrow> World \<Rightarrow>
    svc_error + DeleteMetadataResponse \<Rightarrow> bool" where
  "delete_result svc req w w' res \<longleftrightarrow>
     (let k = del_Key req; rv = del_ExpectedEtcdRevision req; old = pg w (writePool svc) k
      in if old = None then w' = w \<and> res = Inl (NotFound k)
         else case version_check (NotFound k) (VersionMismatch k) (del_ExpectedVersion req) old of
           Some e \<Rightarrow> w' = w \<and> res = Inl e
         | None \<Rightarrow>
             pg w' = (pg w)(writePool svc := (pg w (writePool svc))(k := None)) \<and>
             (\<forall>i. i \<noteq> svc_etcd svc \<longrightarrow> etcds w' i = etcds w i) \<and>
             (if guard_holds w svc k rv
              then kvs w' (svc_etcd svc) = (kvs w (svc_etcd svc))(etcdKey svc k := None) \<and>
                res = Inr \<lparr>delr_EtcdRevision = revision (etcds w' (svc_etcd svc))\<rparr>
              else etcds w' = etcds w \<and> res = Inl (EtcdConflict k)))"

lemma DeleteMetadata_result:
  assumes "world_ok w" and "maxRetries svc > 0" and "del_Key req \<noteq> []"
  obtains w' res where "DeleteMetadata svc (Some req) w = (w', res)" and "world_ok w'"
    and "delete_result svc req w w' res"
proof -
  let ?k = "del_Key req" and ?rv = "del_ExpectedEtcdRevision req"
  let ?old = "pg w (writePool svc) ?k"
  note attempt = delete_attempt_eq [OF assms(1), of svc req False]
  have "snd (delete_attempt svc req (False, w)) \<noteq> Some (PgxError ErrSerialization)"
    unfolding attempt by (auto split: option.split dest: version_check_errors)
  note retried = retry_once [where fn = "delete_attempt svc req" and s = "(False, w)",
      OF assms(2) this, unfolded attempt]
  show ?thesis
  proof (cases "\<exists>r. ?old = Some r \<and>
      version_check (NotFound ?k) (VersionMismatch ?k) (del_ExpectedVersion req) (Some r) = None")
    case False
    then show ?thesis using assms
      by (intro that [of w "snd (DeleteMetadata svc (Some req) w)"])
        (auto simp: DeleteMetadata_def retried delete_result_def Let_def split: option.split)
  next
    case True
    let ?w = "set_store (writePool svc) (AList.delete ?k (entries (stores w (writePool svc)))) w"
    have ok: "world_ok ?w"
      using assms(1) by (intro world_ok_set_store store_ok_delete) (simp_all add: world_ok_def)
    have pg: "pg ?w = (pg w)(writePool svc := (pg w (writePool svc))(?k := None))"
      by (simp add: pg_set_store pg_def)
    obtain w' where w': "etcd_commit svc ?k ?rv (OpDelete (etcdKey svc ?k)) ?w =
        (w', if guard_holds w svc ?k ?rv
          then Inr (revision (etcds w' (svc_etcd svc))) else Inl (EtcdConflict ?k))"
      "world_ok w'" "stores w' = stores ?w" "\<And>i. i \<noteq> svc_etcd svc \<Longrightarrow> etcds w' i = etcds w i"
      "kvs w' (svc_etcd svc) = (if guard_holds w svc ?k ?rv
        then (kvs w (svc_etcd svc))(etcdKey svc ?k := None) else kvs w (svc_etcd svc))"
      "\<not> guard_holds w svc ?k ?rv \<Longrightarrow> w' = ?w"
      by (rule etcd_commit_ok [OF ok op_supported_PutDelete(2), of svc ?k ?rv "etcdKey svc ?k"]) auto
    have "pg w' = pg ?w" using w'(3) by (simp add: pg_def fun_eq_iff)
    with True assms pg w' show ?thesis
      by (intro that [of w' "if guard_holds w svc ?k ?rv
            then Inr \<lparr>delr_EtcdRevision = revision (etcds w' (svc_etcd svc))\<rparr>
            else Inl (EtcdConflict ?k)"])
        (auto simp: DeleteMetadata_def retried delete_result_def Let_def)
  qed
qed

lemma GetMetadata_value:
  assumes "world_ok w" and "get_Key req \<noteq> []"
  shows "GetMetadata svc (Some req) w =
    (case pg w (readPool svc) (get_Key req) of
       None \<Rightarrow> Inl (NotFound (get_Key req))
     | Some r \<Rightarrow> Inr \<lparr>getr_Item = recordToItem r\<rparr>)"
proof -
  have "store_ok (stores w (readPool svc))" using assms(1) by (simp add: world_ok_def)
  then show ?thesis
    using assms(2)
    by (auto simp: GetMetadata_def Tx_Get_def pg_def store_ok_def split: option.split
        dest!: records_ok_lookup)
qed

lemma ListMetadata_returns [simp]:
  "ListMetadata svc (Some req) w \<noteq> None" "ListMetadata svc None w = None"
  by (simp_all add: ListMetadata_def)

text \<open>A page is a window of the first \<open>limit + 1\<close> records under the prefix.\<close>

lemma ListMetadata_value:
  assumes "world_ok w"
  defines "limit \<equiv> \<lambda>req. if sint (list_Limit req) \<le> 0 then 100 else nat (sint (list_Limit req))"
  shows "ListMetadata svc (Some req) w = Some
    (let page = filter (\<lambda>r. list_PageToken req = [] \<or> rec_Key r > list_PageToken req)
           (take (Suc (limit req)) (matching (list_Prefix req) (stores w (readPool svc))))
     in Inr \<lparr>listr_Items = map recordToItem (take (limit req) page),
            listr_NextPageToken = (if length page > limit req then rec_Key (page ! limit req) else [])\<rparr>)"
proof -
  have ok: "store_ok (stores w (readPool svc))" using assms(1) by (simp add: world_ok_def)
  have "nat (int m + 1) = Suc m" for m by simp
  then show ?thesis
    unfolding ListMetadata_def limit_def
    by (auto simp: Tx_List_value [OF ok] Let_def nat_add_distrib)
qed

lemma retry_loop_attempts:
  assumes "n > 0"
  defines "attempt \<equiv> \<lambda>fn s i. fn (((\<lambda>s. fst (fn s)) ^^ i) s)"
  shows "\<exists>i < n. retry_loop n exceeded fn lastErr s = attempt fn s i \<and>
    (\<forall>j < i. snd (attempt fn s j) = Some (PgxError ErrSerialization)) \<and>
    (snd (attempt fn s i) = Some (PgxError ErrSerialization) \<longrightarrow> Suc i = n)"
  using assms(1) unfolding attempt_def
proof (induction n arbitrary: s lastErr)
  case 0
  then show ?case by simp
next
  case (Suc n)
  obtain s' e where fn: "fn s = (s', e)" by (cases "fn s")
  show ?case
  proof (cases "e = Some (PgxError ErrSerialization) \<and> n > 0")
    case False
    with fn show ?thesis
      by (intro exI [of _ 0]) (cases n, auto split: option.split)
  next
    case True
    with Suc.IH [where s = s' and lastErr = e] obtain i where i: "i < n"
      "retry_loop n exceeded fn e s' = fn (((\<lambda>s. fst (fn s)) ^^ i) s')"
      "\<forall>j < i. snd (fn (((\<lambda>s. fst (fn s)) ^^ j) s')) = Some (PgxError ErrSerialization)"
      "snd (fn (((\<lambda>s. fst (fn s)) ^^ i) s')) = Some (PgxError ErrSerialization) \<longrightarrow> Suc i = n"
      using True by blast
    have shift: "((\<lambda>s. fst (fn s)) ^^ Suc j) s = ((\<lambda>s. fst (fn s)) ^^ j) s'" for j
      using fn by (simp add: funpow_Suc_right del: funpow.simps)
    have "snd (fn (((\<lambda>s. fst (fn s)) ^^ j) s)) = Some (PgxError ErrSerialization)" if "j < Suc i" for j
      using that True fn i(3) by (cases j) (simp_all add: shift del: funpow.simps(2))
    with True i fn show ?thesis
      by (intro exI [of _ "Suc i"]) (simp add: shift del: funpow.simps(2))
  qed
qed

section \<open>Properties\<close>

text \<open>
  C7: The full behaviour of \<open>PutMetadata\<close>, every early return included. A request without item
  or key is rejected; a failed version check changes nothing; otherwise the record is stored
  with the next version, and then etcd takes the encoded item if its guard holds.
\<close>

theorem PutMetadata_spec:
  assumes "world_ok w" and "NewService cfg = Inr svc"
    and "\<forall>item. Option.bind request put_Item = Some item \<longrightarrow> wf_map (item_Attributes item)"
  shows "case PutMetadata marshal svc request w of (w', res) \<Rightarrow>
    world_ok w' \<and>
    (case Option.bind request put_Item of
       None \<Rightarrow> w' = w \<and> res = Inl ItemRequired
     | Some item \<Rightarrow>
         if item_Key item = [] then w' = w \<and> res = Inl KeyRequired
         else put_result marshal svc item (put_ExpectedVersion (the request))
           (put_ExpectedEtcdRevision (the request)) w w' res)"
proof (cases "\<exists>req item. request = Some req \<and> put_Item req = Some item \<and> item_Key item \<noteq> []")
  case True
  then obtain req item where req: "request = Some req" "put_Item req = Some item" "item_Key item \<noteq> []"
    by blast
  have max: "maxRetries svc > 0"
    using assms(2) by (auto simp: NewService_def Let_def split: option.splits)
  have wf: "wf_map (item_Attributes item)" using assms(3) req by simp
  obtain w' res where "PutMetadata marshal svc (Some req) w = (w', res)" "world_ok w'"
    "put_result marshal svc item (put_ExpectedVersion req) (put_ExpectedEtcdRevision req) w w' res"
    by (rule PutMetadata_result [OF assms(1) max req(2,3) wf])
  with req show ?thesis by simp
next
  case False
  with assms(1,3) show ?thesis
    by (auto simp: PutMetadata_def Let_def split: option.split)
qed

definition empty_world :: World where
  "empty_world = \<lparr>stores = (\<lambda>_. NewStore), etcds = (\<lambda>_. etcd_New)\<rparr>"

definition sample_cfg :: ServiceConfig where
  "sample_cfg = \<lparr>cfg_WritePool = Some 0, cfg_ReadPool = None, cfg_Etcd = Some 0,
     cfg_KeyPrefix = [], cfg_MaxRetries = 0\<rparr>"

definition sample_svc :: Service where
  "sample_svc = \<lparr>writePool = 0, readPool = 0, svc_etcd = 0, maxRetries = 5, keyPrefix = ''metadata/''\<rparr>"

definition sample_item :: "string \<Rightarrow> string \<Rightarrow> MetadataItem" where
  "sample_item k v = \<lparr>item_Key = k, item_Value = v, item_Attributes = [], item_Version = 0\<rparr>"

definition sample_put :: "string \<Rightarrow> string \<Rightarrow> i64 \<Rightarrow> i64 \<Rightarrow> PutMetadataRequest" where
  "sample_put k v expected rv = \<lparr>put_Item = Some (sample_item k v), put_ExpectedVersion = expected,
     put_ExpectedEtcdRevision = rv\<rparr>"

definition sample_marshal :: "MetadataItem \<Rightarrow> string option" where
  "sample_marshal i = Some (item_Value i)"

lemma sample_service: "NewService sample_cfg = Inr sample_svc"
  by (simp add: NewService_def sample_cfg_def sample_svc_def)

lemma empty_world_ok: "world_ok empty_world"
  by (simp add: world_ok_def empty_world_def NewStore_def store_ok_def client_ok_New)

lemma empty_world_maps [simp]: "pg empty_world i k = None" "kvs empty_world i k = None"
  by (simp_all add: pg_def kvs_def view_def empty_world_def NewStore_def etcd_New_def)

lemma sample_wf [simp]: "wf_map (item_Attributes (sample_item k v))"
  by (simp add: sample_item_def)

lemmas svc_eval = PutMetadata_def DeleteMetadata_def retry_def numeral_nat put_attempt_def put_stage_def
  delete_attempt_def delete_stage_def etcd_commit_def guarded_txn_def etcdKey_def cloneMap_def
  MetadataItem_Clone_def copy_map_def Tx_Get_def Tx_Put_def Tx_Delete_def ensureWritable_def
  Tx_Commit_def cloneRecord_def etcd_eval

lemmas sample_eval = sample_svc_def sample_put_def sample_item_def sample_marshal_def
  empty_world_def NewStore_def

lemma PutMetadata_spec_witness:
  "case PutMetadata sample_marshal sample_svc (Some (sample_put ''k'' ''v'' 0 (- 1))) empty_world of
     (w', res) \<Rightarrow> pg w' 0 ''k'' = Some (put_record (sample_item ''k'' ''v'') None) \<and>
       kvs w' 0 ''metadata/k'' = Some ''v''"
proof -
  have "\<forall>item. Option.bind (Some (sample_put ''k'' ''v'' 0 (- 1))) put_Item = Some item \<longrightarrow>
      wf_map (item_Attributes item)"
    by (simp add: sample_put_def)
  from PutMetadata_spec [where marshal = sample_marshal, OF empty_world_ok sample_service this]
  show ?thesis
    by (auto simp: put_result_def sample_svc_def sample_put_def sample_item_def sample_marshal_def
        version_check_def guard_holds_def etcdKey_def Let_def split: prod.splits)
qed

text \<open>
  C28: A put is read back: after it succeeds, \<open>GetMetadata\<close> of its key returns the item the put
  answered with, whose version is one more than the stored one (or 1), and a get of any other key
  is as before. It is stated for a service that reads the store it writes.
\<close>

theorem Get_after_Put:
  assumes "world_ok w" and "maxRetries svc > 0" and "readPool svc = writePool svc"
    and "put_Item req = Some item" and "wf_map (item_Attributes item)"
    and "PutMetadata marshal svc (Some req) w = (w', Inr resp)"
  shows "putr_Item resp = item\<lparr>item_Version := next_version (pg w (writePool svc) (item_Key item))\<rparr> \<and>
    GetMetadata svc (Some \<lparr>get_Key = item_Key item\<rparr>) w' = Inr \<lparr>getr_Item = putr_Item resp\<rparr> \<and>
    (\<forall>k. k \<noteq> item_Key item \<longrightarrow>
       GetMetadata svc (Some \<lparr>get_Key = k\<rparr>) w' = GetMetadata svc (Some \<lparr>get_Key = k\<rparr>) w)"
proof -
  have key: "item_Key item \<noteq> []"
    using assms(4-6) by (auto simp: PutMetadata_def Let_def)
  obtain ok: "world_ok w'" and res: "put_result marshal svc item (put_ExpectedVersion req)
      (put_ExpectedEtcdRevision req) w w' (Inr resp)"
    using PutMetadata_result [where marshal = marshal, OF assms(1,2,4) key assms(5)] assms(6)
    by (metis prod.inject)
  have "GetMetadata svc (Some \<lparr>get_Key = k\<rparr>) w' = GetMetadata svc (Some \<lparr>get_Key = k\<rparr>) w"
    if "k \<noteq> item_Key item" for k
  proof (cases "k = []")
    case True
    then show ?thesis by (simp add: GetMetadata_def)
  next
    case False
    with that res show ?thesis
      by (auto simp: GetMetadata_value [OF assms(1)] GetMetadata_value [OF ok] put_result_def Let_def
          split: option.splits if_splits)
  qed
  moreover have "recordToItem (put_record item old) = item\<lparr>item_Version := next_version old\<rparr>" for old
    using assms(5) by (cases item) (simp add: recordToItem_def put_record_def)
  ultimately show ?thesis
    using res key assms(3)
    by (auto simp: GetMetadata_value [OF ok] put_result_def Let_def split: option.splits if_splits)
qed

definition put_world :: World where
  "put_world = fst (PutMetadata sample_marshal sample_svc (Some (sample_put ''k'' ''v'' 0 (- 1))) empty_world)"

lemma PutMetadata_put_world:
  "PutMetadata sample_marshal sample_svc (Some (sample_put ''k'' ''v'' 0 (- 1))) empty_world =
     (put_world, Inr \<lparr>putr_Item = (sample_item ''k'' ''v'')\<lparr>item_Version := 1\<rparr>, putr_EtcdRevision = 1\<rparr>)"
  unfolding put_world_def
  by (simp add: svc_eval sample_eval)

lemma Get_after_Put_witness:
  "GetMetadata sample_svc (Some \<lparr>get_Key = ''k''\<rparr>) put_world =
     Inr \<lparr>getr_Item = (sample_item ''k'' ''v'')\<lparr>item_Version := 1\<rparr>\<rparr>"
  using Get_after_Put [OF empty_world_ok _ _ _ _ PutMetadata_put_world, of "sample_item ''k'' ''v''"]
  by (simp add: sample_svc_def sample_put_def sample_item_def)

text \<open>
  C29: The full behaviour of \<open>DeleteMetadata\<close>: an absent key or another version changes nothing;
  otherwise the record goes, a get of the key then fails, and etcd drops the key if its guard
  holds. The branch \<open>delete lost\<close> is never taken.
\<close>

theorem DeleteMetadata_spec:
  assumes "world_ok w" and "maxRetries svc > 0"
  shows "case DeleteMetadata svc request w of (w', res) \<Rightarrow>
    world_ok w' \<and>
    (case request of
       None \<Rightarrow> w' = w \<and> res = Inl KeyRequired
     | Some req \<Rightarrow>
         if del_Key req = [] then w' = w \<and> res = Inl KeyRequired
         else delete_result svc req w w' res \<and> (\<forall>k. res \<noteq> Inl (DeleteLost k)) \<and>
           (\<forall>r. res = Inr r \<and> readPool svc = writePool svc \<longrightarrow>
             GetMetadata svc (Some \<lparr>get_Key = del_Key req\<rparr>) w' = Inl (NotFound (del_Key req))))"
proof (cases "\<exists>req. request = Some req \<and> del_Key req \<noteq> []")
  case True
  then obtain req where req: "request = Some req" "del_Key req \<noteq> []" by blast
  obtain w' res where w': "DeleteMetadata svc (Some req) w = (w', res)" "world_ok w'"
    "delete_result svc req w w' res"
    by (rule DeleteMetadata_result [OF assms req(2)])
  have "res \<noteq> Inl (DeleteLost k)" for k
    using w'(3) by (auto simp: delete_result_def Let_def version_check_def
        split: if_splits option.splits)
  moreover have "GetMetadata svc (Some \<lparr>get_Key = del_Key req\<rparr>) w' = Inl (NotFound (del_Key req))"
    if "res = Inr r" and "readPool svc = writePool svc" for r
    using w'(3) that req(2) by (auto simp: GetMetadata_value [OF w'(2)] delete_result_def Let_def
        split: if_splits option.splits)
  ultimately show ?thesis using req w' by auto
next
  case False
  with assms(1) show ?thesis by (auto simp: DeleteMetadata_def split: option.split)
qed

definition sample_delete :: "string \<Rightarrow> i64 \<Rightarrow> i64 \<Rightarrow> DeleteMetadataRequest" where
  "sample_delete k expected rv = \<lparr>del_Key = k, del_ExpectedVersion = expected, del_ExpectedEtcdRevision = rv\<rparr>"

lemma put_world_ok: "world_ok put_world"
  using PutMetadata_result [where marshal = sample_marshal, OF empty_world_ok, of sample_svc
      "sample_put ''k'' ''v'' 0 (- 1)" "sample_item ''k'' ''v''"] PutMetadata_put_world
  by (auto simp: sample_svc_def sample_put_def sample_item_def)

lemma DeleteMetadata_spec_witness:
  "case DeleteMetadata sample_svc (Some (sample_delete ''k'' 1 1)) put_world of (w', res) \<Rightarrow>
     world_ok w' \<and> GetMetadata sample_svc (Some \<lparr>get_Key = ''k''\<rparr>) w' = Inl (NotFound ''k'')"
proof -
  obtain w' r where "DeleteMetadata sample_svc (Some (sample_delete ''k'' 1 1)) put_world = (w', Inr r)"
    unfolding put_world_def by (simp add: svc_eval sample_eval sample_delete_def)
  with DeleteMetadata_spec [OF put_world_ok, of sample_svc "Some (sample_delete ''k'' 1 1)"]
  show ?thesis by (simp add: sample_svc_def sample_delete_def)
qed

text \<open>
  An etcd conflict does not undo the write. When \<open>PutMetadata\<close> answers with an etcd conflict,
  the record has already been replaced and its version advanced, while etcd still holds the
  former value; sending the same request again, with the version it expects, cannot succeed.
\<close>

theorem Put_conflict_already_applied:
  assumes "world_ok w" and "maxRetries svc > 0" and "put_Item req = Some item"
    and "wf_map (item_Attributes item)" and "sint (put_ExpectedVersion req) > 0"
    and "PutMetadata marshal svc (Some req) w = (w', Inl (EtcdConflict k))"
  shows "pg w' (writePool svc) k = Some (put_record item (pg w (writePool svc) k)) \<and>
    kvs w' = kvs w \<and>
    PutMetadata marshal svc (Some req) w' = (w', Inl (VersionMismatch k))"
proof -
  have key: "item_Key item \<noteq> []"
    using assms(3,4,6) by (auto simp: PutMetadata_def Let_def)
  obtain ok: "world_ok w'" and res: "put_result marshal svc item (put_ExpectedVersion req)
      (put_ExpectedEtcdRevision req) w w' (Inl (EtcdConflict k))"
    using PutMetadata_result [where marshal = marshal, OF assms(1,2,3) key assms(4)] assms(6)
    by (metis prod.inject)
  then have k: "k = item_Key item" and etcds: "etcds w' = etcds w"
    and check: "version_check (MissingKey k) (VersionMismatch k) (put_ExpectedVersion req)
      (pg w (writePool svc) k) = None"
    and pg': "pg w' (writePool svc) k = Some (put_record item (pg w (writePool svc) k))"
    by (auto simp: put_result_def Let_def version_check_def split: option.splits if_splits)
  obtain r where r: "pg w (writePool svc) k = Some r" "rec_Version r = put_ExpectedVersion req"
    using check assms(5) by (auto simp: version_check_def split: option.splits if_splits)
  have "version_check (MissingKey k) (VersionMismatch k) (put_ExpectedVersion req)
      (pg w' (writePool svc) k) = Some (VersionMismatch k)"
    using assms(5) r by (simp add: version_check_def pg' put_record_def next_version_def)
  moreover obtain w'' res'' where again: "PutMetadata marshal svc (Some req) w' = (w'', res'')"
    and "put_result marshal svc item (put_ExpectedVersion req) (put_ExpectedEtcdRevision req) w' w'' res''"
    by (rule PutMetadata_result [OF ok assms(2,3) key assms(4)])
  ultimately have "PutMetadata marshal svc (Some req) w' = (w', Inl (VersionMismatch k))"
    by (simp add: put_result_def k)
  then show ?thesis using pg' etcds by (simp add: kvs_def fun_eq_iff)
qed

lemma Put_conflict_already_applied_witness:
  "\<exists>w'. PutMetadata sample_marshal sample_svc (Some (sample_put ''k'' ''w'' 1 7)) put_world =
      (w', Inl (EtcdConflict ''k'')) \<and>
    rec_Value (the (pg w' 0 ''k'')) = ''w'' \<and> kvs w' 0 ''metadata/k'' = Some ''v''"
proof -
  have w: "pg put_world 0 ''k'' = Some (put_record (sample_item ''k'' ''v'') None)"
    "kvs put_world 0 ''metadata/k'' = Some ''v''" "mod_rev (etcds put_world 0) ''metadata/k'' = 1"
    unfolding put_world_def by (simp_all add: svc_eval sample_eval pg_def kvs_def view_def
        mod_rev_def put_record_def next_version_def)
  have item: "put_Item (sample_put ''k'' ''w'' 1 7) = Some (sample_item ''k'' ''w'')"
    and key: "item_Key (sample_item ''k'' ''w'') \<noteq> []" and max: "maxRetries sample_svc > 0"
    by (simp_all add: sample_put_def sample_item_def sample_svc_def)
  obtain w' res where "PutMetadata sample_marshal sample_svc (Some (sample_put ''k'' ''w'' 1 7)) put_world =
      (w', res)" and "put_result sample_marshal sample_svc (sample_item ''k'' ''w'')
        (put_ExpectedVersion (sample_put ''k'' ''w'' 1 7))
        (put_ExpectedEtcdRevision (sample_put ''k'' ''w'' 1 7)) put_world w' res"
    by (rule PutMetadata_result [OF put_world_ok max item key sample_wf])
  with w have put: "PutMetadata sample_marshal sample_svc (Some (sample_put ''k'' ''w'' 1 7)) put_world =
      (w', Inl (EtcdConflict ''k''))"
    by (simp add: put_result_def sample_put_def sample_item_def sample_svc_def sample_marshal_def
        version_check_def put_record_def next_version_def guard_holds_def etcdKey_def Let_def)
  have "pg w' 0 ''k'' = Some (put_record (sample_item ''k'' ''w'') (pg put_world 0 ''k'')) \<and>
      kvs w' = kvs put_world"
    using Put_conflict_already_applied [OF put_world_ok max item sample_wf _ put]
    by (simp add: sample_svc_def sample_put_def)
  with put w show ?thesis by (simp add: put_record_def sample_item_def)
qed

datatype svc_request = Put_req "PutMetadataRequest option" | Delete_req "DeleteMetadataRequest option"

definition serve :: "(MetadataItem \<Rightarrow> string option) \<Rightarrow> Service \<Rightarrow> svc_request \<Rightarrow> World \<Rightarrow> World" where
  "serve marshal svc q w =
     (case q of
        Put_req request \<Rightarrow> fst (PutMetadata marshal svc request w)
      | Delete_req request \<Rightarrow> fst (DeleteMetadata svc request w))"

definition unconditional :: "svc_request \<Rightarrow> bool" where
  "unconditional q =
     (case q of
        Put_req (Some req) \<Rightarrow> sint (put_ExpectedEtcdRevision req) < 0 \<and>
          (case put_Item req of Some item \<Rightarrow> wf_map (item_Attributes item) | None \<Rightarrow> True)
      | Delete_req (Some req) \<Rightarrow> sint (del_ExpectedEtcdRevision req) < 0
      | _ \<Rightarrow> True)"

definition agree :: "(MetadataItem \<Rightarrow> string) \<Rightarrow> Service \<Rightarrow> World \<Rightarrow> bool" where
  "agree enc svc w \<longleftrightarrow> world_ok w \<and>
     (\<forall>k. k \<noteq> [] \<longrightarrow> kvs w (svc_etcd svc) (etcdKey svc k) =
        map_option (\<lambda>r. enc (recordToItem r)) (pg w (writePool svc) k))"

lemma etcdKey_inj [simp]: "etcdKey svc k = etcdKey svc k' \<longleftrightarrow> k = k'"
  by (simp add: etcdKey_def)

lemma recordToItem_put_record:
  "wf_map (item_Attributes item) \<Longrightarrow>
    recordToItem (put_record item old) = item\<lparr>item_Version := next_version old\<rparr>"
  by (cases item) (simp add: recordToItem_def put_record_def)

lemma agree_serve:
  assumes "agree enc svc w" and "maxRetries svc > 0" and "unconditional q"
  shows "agree enc svc (serve (\<lambda>i. Some (enc i)) svc q w)"
proof (cases q)
  case (Put_req request)
  have w: "world_ok w" using assms(1) by (simp add: agree_def)
  show ?thesis
  proof (cases "\<exists>req item. request = Some req \<and> put_Item req = Some item \<and> item_Key item \<noteq> []")
    case True
    then obtain req item where req: "request = Some req" "put_Item req = Some item" "item_Key item \<noteq> []"
      by blast
    with assms(3) Put_req have wf: "wf_map (item_Attributes item)"
      and "guard_holds w svc k (put_ExpectedEtcdRevision req)" for k
      by (simp_all add: unconditional_def guard_holds_def)
    obtain w' res where "PutMetadata (\<lambda>i. Some (enc i)) svc (Some req) w = (w', res)" "world_ok w'"
      "put_result (\<lambda>i. Some (enc i)) svc item (put_ExpectedVersion req) (put_ExpectedEtcdRevision req) w w' res"
      by (rule PutMetadata_result [OF w assms(2) req(2,3) wf])
    with assms(1) Put_req req wf \<open>guard_holds w svc _ _\<close> show ?thesis
      by (auto simp: serve_def agree_def put_result_def Let_def recordToItem_put_record split: option.splits)
  next
    case False
    with assms(1,3) Put_req show ?thesis
      by (auto simp: serve_def PutMetadata_def Let_def unconditional_def split: option.splits)
  qed
next
  case (Delete_req request)
  have w: "world_ok w" using assms(1) by (simp add: agree_def)
  show ?thesis
  proof (cases "\<exists>req. request = Some req \<and> del_Key req \<noteq> []")
    case True
    then obtain req where req: "request = Some req" "del_Key req \<noteq> []" by blast
    with assms(3) Delete_req have "guard_holds w svc k (del_ExpectedEtcdRevision req)" for k
      by (simp add: unconditional_def guard_holds_def)
    moreover obtain w' res where "DeleteMetadata svc (Some req) w = (w', res)" "world_ok w'"
      "delete_result svc req w w' res"
      by (rule DeleteMetadata_result [OF w assms(2) req(2)])
    ultimately show ?thesis using assms(1) Delete_req req
      by (auto simp: serve_def agree_def delete_result_def Let_def split: if_splits option.splits)
  next
    case False
    with assms(1) Delete_req show ?thesis
      by (auto simp: serve_def DeleteMetadata_def split: option.splits)
  qed
qed

text \<open>
  C30: With unconditional etcd guards (a negative expected revision) the store and etcd never
  disagree: after any sequence of puts and deletes, failed ones included, etcd holds under the
  service's prefix exactly the encodings of the stored records.
\<close>

theorem store_and_etcd_agree:
  assumes "agree enc svc w" and "maxRetries svc > 0" and "\<forall>q \<in> set qs. unconditional q"
  shows "agree enc svc (fold (serve (\<lambda>i. Some (enc i)) svc) qs w)"
  using assms by (induction qs arbitrary: w) (simp_all add: agree_serve)

lemma agree_empty: "agree enc svc empty_world"
  by (simp add: agree_def empty_world_ok)

lemma store_and_etcd_agree_witness:
  "let qs = [Put_req (Some (sample_put ''k'' ''v'' 0 (- 1))), Put_req (Some (sample_put ''k'' ''w'' 9 (- 1))),
       Delete_req (Some (sample_delete ''k'' 1 (- 1)))] in
   agree item_Value sample_svc (fold (serve (\<lambda>i. Some (item_Value i)) sample_svc) qs empty_world)"
proof -
  let ?qs = "[Put_req (Some (sample_put ''k'' ''v'' 0 (- 1))), Put_req (Some (sample_put ''k'' ''w'' 9 (- 1))),
       Delete_req (Some (sample_delete ''k'' 1 (- 1)))]"
  have "\<forall>q \<in> set ?qs. unconditional q"
    by (simp add: unconditional_def sample_put_def sample_item_def sample_delete_def)
  from store_and_etcd_agree [OF agree_empty _ this, of sample_svc item_Value] show ?thesis
    by (simp add: Let_def sample_svc_def)
qed

definition page_limit :: "ListMetadataRequest \<Rightarrow> nat" where
  "page_limit req = (if sint (list_Limit req) \<le> 0 then 100 else nat (sint (list_Limit req)))"

lemma page_limit_token [simp]: "page_limit (req\<lparr>list_PageToken := token\<rparr>) = page_limit req"
  by (simp add: page_limit_def)

lemmas List_page = ListMetadata_value [folded page_limit_def]

lemma recordToItem_key [simp]: "item_Key (recordToItem r) = rec_Key r"
  by (simp add: recordToItem_def)

lemma page_keys:
  assumes "world_ok w" and "ListMetadata svc (Some req) w = Some (Inr resp)"
  obtains page where "listr_Items resp = map recordToItem page"
    and "sorted_wrt (<) (map rec_Key page)" and "length page \<le> page_limit req"
    and "\<And>r. r \<in> set page \<Longrightarrow> prefix (list_Prefix req) (rec_Key r) \<and>
      pg w (readPool svc) (rec_Key r) = Some r \<and>
      (list_PageToken req = [] \<or> list_PageToken req < rec_Key r)"
proof -
  let ?all = "matching (list_Prefix req) (stores w (readPool svc))"
  let ?hits = "filter (\<lambda>r. list_PageToken req = [] \<or> list_PageToken req < rec_Key r)
    (take (Suc (page_limit req)) ?all)"
  have ok: "store_ok (stores w (readPool svc))" using assms(1) by (simp add: world_ok_def)
  have "sorted_wrt (\<lambda>a b. rec_Key a < rec_Key b) ?all"
    using matching_keys_strict [OF ok] by (simp add: sorted_wrt_map)
  then have "sorted_wrt (\<lambda>a b. rec_Key a < rec_Key b) (take (page_limit req) ?hits)"
    by (intro sorted_wrt_take sorted_wrt_filter)
  then have sorted: "sorted_wrt (<) (map rec_Key (take (page_limit req) ?hits))"
    by (simp only: sorted_wrt_map)
  have resp: "listr_Items resp = map recordToItem (take (page_limit req) ?hits)"
    using assms(2) by (auto simp: List_page [OF assms(1)] Let_def)
  have stored: "prefix (list_Prefix req) (rec_Key r) \<and> pg w (readPool svc) (rec_Key r) = Some r \<and>
      (list_PageToken req = [] \<or> list_PageToken req < rec_Key r)"
    if "r \<in> set (take (page_limit req) ?hits)" for r
  proof -
    from that have r: "r \<in> set ?all" "list_PageToken req = [] \<or> list_PageToken req < rec_Key r"
      by (auto dest!: in_set_takeD)
    from r(1) have "prefix (list_Prefix req) (rec_Key r) \<and> pg w (readPool svc) (rec_Key r) = Some r"
      unfolding set_matching [OF ok] pg_def by blast
    with r(2) show ?thesis by blast
  qed
  show ?thesis by (rule that [OF resp sorted _ stored]) simp
qed

text \<open>
  C31: Every page of \<open>ListMetadata\<close> is sound: at most the limit of items (100 when it is not
  positive), strictly increasing in their keys, each one a stored record under the prefix and
  beyond the page token.
\<close>

theorem List_page_sound:
  assumes "world_ok w"
  shows "\<exists>resp. ListMetadata svc (Some req) w = Some (Inr resp) \<and>
    length (listr_Items resp) \<le> page_limit req \<and>
    sorted_wrt (<) (map item_Key (listr_Items resp)) \<and>
    (\<forall>i \<in> set (listr_Items resp). prefix (list_Prefix req) (item_Key i) \<and>
       (\<exists>r. pg w (readPool svc) (item_Key i) = Some r \<and> i = recordToItem r) \<and>
       (list_PageToken req = [] \<or> list_PageToken req < item_Key i))"
proof -
  obtain resp where resp: "ListMetadata svc (Some req) w = Some (Inr resp)"
    by (simp add: List_page [OF assms] Let_def)
  obtain page where page: "listr_Items resp = map recordToItem page"
    "sorted_wrt (<) (map rec_Key page)" "length page \<le> page_limit req"
    "\<And>r. r \<in> set page \<Longrightarrow> prefix (list_Prefix req) (rec_Key r) \<and>
      pg w (readPool svc) (rec_Key r) = Some r \<and>
      (list_PageToken req = [] \<or> list_PageToken req < rec_Key r)"
    by (rule page_keys [OF assms resp]) blast
  have "map item_Key (listr_Items resp) = map rec_Key page" by (simp add: page(1))
  moreover have "\<forall>i \<in> set (listr_Items resp). prefix (list_Prefix req) (item_Key i) \<and>
      (\<exists>r. pg w (readPool svc) (item_Key i) = Some r \<and> i = recordToItem r) \<and>
      (list_PageToken req = [] \<or> list_PageToken req < item_Key i)"
    using page(4) by (fastforce simp: page(1))
  moreover have "length (listr_Items resp) = length page" by (simp add: page(1))
  ultimately show ?thesis using resp page(2,3) by (metis (no_types, lifting))
qed

definition sample_list :: "string \<Rightarrow> 32 word \<Rightarrow> string \<Rightarrow> ListMetadataRequest" where
  "sample_list p limit token = \<lparr>list_Prefix = p, list_Limit = limit, list_PageToken = token\<rparr>"

lemma List_page_sound_witness:
  "\<exists>resp. ListMetadata sample_svc (Some (sample_list ''k'' 1 [])) put_world = Some (Inr resp) \<and>
    length (listr_Items resp) \<le> 1"
  using List_page_sound [OF put_world_ok, of sample_svc "sample_list ''k'' 1 []"]
  by (auto simp: page_limit_def sample_list_def)

text \<open>
  Paging loses records. When the first page ends with a token, the token is the key of a
  stored record under the prefix that the page does not show, and asking for the next page with
  that token gives no items and no token: the records beyond the limit are never listed.
\<close>

theorem List_next_page_empty:
  assumes "world_ok w" and "list_PageToken req = []"
    and "ListMetadata svc (Some req) w = Some (Inr resp)" and "listr_NextPageToken resp \<noteq> []"
  shows "ListMetadata svc (Some (req\<lparr>list_PageToken := listr_NextPageToken resp\<rparr>)) w =
      Some (Inr \<lparr>listr_Items = [], listr_NextPageToken = []\<rparr>) \<and>
    pg w (readPool svc) (listr_NextPageToken resp) \<noteq> None \<and>
    prefix (list_Prefix req) (listr_NextPageToken resp) \<and>
    listr_NextPageToken resp \<notin> item_Key ` set (listr_Items resp)"
proof -
  let ?all = "matching (list_Prefix req) (stores w (readPool svc))" and ?n = "page_limit req"
  have ok: "store_ok (stores w (readPool svc))" using assms(1) by (simp add: world_ok_def)
  have less: "rec_Key (?all ! i) < rec_Key (?all ! j)" if "i < j" "j < length ?all" for i j
    using sorted_wrt_nth_less [OF matching_keys_strict [OF ok], of i j "list_Prefix req"] that by simp
  have long: "?n < length ?all" and token: "listr_NextPageToken resp = rec_Key (?all ! ?n)"
    and items: "listr_Items resp = map recordToItem (take ?n ?all)"
    using assms(2-4) by (auto simp: List_page [OF assms(1)] Let_def split: if_splits)
  have "\<not> rec_Key (?all ! ?n) < rec_Key r" if "r \<in> set (take (Suc ?n) ?all)" for r
  proof -
    from that long obtain i where "r = ?all ! i" "i \<le> ?n" by (auto simp: in_set_conv_nth)
    then show ?thesis using less [of i ?n] long by (cases "i = ?n") auto
  qed
  then have empty: "filter (\<lambda>r. rec_Key (?all ! ?n) < rec_Key r) (take (Suc ?n) ?all) = []"
    by (simp only: filter_empty_conv) blast
  have "rec_Key (?all ! ?n) \<notin> rec_Key ` set (take ?n ?all)"
    using long less by (force simp: in_set_conv_nth)
  then have "rec_Key (?all ! ?n) \<notin> item_Key ` set (listr_Items resp)"
    by (simp add: items image_image)
  moreover have "?all ! ?n \<in> set ?all" using long by simp
  then have "prefix (list_Prefix req) (rec_Key (?all ! ?n))"
    and "pg w (readPool svc) (rec_Key (?all ! ?n)) = Some (?all ! ?n)"
    unfolding set_matching [OF ok] pg_def by blast+
  ultimately show ?thesis
    using assms(4) empty by (simp add: List_page [OF assms(1)] token Let_def)
qed

definition two_world :: World where
  "two_world = \<lparr>stores = (\<lambda>_. two_records), etcds = (\<lambda>_. etcd_New)\<rparr>"

lemma two_world_ok: "world_ok two_world"
  by (simp add: world_ok_def two_world_def two_records_def store_ok_def records_ok_def client_ok_New)

lemma List_next_page_empty_witness:
  "ListMetadata sample_svc (Some (sample_list ''k'' 1 [])) two_world =
     Some (Inr \<lparr>listr_Items = [sample_item ''ka'' [] \<lparr>item_Version := 1\<rparr>], listr_NextPageToken = ''kb''\<rparr>) \<and>
   ListMetadata sample_svc (Some (sample_list ''k'' 1 ''kb'')) two_world =
     Some (Inr \<lparr>listr_Items = [], listr_NextPageToken = []\<rparr>)"
proof -
  have first: "ListMetadata sample_svc (Some (sample_list ''k'' 1 [])) two_world =
     Some (Inr \<lparr>listr_Items = [sample_item ''ka'' [] \<lparr>item_Version := 1\<rparr>], listr_NextPageToken = ''kb''\<rparr>)"
    unfolding List_page [OF two_world_ok]
    by (simp add: Let_def page_limit_def matching_def sample_list_def sample_item_def sample_svc_def
        two_world_def two_records_def prefix_def recordToItem_def cloneMap_def)
  then show ?thesis
    using List_next_page_empty [OF two_world_ok _ first] by (simp add: sample_list_def)
qed

text \<open>
  C32: The retry budget. \<open>retry\<close> runs its closure at least once and at most \<open>MaxRetries\<close> times
  (5 when it is not set), it returns the result of the first attempt that is not a
  serialization failure, and it reports one only when the whole budget is spent.
\<close>

theorem retry_budget:
  assumes "NewService cfg = Inr svc"
  shows "\<exists>i < nat (maxRetries svc).
    retry svc fn s = fn (((\<lambda>s. fst (fn s)) ^^ i) s) \<and>
    (\<forall>j < i. snd (fn (((\<lambda>s. fst (fn s)) ^^ j) s)) = Some (PgxError ErrSerialization)) \<and>
    (snd (retry svc fn s) = Some (PgxError ErrSerialization) \<longrightarrow> Suc i = nat (maxRetries svc)) \<and>
    maxRetries svc = (if cfg_MaxRetries cfg \<le> 0 then 5 else cfg_MaxRetries cfg)"
proof -
  have max: "maxRetries svc = (if cfg_MaxRetries cfg \<le> 0 then 5 else cfg_MaxRetries cfg)"
    using assms by (auto simp: NewService_def Let_def split: option.splits)
  then have "nat (maxRetries svc) > 0" by simp
  from retry_loop_attempts [OF this, of "RetryBudget (maxRetries svc)" fn None s]
  show ?thesis unfolding retry_def using max by metis
qed

lemma retry_budget_witness:
  "retry sample_svc (\<lambda>n. (n + 1, Some (PgxError ErrSerialization))) (0 :: nat) =
    (5, Some (PgxError ErrSerialization))"
proof -
  let ?fn = "\<lambda>n :: nat. (n + 1, Some (PgxError ErrSerialization))"
  have count: "((\<lambda>n. fst (?fn n)) ^^ i) 0 = i" for i by (induction i) simp_all
  from retry_budget [OF sample_service, of ?fn 0] obtain i where
    "retry sample_svc ?fn 0 = ?fn i" and "Suc i = nat (maxRetries sample_svc)"
    unfolding count by auto
  then show ?thesis by (simp add: sample_svc_def)
qed

end
