(* ===== verification/MetadataConcurrency.thy ===== *)
theory MetadataConcurrency
  imports MetadataService
begin

text \<open>
  Any number of \<open>PutMetadata\<close> calls at once, as a step relation: each call is a program counter in
  the code of \<open>internal/metadata/service.go\<close>, and its steps are the stretches between two
  acquisitions of a shared lock: stage (begin, read, check, put), commit, and the etcd
  transaction. The calls share the world, so other calls act between any two steps of one call.
  Deletions are left to the last section: they reset versions.
\<close>

section \<open>Calls and their steps\<close>

text \<open>
  \<open>Attempt n last\<close> is about to start an attempt with \<open>n\<close> attempts left and the last serialization
  error, \<open>Staged\<close> holds an open transaction, and \<open>Stored\<close> has committed its record and is about
  to write to etcd.
\<close>

datatype put_pc =
    Attempt nat "svc_error option"
  | Staged nat Record Tx
  | Stored Record
  | Done "svc_error + PutMetadataResponse"

record put_call =
  call_item :: MetadataItem
  call_expected :: i64
  call_revision :: i64
  call_pc :: put_pc

text \<open>
  The system: the world, the calls by number, and the history of the commits to the store: the
  number of the call, the version it expected and the record it stored.
\<close>

record put_sys =
  sys_world :: World
  sys_calls :: "put_call list"
  sys_log :: "(nat \<times> i64 \<times> Record) list"

abbreviation (input) set_pc :: "nat \<Rightarrow> put_pc \<Rightarrow> put_sys \<Rightarrow> put_sys" where
  "set_pc i pc s \<equiv> s\<lparr>sys_calls := (sys_calls s)[i := (sys_calls s ! i)\<lparr>call_pc := pc\<rparr>]\<rparr>"

inductive put_step :: "(MetadataItem \<Rightarrow> string option) \<Rightarrow> Service \<Rightarrow> put_sys \<Rightarrow> put_sys \<Rightarrow> bool"
  for marshal svc where
  arrive: "item_Key item \<noteq> [] \<Longrightarrow> wf_map (item_Attributes item) \<Longrightarrow>
    put_step marshal svc s (s\<lparr>sys_calls := sys_calls s @
      [\<lparr>call_item = item, call_expected = expected, call_revision = rv,
        call_pc = Attempt (nat (maxRetries svc)) None\<rparr>]\<rparr>)"
| stage: "i < length (sys_calls s) \<Longrightarrow> call_pc (sys_calls s ! i) = Attempt (Suc n) lastErr \<Longrightarrow>
    put_stage (call_item (sys_calls s ! i)) (call_expected (sys_calls s ! i))
      (stores (sys_world s) (writePool svc)) = Inr (newRec, tx) \<Longrightarrow>
    put_step marshal svc s (set_pc i (Staged n newRec tx) s)"
| reject: "i < length (sys_calls s) \<Longrightarrow> call_pc (sys_calls s ! i) = Attempt (Suc n) lastErr \<Longrightarrow>
    put_stage (call_item (sys_calls s ! i)) (call_expected (sys_calls s ! i))
      (stores (sys_world s) (writePool svc)) = Inl e \<Longrightarrow>
    put_step marshal svc s (set_pc i (Done (Inl e)) s)"
| give_up: "i < length (sys_calls s) \<Longrightarrow> call_pc (sys_calls s ! i) = Attempt 0 lastErr \<Longrightarrow>
    put_step marshal svc s (set_pc i
      (Done (Inl (case lastErr of Some e \<Rightarrow> e | None \<Rightarrow> RetryBudget (maxRetries svc)))) s)"
| commit: "i < length (sys_calls s) \<Longrightarrow> call_pc (sys_calls s ! i) = Staged n newRec tx \<Longrightarrow>
    Tx_Commit (stores (sys_world s) (writePool svc)) tx = (st, tx', None) \<Longrightarrow>
    put_step marshal svc s ((set_pc i (Stored newRec) s)
      \<lparr>sys_world := (sys_world s)\<lparr>stores := (stores (sys_world s))(writePool svc := st)\<rparr>,
       sys_log := sys_log s @ [(i, call_expected (sys_calls s ! i), newRec)]\<rparr>)"
| conflict: "i < length (sys_calls s) \<Longrightarrow> call_pc (sys_calls s ! i) = Staged n newRec tx \<Longrightarrow>
    Tx_Commit (stores (sys_world s) (writePool svc)) tx = (st, tx', Some e) \<Longrightarrow>
    put_step marshal svc s (set_pc i
      (if e = ErrSerialization then Attempt n (Some (PgxError e)) else Done (Inl (PgxError e))) s)"
| unencodable: "i < length (sys_calls s) \<Longrightarrow> call_pc (sys_calls s ! i) = Stored newRec \<Longrightarrow>
    marshal ((call_item (sys_calls s ! i))\<lparr>item_Version := rec_Version newRec\<rparr>) = None \<Longrightarrow>
    put_step marshal svc s (set_pc i (Done (Inl MarshalFailed)) s)"
| etcd: "i < length (sys_calls s) \<Longrightarrow> call_pc (sys_calls s ! i) = Stored newRec \<Longrightarrow>
    item = (call_item (sys_calls s ! i))\<lparr>item_Version := rec_Version newRec\<rparr> \<Longrightarrow>
    marshal item = Some encoded \<Longrightarrow>
    etcd_commit svc (item_Key item) (call_revision (sys_calls s ! i))
      (OpPut (etcdKey svc (item_Key item)) encoded) (sys_world s) = (w, res) \<Longrightarrow>
    put_step marshal svc s ((set_pc i
      (Done (case res of Inl e \<Rightarrow> Inl e
                       | Inr r \<Rightarrow> Inr \<lparr>putr_Item = item, putr_EtcdRevision = r\<rparr>)) s)
      \<lparr>sys_world := w\<rparr>)"

inductive_cases put_stepE: "put_step marshal svc s t"

text \<open>The system starts with a world in which no record is stored yet.\<close>

definition put_start :: "Service \<Rightarrow> put_sys \<Rightarrow> bool" where
  "put_start svc s \<longleftrightarrow> world_ok (sys_world s) \<and> entries (stores (sys_world s) (writePool svc)) = [] \<and>
     sys_calls s = [] \<and> sys_log s = []"

section \<open>The invariant: versions count the commits\<close>

definition log_of :: "put_sys \<Rightarrow> string \<Rightarrow> Record list" where
  "log_of s k = filter (\<lambda>r. rec_Key r = k) (map (\<lambda>(i, e, r). r) (sys_log s))"

text \<open>
  The committed records of every key carry the versions 1, 2, 3, ... in the order of their
  commits, and the store holds the last of them. An open transaction has staged the record
  after the version it read.
\<close>

definition log_inv :: "Service \<Rightarrow> put_sys \<Rightarrow> bool" where
  "log_inv svc s \<longleftrightarrow>
     (\<forall>k. map rec_Version (log_of s k) = map of_nat [1..<Suc (length (log_of s k))] \<and>
        map_of (entries (stores (sys_world s) (writePool svc))) k =
          (if log_of s k = [] then None else Some (last (log_of s k))))"

definition call_inv :: "put_call \<Rightarrow> bool" where
  "call_inv c \<longleftrightarrow> wf_map (item_Attributes (call_item c)) \<and>
     (\<forall>n newRec tx. call_pc c = Staged n newRec tx \<longrightarrow>
        (\<exists>s. store_ok s \<and> tx = put_tx (call_item c) s \<and>
           newRec = put_record (call_item c) (map_of (entries s) (item_Key (call_item c))) \<and>
           (sint (call_expected c) > 0 \<longrightarrow> stored_version s (item_Key (call_item c)) = call_expected c)))"

definition log_versions :: "put_sys \<Rightarrow> bool" where
  "log_versions s \<longleftrightarrow> (\<forall>(i, expected, r) \<in> set (sys_log s). sint expected > 0 \<longrightarrow> rec_Version r = expected + 1)"

definition put_inv :: "Service \<Rightarrow> put_sys \<Rightarrow> bool" where
  "put_inv svc s \<longleftrightarrow> world_ok (sys_world s) \<and> log_inv svc s \<and> log_versions s \<and>
     (\<forall>c \<in> set (sys_calls s). call_inv c)"

lemma next_version_stored: "next_version (map_of (entries s) k) = stored_version s k + 1"
  by (simp add: next_version_def stored_version_def split: option.split)

lemma log_inv_version:
  assumes "log_inv svc s"
  shows "stored_version (stores (sys_world s) (writePool svc)) k = of_nat (length (log_of s k))"
proof (cases "log_of s k = []")
  case True
  with assms show ?thesis by (simp add: log_inv_def stored_version_def)
next
  case False
  have "rec_Version (last (log_of s k)) = last (map rec_Version (log_of s k))"
    using False by (simp add: last_map)
  also have "\<dots> = of_nat (length (log_of s k))"
    using assms False by (simp add: log_inv_def Suc_le_eq)
  finally show ?thesis using assms False by (simp add: log_inv_def stored_version_def)
qed

lemma calls_update:
  "\<forall>c \<in> set (sys_calls s). call_inv c \<Longrightarrow> call_inv c' \<Longrightarrow> \<forall>c \<in> set ((sys_calls s)[i := c']). call_inv c"
  using set_update_subset_insert [of "sys_calls s" i c'] by blast

lemma call_inv_pc:
  assumes "\<forall>c \<in> set (sys_calls s). call_inv c" and "i < length (sys_calls s)"
    and "\<And>n newRec tx. pc \<noteq> Staged n newRec tx"
  shows "\<forall>c \<in> set ((sys_calls s)[i := (sys_calls s ! i)\<lparr>call_pc := pc\<rparr>]). call_inv c"
  using assms(1) by (rule calls_update) (use assms in \<open>auto simp: call_inv_def\<close>)

text \<open>Steps that only move a program counter.\<close>

lemma put_inv_pc:
  assumes "put_inv svc s" and "i < length (sys_calls s)" and "\<And>n newRec tx. pc \<noteq> Staged n newRec tx"
  shows "put_inv svc (set_pc i pc s)"
  using assms call_inv_pc [of s i pc]
  by (simp add: put_inv_def log_inv_def log_versions_def log_of_def)

lemma put_inv_stage:
  assumes "put_inv svc s" and "i < length (sys_calls s)"
    and "put_stage (call_item (sys_calls s ! i)) (call_expected (sys_calls s ! i))
      (stores (sys_world s) (writePool svc)) = Inr (newRec, tx)"
  shows "put_inv svc (set_pc i (Staged n newRec tx) s)"
proof -
  let ?c = "sys_calls s ! i" and ?st = "stores (sys_world s) (writePool svc)"
  have ok: "store_ok ?st" and wf: "wf_map (item_Attributes (call_item ?c))"
    using assms(1,2) by (auto simp: put_inv_def world_ok_def call_inv_def)
  from assms(3) [unfolded put_stage_eq [OF ok wf]]
  have "tx = put_tx (call_item ?c) ?st"
    and "newRec = put_record (call_item ?c) (map_of (entries ?st) (item_Key (call_item ?c)))"
    and "sint (call_expected ?c) > 0 \<longrightarrow> stored_version ?st (item_Key (call_item ?c)) = call_expected ?c"
    by (auto simp: version_check_def stored_version_def split: option.splits if_splits)
  with ok wf have "call_inv (?c\<lparr>call_pc := Staged n newRec tx\<rparr>)"
    by (auto simp: call_inv_def)
  with assms(1) calls_update [of s _ i] show ?thesis
    by (simp add: put_inv_def log_inv_def log_versions_def log_of_def)
qed

lemma put_inv_commit:
  assumes "put_inv svc s" and "i < length (sys_calls s)"
    and pc: "call_pc (sys_calls s ! i) = Staged n newRec tx"
    and tx: "Tx_Commit (stores (sys_world s) (writePool svc)) tx = (st, tx', None)"
  shows "put_inv svc ((set_pc i (Stored newRec) s)
      \<lparr>sys_world := (sys_world s)\<lparr>stores := (stores (sys_world s))(writePool svc := st)\<rparr>,
       sys_log := sys_log s @ [(i, call_expected (sys_calls s ! i), newRec)]\<rparr>)" (is "put_inv svc ?t")
proof -
  let ?c = "sys_calls s ! i" and ?old = "stores (sys_world s) (writePool svc)"
  let ?k = "item_Key (call_item ?c)"
  have c: "call_inv ?c" and ok: "store_ok ?old" and log: "log_inv svc s"
    using assms(1,2) by (auto simp: put_inv_def world_ok_def)
  then obtain s0 where wf: "wf_map (item_Attributes (call_item ?c))"
    and s0: "tx = put_tx (call_item ?c) s0" "newRec = put_record (call_item ?c) (map_of (entries s0) ?k)"
      "sint (call_expected ?c) > 0 \<longrightarrow> stored_version s0 ?k = call_expected ?c"
    using pc by (auto simp: call_inv_def)
  have same: "stored_version ?old ?k = stored_version s0 ?k"
    and st: "st = ?old\<lparr>entries := AList.update ?k newRec (entries ?old)\<rparr>"
    using tx put_commit [OF wf, of ?old s0] s0(1,2) by (auto split: if_splits)
  have version: "rec_Version newRec = of_nat (length (log_of s ?k)) + 1"
    using same log_inv_version [OF log, of ?k] by (simp add: s0(2) put_record_def next_version_stored)
  have key: "rec_Key newRec = ?k" by (simp add: s0(2) put_record_def)
  have log_t: "log_of ?t k = (if k = ?k then log_of s k @ [newRec] else log_of s k)" for k
    by (simp add: log_of_def key)
  have "log_inv svc ?t"
    using log version unfolding log_inv_def log_t by (simp add: st)
  moreover have "world_ok (sys_world ?t)"
    using assms(1) store_ok_put [OF ok wf] by (simp add: put_inv_def world_ok_def st s0(2))
  moreover have "log_versions ?t"
    using assms(1) s0(3) same by (auto simp: put_inv_def log_versions_def s0(2) put_record_def next_version_stored)
  moreover have "\<forall>c \<in> set (sys_calls ?t). call_inv c"
    using assms(1,2) call_inv_pc [of s i "Stored newRec"] by (simp add: put_inv_def)
  ultimately show ?thesis unfolding put_inv_def by blast
qed

lemma put_inv_step:
  assumes "put_inv svc s" and "put_step marshal svc s t"
  shows "put_inv svc t"
  using assms(2)
proof cases
  case (arrive item expected rv)
  with assms(1) show ?thesis
    by (auto simp: put_inv_def log_inv_def log_versions_def log_of_def call_inv_def)
next
  case (stage i n lastErr newRec tx)
  with assms(1) show ?thesis by (simp add: put_inv_stage)
next
  case (reject i n lastErr e)
  with assms(1) show ?thesis by (simp add: put_inv_pc)
next
  case (give_up i lastErr)
  with assms(1) show ?thesis by (simp add: put_inv_pc)
next
  case (commit i n newRec tx st tx')
  with assms(1) show ?thesis by (simp only: put_inv_commit)
next
  case (conflict i n newRec tx st tx' e)
  with assms(1) show ?thesis by (simp add: put_inv_pc)
next
  case (unencodable i newRec)
  with assms(1) show ?thesis by (simp add: put_inv_pc)
next
  case (etcd i newRec item encoded w res)
  have "world_ok (sys_world s)" using assms(1) by (simp add: put_inv_def)
  then obtain w' where "etcd_commit svc (item_Key item) (call_revision (sys_calls s ! i))
        (OpPut (etcdKey svc (item_Key item)) encoded) (sys_world s) =
      (w', if guard_holds (sys_world s) svc (item_Key item) (call_revision (sys_calls s ! i))
        then Inr (revision (etcds w' (svc_etcd svc))) else Inl (EtcdConflict (item_Key item)))"
    and "world_ok w'" "stores w' = stores (sys_world s)"
    by (rule etcd_commit_ok [OF _ op_supported_PutDelete(1)])
  with etcd(6) have w: "world_ok w" "stores w = stores (sys_world s)" by simp_all
  have keep: "put_inv svc (u\<lparr>sys_world := w\<rparr>)" if "put_inv svc u" "sys_world u = sys_world s" for u
    using that w by (simp add: put_inv_def log_inv_def log_versions_def log_of_def)
  show ?thesis unfolding etcd(1)
    by (rule keep, rule put_inv_pc [OF assms(1) etcd(2)]) simp_all
qed

lemma put_inv_start: "put_start svc s \<Longrightarrow> put_inv svc s"
  by (simp add: put_start_def put_inv_def log_inv_def log_versions_def log_of_def)

interpretation puts: invariant "put_start svc" "put_step marshal svc" "put_inv svc" for marshal svc
  by unfold_locales (rule put_inv_start, assumption, rule put_inv_step)

section \<open>No update is lost\<close>

text \<open>
  C4: In every state that any number of concurrent \<open>PutMetadata\<close> calls can reach, interleaved in
  any order, the commits of each key carry the versions 1, 2, 3, ... in the order in which they
  happened and the store holds the record of the last one: no version is skipped, none is given
  out twice, and no commit overwrites one it has not read.
\<close>

theorem no_lost_updates:
  assumes "reach (put_start svc) (put_step marshal svc) s"
  shows "map rec_Version (log_of s k) = map of_nat [1..<Suc (length (log_of s k))] \<and>
    map_of (entries (stores (sys_world s) (writePool svc))) k =
      (if log_of s k = [] then None else Some (last (log_of s k)))"
  using puts.reach_inv [OF assms] unfolding put_inv_def log_inv_def by blast

text \<open>Two puts of one key race: both stage, the second to commit conflicts and starts over.\<close>

definition sample_start :: put_sys where
  "sample_start = \<lparr>sys_world = empty_world, sys_calls = [], sys_log = []\<rparr>"

definition sample_call :: "string \<Rightarrow> i64 \<Rightarrow> put_pc \<Rightarrow> put_call" where
  "sample_call v expected pc =
     \<lparr>call_item = sample_item ''k'' v, call_expected = expected, call_revision = - 1, call_pc = pc\<rparr>"

lemma sample_start_ok: "put_start sample_svc sample_start"
  using empty_world_ok by (simp add: put_start_def sample_start_def empty_world_def NewStore_def)

abbreviation (input) sample_reach :: "put_sys \<Rightarrow> bool" where
  "sample_reach \<equiv> reach (put_start sample_svc) (put_step sample_marshal sample_svc)"

lemma sample_arrive:
  assumes "sample_reach s"
  shows "sample_reach (s\<lparr>sys_calls := sys_calls s @ [sample_call v e (Attempt 5 None)]\<rparr>)"
proof -
  have "item_Key (sample_item ''k'' v) \<noteq> []" and "wf_map (item_Attributes (sample_item ''k'' v))"
    and "nat (maxRetries sample_svc) = 5"
    by (simp_all add: sample_item_def sample_svc_def)
  from reach_step [OF assms put_step.arrive [OF this(1,2)]] this(3)
  show ?thesis by (simp add: sample_call_def)
qed

section \<open>A conditional put takes its version\<close>

lemma filter_index_lt:
  assumes "a < b" and "b < length xs" and "P (xs ! a)" and "P (xs ! b)"
    and "distinct (map f (filter P xs))"
  shows "f (xs ! a) \<noteq> f (xs ! b)"
proof -
  have "xs = take b xs @ xs ! b # drop (Suc b) xs"
    using assms(2) by (rule id_take_nth_drop)
  then have "filter P xs = filter P (take b xs) @ xs ! b # filter P (drop (Suc b) xs)"
    using assms(4) by (metis filter_append filter.simps(2))
  then have "f (xs ! b) \<notin> set (map f (filter P (take b xs)))"
    using assms(5) by simp
  moreover have "xs ! a \<in> set (filter P (take b xs))"
    using assms(1-3) by (auto simp: in_set_conv_nth intro!: exI [of _ a])
  ultimately show ?thesis by (metis image_eqI set_map)
qed

lemma filter_index_unique:
  assumes "a < length xs" and "b < length xs" and "P (xs ! a)" and "P (xs ! b)"
    and "distinct (map f (filter P xs))" and "f (xs ! a) = f (xs ! b)"
  shows "a = b"
  using assms filter_index_lt [of a b xs P f] filter_index_lt [of b a xs P f]
  by (metis linorder_neq_iff)

lemma log_versions_distinct:
  assumes "log_inv svc s" and "length (log_of s k) < 2 ^ 63"
  shows "distinct (map rec_Version (log_of s k))"
proof -
  have "inj_on (of_nat :: nat \<Rightarrow> i64) {1..<Suc (length (log_of s k))}"
    by (rule inj_onI) (use assms(2) in \<open>auto simp: word_unat_eq_iff unat_of_nat\<close>)
  then have "distinct (map (of_nat :: nat \<Rightarrow> i64) [1..<Suc (length (log_of s k))])"
    by (simp add: distinct_map del: upt_Suc)
  then show ?thesis using assms(1) by (metis log_inv_def)
qed

text \<open>
  C13: However the calls interleave, of the conditional puts that expected one version of one key at
  most one commits (below \<open>2^63\<close> commits of the key, after which a version would be reused):
  two commits in the history with the same key and the same positive expected version are the
  same commit.
\<close>

theorem conditional_put_exclusive:
  assumes "reach (put_start svc) (put_step marshal svc) s"
    and "a < length (sys_log s)" and "sys_log s ! a = (i, expected, r)"
    and "b < length (sys_log s)" and "sys_log s ! b = (j, expected, r')"
    and "rec_Key r = k" and "rec_Key r' = k" and "sint expected > 0"
    and "length (log_of s k) < 2 ^ 63"
  shows "a = b"
proof -
  have inv: "put_inv svc s" by (rule puts.reach_inv [OF assms(1)])
  let ?rs = "map (\<lambda>(i, e, r). r) (sys_log s)"
  have "(i, expected, r) \<in> set (sys_log s)" "(j, expected, r') \<in> set (sys_log s)"
    using assms(2-5) by (metis nth_mem)+
  then have "rec_Version r = expected + 1" and "rec_Version r' = expected + 1"
    using inv assms(8) unfolding put_inv_def log_versions_def by fast+
  then have "rec_Version (?rs ! a) = rec_Version (?rs ! b)"
    using assms(2-5) by simp
  moreover have "distinct (map rec_Version (filter (\<lambda>r. rec_Key r = k) ?rs))"
    using log_versions_distinct [of svc s k] inv assms(9) by (simp add: put_inv_def log_of_def)
  ultimately show ?thesis
    using assms(2-7) filter_index_unique [of a ?rs b "\<lambda>r. rec_Key r = k" rec_Version] by simp
qed

section \<open>Every call returns\<close>

definition returned :: "put_call \<Rightarrow> bool" where
  "returned c = (case call_pc c of Done _ \<Rightarrow> True | _ \<Rightarrow> False)"

text \<open>An upper bound on the steps a call still takes.\<close>

fun pc_rank :: "put_pc \<Rightarrow> nat" where
  "pc_rank (Attempt n _) = 2 * n + 1"
| "pc_rank (Staged n _ _) = 2 * n + 2"
| "pc_rank (Stored _) = 1"
| "pc_rank (Done _) = 0"

definition work_left :: "put_sys \<Rightarrow> nat" where
  "work_left s = sum_list (map (pc_rank \<circ> call_pc) (sys_calls s))"

lemma work_left_pc:
  assumes "i < length (sys_calls s)" and "pc_rank pc < pc_rank (call_pc (sys_calls s ! i))"
  shows "work_left (set_pc i pc s) < work_left s"
proof -
  let ?ranks = "map (pc_rank \<circ> call_pc) (sys_calls s)"
  have "?ranks ! i \<le> sum_list ?ranks" using assms(1) by (intro elem_le_sum_list) simp
  then show ?thesis using assms by (simp add: work_left_def map_update sum_list_update)
qed

lemma work_left_world [simp]:
  "work_left (s\<lparr>sys_world := w\<rparr>) = work_left s" "work_left (s\<lparr>sys_log := l\<rparr>) = work_left s"
  by (simp_all add: work_left_def)

lemma step_work:
  assumes "put_step marshal svc s t" and "length (sys_calls t) = length (sys_calls s)"
  shows "work_left t < work_left s"
  using assms(1)
proof cases
  case (arrive item expected rv)
  with assms(2) show ?thesis by simp
qed (use work_left_pc [of _ s] in auto)

text \<open>The next step of call \<open>i\<close>, when it has one.\<close>

definition advance :: "(MetadataItem \<Rightarrow> string option) \<Rightarrow> Service \<Rightarrow> nat \<Rightarrow> put_sys \<Rightarrow> put_sys" where
  "advance marshal svc i s = (let c = sys_calls s ! i; st = stores (sys_world s) (writePool svc) in
     case call_pc c of
       Attempt 0 lastErr \<Rightarrow> set_pc i
         (Done (Inl (case lastErr of Some e \<Rightarrow> e | None \<Rightarrow> RetryBudget (maxRetries svc)))) s
     | Attempt (Suc n) lastErr \<Rightarrow> (case put_stage (call_item c) (call_expected c) st of
           Inl e \<Rightarrow> set_pc i (Done (Inl e)) s
         | Inr (newRec, tx) \<Rightarrow> set_pc i (Staged n newRec tx) s)
     | Staged n newRec tx \<Rightarrow> (case Tx_Commit st tx of
           (st, tx', None) \<Rightarrow> (set_pc i (Stored newRec) s)
             \<lparr>sys_world := (sys_world s)\<lparr>stores := (stores (sys_world s))(writePool svc := st)\<rparr>,
              sys_log := sys_log s @ [(i, call_expected c, newRec)]\<rparr>
         | (st, tx', Some e) \<Rightarrow> set_pc i
             (if e = ErrSerialization then Attempt n (Some (PgxError e)) else Done (Inl (PgxError e))) s)
     | Stored newRec \<Rightarrow> (let item = (call_item c)\<lparr>item_Version := rec_Version newRec\<rparr> in
         case marshal item of
           None \<Rightarrow> set_pc i (Done (Inl MarshalFailed)) s
         | Some encoded \<Rightarrow> (case etcd_commit svc (item_Key item) (call_revision c)
               (OpPut (etcdKey svc (item_Key item)) encoded) (sys_world s) of
             (w, res) \<Rightarrow> (set_pc i (Done (case res of Inl e \<Rightarrow> Inl e
                 | Inr r \<Rightarrow> Inr \<lparr>putr_Item = item, putr_EtcdRevision = r\<rparr>)) s)\<lparr>sys_world := w\<rparr>))
     | Done _ \<Rightarrow> s)"

lemma advance_length [simp]: "length (sys_calls (advance marshal svc i s)) = length (sys_calls s)"
  by (simp add: advance_def Let_def split: put_pc.split nat.split sum.split option.split prod.split)

lemma advance_step:
  assumes "i < length (sys_calls s)" and "\<not> returned (sys_calls s ! i)"
  shows "put_step marshal svc s (advance marshal svc i s)"
proof (cases "call_pc (sys_calls s ! i)")
  case (Attempt n lastErr)
  then show ?thesis using put_step.intros(2-4) [OF assms(1)]
    by (auto simp: advance_def Let_def split: nat.split sum.split prod.split)
next
  case (Staged n newRec tx)
  then show ?thesis using put_step.commit [OF assms(1) Staged] put_step.conflict [OF assms(1) Staged]
    by (auto simp: advance_def Let_def split: option.split prod.split)
next
  case (Stored newRec)
  then show ?thesis
    using put_step.unencodable [OF assms(1) Stored] put_step.etcd [OF assms(1) Stored refl]
    by (auto simp: advance_def Let_def split: option.split prod.split)
next
  case (Done res)
  with assms(2) show ?thesis by (simp add: returned_def)
qed

lemma returned_rank: "returned c \<longleftrightarrow> pc_rank (call_pc c) = 0"
  by (cases "call_pc c") (simp_all add: returned_def)

lemma returned_work: "\<forall>c \<in> set (sys_calls s). returned c \<Longrightarrow> work_left s = 0"
  by (simp add: work_left_def returned_rank)

text \<open>
  C14: Every \<open>PutMetadata\<close> call returns, with no fairness assumed: each step of a call that is under
  way uses up some of a finite amount of work (\<open>2 * maxRetries + 1\<close> per call), whatever the other
  calls do, and the system can only stand still, but for the arrival of new calls, when all of
  its calls have returned.
\<close>

theorem put_calls_return:
  "(\<forall>t. put_step marshal svc s t \<longrightarrow> length (sys_calls t) = length (sys_calls s) \<longrightarrow>
      work_left t < work_left s) \<and>
   ((\<nexists>t. put_step marshal svc s t \<and> length (sys_calls t) = length (sys_calls s)) \<longleftrightarrow>
      (\<forall>c \<in> set (sys_calls s). returned c))"
proof -
  have "returned c" if "\<nexists>t. put_step marshal svc s t \<and> length (sys_calls t) = length (sys_calls s)"
    and "c \<in> set (sys_calls s)" for c
    using that advance_step [of _ s marshal svc] by (metis advance_length in_set_conv_nth)
  moreover have "False" if "\<forall>c \<in> set (sys_calls s). returned c" and "put_step marshal svc s t"
    and "length (sys_calls t) = length (sys_calls s)" for t
    using step_work [OF that(2,3)] returned_work [OF that(1)] by simp
  ultimately show ?thesis using step_work [of marshal svc s] by blast
qed

section \<open>Runs\<close>

lemma reach_advance:
  assumes "reach (put_start svc) (put_step marshal svc) s" and "i < length (sys_calls s)"
  shows "reach (put_start svc) (put_step marshal svc) (advance marshal svc i s)"
proof (cases "returned (sys_calls s ! i)")
  case True
  then have "advance marshal svc i s = s"
    by (auto simp: returned_def advance_def Let_def split: put_pc.splits)
  with assms(1) show ?thesis by simp
next
  case False
  with assms show ?thesis by (blast intro: reach_step advance_step)
qed

lemma reach_run:
  assumes "reach (put_start svc) (put_step marshal svc) s" and "\<forall>i \<in> set is. i < length (sys_calls s)"
  shows "reach (put_start svc) (put_step marshal svc) (fold (advance marshal svc) is s)"
  using assms by (induction "is" arbitrary: s) (simp_all add: reach_advance)

text \<open>
  Sample runs: two puts of one key, and the calls take their steps in the order of a list. In
  \<open>race\<close> both stage, the first commits, the second conflicts, starts over, commits and writes to
  etcd, and then the first writes to etcd.
\<close>

definition two_puts :: "i64 \<Rightarrow> put_sys" where
  "two_puts expected = sample_start\<lparr>sys_calls := [sample_call ''a'' expected (Attempt 5 None),
     sample_call ''b'' 0 (Attempt 5 None)]\<rparr>"

definition race :: put_sys where
  "race = fold (advance sample_marshal sample_svc) [0, 1, 0, 1, 1, 1, 1, 0] (two_puts 0)"

lemma two_puts_reach: "sample_reach (two_puts e)"
  using sample_arrive [OF sample_arrive [OF reach_start [where start = "put_start sample_svc",
      OF sample_start_ok]]]
  by (simp add: two_puts_def sample_start_def)

lemma race_reach: "sample_reach race"
  unfolding race_def by (rule reach_run [OF two_puts_reach]) (simp add: two_puts_def)

lemmas put_sys_eval = two_puts_def sample_start_def sample_call_def advance_def svc_eval sample_eval

lemma race_result:
  "sys_log race = [(0, 0, (put_record (sample_item ''k'' ''a'') None)),
     (1, 0, (put_record (sample_item ''k'' ''b'') None)\<lparr>rec_Version := 2\<rparr>)]"
  "map call_pc (sys_calls race) =
    [Done (Inr \<lparr>putr_Item = (sample_item ''k'' ''a'')\<lparr>item_Version := 1\<rparr>, putr_EtcdRevision = 2\<rparr>),
     Done (Inr \<lparr>putr_Item = (sample_item ''k'' ''b'')\<lparr>item_Version := 2\<rparr>, putr_EtcdRevision = 1\<rparr>)]"
  "pg (sys_world race) 0 ''k'' = Some ((put_record (sample_item ''k'' ''b'') None)\<lparr>rec_Version := 2\<rparr>)"
  "kvs (sys_world race) 0 ''metadata/k'' = Some ''a''"
  unfolding race_def
  by (simp_all add: put_sys_eval put_record_def next_version_def pg_def kvs_def view_def)

lemma no_lost_updates_witness:
  "map rec_Version (log_of race ''k'') = [1, 2] \<and>
   pg (sys_world race) 0 ''k'' = Some (last (log_of race ''k''))"
  using no_lost_updates [OF race_reach, of "''k''"]
  by (simp add: pg_def log_of_def race_result put_record_def upt_rec [of 1] upt_rec [of 2] sample_svc_def sample_item_def)

text \<open>A put that expects version 1 while another put, of version 2, commits first.\<close>

definition conditional_race :: put_sys where
  "conditional_race = fold (advance sample_marshal sample_svc) [1, 1, 0, 0] (two_puts 1)"

lemma conditional_race_reach: "sample_reach conditional_race"
  unfolding conditional_race_def by (rule reach_run [OF two_puts_reach]) (simp add: two_puts_def)

lemma conditional_race_log:
  "sys_log conditional_race = [(1, 0, put_record (sample_item ''k'' ''b'') None),
     (0, 1, (put_record (sample_item ''k'' ''a'') None)\<lparr>rec_Version := 2\<rparr>)]"
  unfolding conditional_race_def
  by (simp add: put_sys_eval put_record_def next_version_def)

lemma conditional_put_exclusive_witness:
  "(\<nexists>i r. sys_log conditional_race ! 0 = (i, 1, r)) \<and> (\<exists>r. sys_log conditional_race ! 1 = (0, 1, r))"
proof -
  have "a = 1" if "a < 2" and "sys_log conditional_race ! a = (i, 1, r)" for a i r
  proof (rule conditional_put_exclusive [OF conditional_race_reach, where k = "''k''" and b = 1 and expected = 1])
    show "a < length (sys_log conditional_race)" "1 < length (sys_log conditional_race)"
      using that by (simp_all add: conditional_race_log)
    show "sys_log conditional_race ! a = (i, 1, r)" by (rule that)
    show "sys_log conditional_race ! 1 = (0, 1, (put_record (sample_item ''k'' ''a'') None)\<lparr>rec_Version := 2\<rparr>)"
      by (simp add: conditional_race_log)
    show "rec_Key r = ''k''" using that
      by (auto simp: conditional_race_log less_2_cases_iff put_record_def sample_item_def)
    show "length (log_of conditional_race ''k'') < 2 ^ 63"
      by (simp add: log_of_def conditional_race_log)
  qed (simp_all add: put_record_def sample_item_def)
  from this [of 0] have "\<nexists>i r. sys_log conditional_race ! 0 = (i, 1, r)" by auto
  moreover have "\<exists>r. sys_log conditional_race ! 1 = (0, 1, r)" by (simp add: conditional_race_log)
  ultimately show ?thesis by blast
qed

lemma put_calls_return_witness:
  "work_left (advance sample_marshal sample_svc 0 (two_puts 0)) < work_left (two_puts 0) \<and>
   (\<nexists>t. put_step sample_marshal sample_svc race t \<and> length (sys_calls t) = length (sys_calls race))"
proof
  have "put_step sample_marshal sample_svc (two_puts 0) (advance sample_marshal sample_svc 0 (two_puts 0))"
    by (rule advance_step) (simp_all add: two_puts_def sample_call_def returned_def)
  then show "work_left (advance sample_marshal sample_svc 0 (two_puts 0)) < work_left (two_puts 0)"
    using put_calls_return [of sample_marshal sample_svc "two_puts 0"] advance_length by blast
  have "\<forall>pc \<in> set (map call_pc (sys_calls race)). \<exists>res. pc = Done res"
    by (simp add: race_result)
  then have "\<forall>c \<in> set (sys_calls race). returned c"
    by (auto simp: returned_def split: put_pc.split)
  then show "\<nexists>t. put_step sample_marshal sample_svc race t \<and> length (sys_calls t) = length (sys_calls race)"
    using put_calls_return [of sample_marshal sample_svc race] by blast
qed

section \<open>What the separate etcd transaction allows\<close>

text \<open>
  The store and etcd can end up with different writers: the two transactions of a put are not
  one step, so of two puts of one key the one that commits second can write to etcd first. Both
  calls succeed, the store holds the record of version 2 and etcd the encoding of version 1,
  under a higher revision than the writer of version 2 was told.
\<close>

theorem etcd_lags_store:
  "\<exists>s. sample_reach s \<and>
     (\<exists>first second. map call_pc (sys_calls s) = [Done (Inr first), Done (Inr second)] \<and>
        pg (sys_world s) 0 ''k'' = Some ((put_record (putr_Item second) None)\<lparr>rec_Version := 2\<rparr>) \<and>
        kvs (sys_world s) 0 (etcdKey sample_svc ''k'') = sample_marshal (putr_Item first) \<and>
        sample_marshal (putr_Item first) \<noteq> sample_marshal (putr_Item second) \<and>
        putr_EtcdRevision second < putr_EtcdRevision first)"
  by (rule exI [of _ race], rule conjI [OF race_reach])
    (simp add: race_result sample_item_def put_record_def etcdKey_def sample_svc_def sample_marshal_def)

section \<open>What a deletion allows\<close>

text \<open>
  A deletion resets the version of its key, so a put that expects a version can commit over a
  record it has never seen: when the key is deleted and put again between the read and the commit
  of a put that read version 1, that put still commits, and replaces the new record.
\<close>

theorem version_reused_after_delete:
  assumes "world_ok w" and "maxRetries svc > 0" and "wf_map (item_Attributes item)"
    and "pg w (writePool svc) (item_Key item) = Some r" and "rec_Version r = 1"
    and staged: "put_stage item 1 (stores w (writePool svc)) = Inr (newRec, tx)"
    and "del_Key d = item_Key item" and "DeleteMetadata svc (Some d) w = (w1, Inr dresp)"
    and "put_Item p = Some other" and "item_Key other = item_Key item" and "wf_map (item_Attributes other)"
    and "PutMetadata marshal svc (Some p) w1 = (w2, Inr presp)"
  shows "pg w2 (writePool svc) (item_Key item) = Some (put_record other None) \<and>
    (case Tx_Commit (stores w2 (writePool svc)) tx of (st, tx', e) \<Rightarrow>
       e = None \<and> map_of (entries st) (item_Key item) = Some newRec)"
proof -
  let ?k = "item_Key item"
  have key: "?k \<noteq> []"
    using assms(7,8) by (auto simp: DeleteMetadata_def)
  have "world_ok w1 \<and> delete_result svc d w w1 (Inr dresp)"
    using DeleteMetadata_result [OF assms(1,2), of d] assms(7,8) key by (metis prod.inject)
  then have w1: "world_ok w1" "pg w1 (writePool svc) ?k = None"
    using assms(4,7) by (auto simp: delete_result_def Let_def split: option.splits if_splits)
  have "world_ok w2 \<and> put_result marshal svc other (put_ExpectedVersion p) (put_ExpectedEtcdRevision p)
      w1 w2 (Inr presp)"
    using PutMetadata_result [where marshal = marshal, OF w1(1) assms(2,9) _ assms(11)] assms(10,12) key
    by (metis prod.inject)
  then have w2: "pg w2 (writePool svc) ?k = Some (put_record other None)"
    using assms(10) w1(2) by (auto simp: put_result_def Let_def split: option.splits if_splits)
  have ok: "store_ok (stores w (writePool svc))" using assms(1) by (simp add: world_ok_def)
  have tx: "tx = put_tx item (stores w (writePool svc))" "newRec = put_record item (Some r)"
    using staged assms(4) unfolding put_stage_eq [OF ok assms(3)]
    by (auto simp: pg_def split: option.splits)
  have "stored_version (stores w2 (writePool svc)) ?k = stored_version (stores w (writePool svc)) ?k"
    using w2 assms(4,5) by (simp add: pg_def stored_version_def put_record_def next_version_def)
  with tx assms(4) show ?thesis
    using w2 by (simp add: put_commit [OF assms(3)] update_conv' pg_def)
qed

lemma version_reused_after_delete_witness:
  "\<exists>w2 newRec tx st tx'. pg w2 0 ''k'' = Some (put_record (sample_item ''k'' ''b'') None) \<and>
     put_stage (sample_item ''k'' ''c'') 1 (stores put_world 0) = Inr (newRec, tx) \<and>
     Tx_Commit (stores w2 0) tx = (st, tx', None) \<and> map_of (entries st) ''k'' = Some newRec"
proof -
  define d where "d = \<lparr>del_Key = ''k'', del_ExpectedVersion = 1, del_ExpectedEtcdRevision = - 1\<rparr>"
  have stored: "pg put_world 0 ''k'' = Some (put_record (sample_item ''k'' ''v'') None)"
    unfolding put_world_def by (simp add: svc_eval sample_eval pg_def put_record_def next_version_def)
  obtain newRec tx where staged: "put_stage (sample_item ''k'' ''c'') 1 (stores put_world 0) = Inr (newRec, tx)"
    unfolding put_world_def by (simp add: svc_eval sample_eval)
  obtain w1 dresp where del: "DeleteMetadata sample_svc (Some d) put_world = (w1, Inr dresp)"
    and w1: "w1 = fst (DeleteMetadata sample_svc (Some d) put_world)"
    unfolding put_world_def by (simp add: svc_eval sample_eval d_def)
  obtain w2 presp where put: "PutMetadata sample_marshal sample_svc (Some (sample_put ''k'' ''b'' 0 (- 1))) w1 = (w2, Inr presp)"
    unfolding w1 put_world_def by (simp add: svc_eval sample_eval d_def)
  have "pg w2 (writePool sample_svc) (item_Key (sample_item ''k'' ''c'')) = Some (put_record (sample_item ''k'' ''b'') None) \<and>
    (case Tx_Commit (stores w2 (writePool sample_svc)) tx of (st, tx', e) \<Rightarrow>
       e = None \<and> map_of (entries st) (item_Key (sample_item ''k'' ''c'')) = Some newRec)"
    by (rule version_reused_after_delete [where r = "put_record (sample_item ''k'' ''v'') None", OF put_world_ok _ sample_wf _ _ _ _ del _ _ sample_wf put])
      (use stored staged in \<open>simp_all add: sample_svc_def sample_put_def sample_item_def put_record_def
        next_version_def d_def\<close>)
  then show ?thesis using staged
    by (auto simp: sample_svc_def sample_item_def split: prod.splits)
qed

end
