(* ===== verification/GrpcStub.thy ===== *)
theory GrpcStub
  imports MetadataService
begin

text \<open>
  The in-process RPC stub of \<open>internal/metadata/grpcstub/grpc.go\<close> and the client and handlers that
  \<open>internal/metadata/metadata.pb.go\<close> builds on it.

  A value of Go's \<open>any\<close> is nil, a pointer to a message, a nil pointer that has a message type, or
  something that is no pointer; \<open>reflect\<close>'s copy of one pointee over another panics on a nil
  pointer. A call ends by returning, by an error or by a panic (\<open>outcome\<close>); the handlers act on
  the \<open>World\<close> of the metadata service.
\<close>

section \<open>Dynamic values\<close>

datatype mtype = PutReqT | PutRespT | GetReqT | GetRespT | DelReqT | DelRespT | ListReqT | ListRespT

text \<open>The responses are created empty, \<open>new(PutMetadataResponse)\<close>, before they are filled in.\<close>

datatype message =
    PutReq PutMetadataRequest | PutResp "PutMetadataResponse option"
  | GetReq GetMetadataRequest | GetResp "GetMetadataResponse option"
  | DelReq DeleteMetadataRequest | DelResp "DeleteMetadataResponse option"
  | ListReq ListMetadataRequest | ListResp "ListMetadataResponse option"

fun mtype_of :: "message \<Rightarrow> mtype" where
  "mtype_of (PutReq _) = PutReqT" | "mtype_of (PutResp _) = PutRespT"
| "mtype_of (GetReq _) = GetReqT" | "mtype_of (GetResp _) = GetRespT"
| "mtype_of (DelReq _) = DelReqT" | "mtype_of (DelResp _) = DelRespT"
| "mtype_of (ListReq _) = ListReqT" | "mtype_of (ListResp _) = ListRespT"

datatype go_any = NilAny | Ptr message | NilPtr mtype | NonPtr string

fun type_of :: "go_any \<Rightarrow> mtype option" where
  "type_of (Ptr m) = Some (mtype_of m)"
| "type_of (NilPtr t) = Some t"
| "type_of _ = None"

datatype grpc_error =
    ConnectionClosed | MalformedMethod | UnknownService string | UnknownMethod string | MissingHandler
  | ArgsNotPointers | CannotDecode mtype mtype | ReplyNotPointer | CannotAssign mtype mtype
  | NotImplemented string | ServiceError svc_error

datatype 'a outcome = Ret 'a | Fail grpc_error | Panic

fun map_outcome :: "('a \<Rightarrow> 'b outcome) \<Rightarrow> 'a outcome \<Rightarrow> 'b outcome" where
  "map_outcome f (Ret a) = f a"
| "map_outcome f (Fail e) = Fail e"
| "map_outcome f Panic = Panic"

text \<open>\<open>dstVal.Elem().Set(srcVal.Elem())\<close> on pointers of one type.\<close>

fun set_elem :: "go_any \<Rightarrow> go_any \<Rightarrow> go_any outcome" where
  "set_elem (Ptr _) (Ptr m) = Ret (Ptr m)"
| "set_elem _ _ = Panic"

definition assign :: "grpc_error \<Rightarrow> (mtype \<Rightarrow> mtype \<Rightarrow> grpc_error) \<Rightarrow> go_any \<Rightarrow> go_any \<Rightarrow> go_any outcome" where
  "assign not_pointer mismatch dst src =
     (if dst = NilAny \<or> src = NilAny then Ret dst
      else case (type_of dst, type_of src) of
          (Some d, Some s) \<Rightarrow> if d \<noteq> s then Fail (mismatch s d) else set_elem dst src
        | _ \<Rightarrow> Fail not_pointer)"

section \<open>Services\<close>

text \<open>
  An implementation is the metadata service, the embedded default whose methods are not
  implemented, or a value that does not have the methods, on which the handlers' type assertion
  panics.
\<close>

datatype impl = ServiceImpl Service | UnimplementedServer | OtherImpl

record UnaryServerInfo =
  info_Server :: impl
  info_FullMethod :: string

type_synonym UnaryHandler = "go_any \<Rightarrow> World \<Rightarrow> World \<times> go_any outcome"
type_synonym UnaryServerInterceptor =
  "go_any \<Rightarrow> UnaryServerInfo \<Rightarrow> UnaryHandler \<Rightarrow> World \<Rightarrow> World \<times> go_any outcome"
type_synonym method_handler =
  "impl \<Rightarrow> (go_any \<Rightarrow> go_any outcome) \<Rightarrow> UnaryServerInterceptor option \<Rightarrow> World \<Rightarrow> World \<times> go_any outcome"

record MethodDesc =
  MethodName :: string
  Handler :: "method_handler option"

record ServiceDesc =
  ServiceName :: string
  Methods :: "MethodDesc list"

record registeredService =
  rs_desc :: ServiceDesc
  rs_impl :: impl

record grpc_Server =
  services :: "string \<rightharpoonup> registeredService"

definition NewServer :: grpc_Server where
  "NewServer = \<lparr>services = Map.empty\<rparr>"

definition RegisterService :: "ServiceDesc option \<Rightarrow> impl option \<Rightarrow> grpc_Server \<Rightarrow> grpc_Server outcome" where
  "RegisterService d i s =
     (case d of
        None \<Rightarrow> Panic
      | Some desc \<Rightarrow>
          (case i of
             None \<Rightarrow> Panic
           | Some im \<Rightarrow> Ret (s\<lparr>services := (services s)
               (ServiceName desc \<mapsto> \<lparr>rs_desc = desc, rs_impl = im\<rparr>)\<rparr>)))"

text \<open>A connection holds its server, nil when it was not made by \<open>NewInProcessConn\<close>.\<close>

type_synonym inProcessConn = "grpc_Server option"

definition NewInProcessConn :: "grpc_Server \<Rightarrow> inProcessConn" where
  "NewInProcessConn s = Some s"

fun split_slash :: "string \<Rightarrow> (string \<times> string) option" where
  "split_slash [] = None"
| "split_slash (c # cs) =
     (if c = CHR ''/'' then Some ([], cs)
      else map_option (\<lambda>(a, b). (c # a, b)) (split_slash cs))"

definition splitMethod :: "string \<Rightarrow> (string \<times> string) option" where
  "splitMethod fullMethod =
     (case fullMethod of
        [] \<Rightarrow> None
      | c # cs \<Rightarrow> if c \<noteq> CHR ''/'' then None else split_slash cs)"

definition stub_dec :: "go_any \<Rightarrow> go_any \<Rightarrow> go_any outcome" where
  "stub_dec args target = assign ArgsNotPointers CannotDecode target args"

definition stub_interceptor :: UnaryServerInterceptor where
  "stub_interceptor req info handler w = handler req w"

definition Invoke :: "inProcessConn \<Rightarrow> string \<Rightarrow> go_any \<Rightarrow> go_any \<Rightarrow> World \<Rightarrow> World \<times> go_any outcome" where
  "Invoke c method args reply w =
     (case c of
        None \<Rightarrow> (w, Fail ConnectionClosed)
      | Some server \<Rightarrow>
     (case splitMethod method of
        None \<Rightarrow> (w, Fail MalformedMethod)
      | Some (srvName, mthName) \<Rightarrow>
     (case services server srvName of
        None \<Rightarrow> (w, Fail (UnknownService srvName))
      | Some srv \<Rightarrow>
     (case find (\<lambda>md. MethodName md = mthName) (Methods (rs_desc srv)) of
        None \<Rightarrow> (w, Fail (UnknownMethod mthName))
      | Some md \<Rightarrow>
     (case Handler md of
        None \<Rightarrow> (w, Fail MissingHandler)
      | Some handle \<Rightarrow>
          (case handle (rs_impl srv) (stub_dec args) (Some stub_interceptor) w of
             (w, out) \<Rightarrow> (w, map_outcome (assign ReplyNotPointer CannotAssign reply) out)))))))"

section \<open>The metadata service behind the stub\<close>

text \<open>\<open>srv.(MetadataServiceServer).M(ctx, req.(*T))\<close> for the four methods.\<close>

definition reply_of :: "('r option \<Rightarrow> message) \<Rightarrow> svc_error + 'r \<Rightarrow> go_any outcome" where
  "reply_of f res = (case res of Inl e \<Rightarrow> Fail (ServiceError e) | Inr r \<Rightarrow> Ret (Ptr (f (Some r))))"

definition srv_PutMetadata :: "(MetadataItem \<Rightarrow> string option) \<Rightarrow> impl \<Rightarrow> UnaryHandler" where
  "srv_PutMetadata marshal srv req w =
     (case (srv, req) of
        (OtherImpl, _) \<Rightarrow> (w, Panic)
      | (UnimplementedServer, Ptr (PutReq r)) \<Rightarrow> (w, Fail (NotImplemented ''PutMetadata''))
      | (ServiceImpl svc, Ptr (PutReq r)) \<Rightarrow>
          (case PutMetadata marshal svc (Some r) w of (w, res) \<Rightarrow> (w, reply_of PutResp res))
      | _ \<Rightarrow> (w, Panic))"

definition srv_GetMetadata :: "impl \<Rightarrow> UnaryHandler" where
  "srv_GetMetadata srv req w =
     (case (srv, req) of
        (OtherImpl, _) \<Rightarrow> (w, Panic)
      | (UnimplementedServer, Ptr (GetReq r)) \<Rightarrow> (w, Fail (NotImplemented ''GetMetadata''))
      | (ServiceImpl svc, Ptr (GetReq r)) \<Rightarrow> (w, reply_of GetResp (GetMetadata svc (Some r) w))
      | _ \<Rightarrow> (w, Panic))"

definition srv_DeleteMetadata :: "impl \<Rightarrow> UnaryHandler" where
  "srv_DeleteMetadata srv req w =
     (case (srv, req) of
        (OtherImpl, _) \<Rightarrow> (w, Panic)
      | (UnimplementedServer, Ptr (DelReq r)) \<Rightarrow> (w, Fail (NotImplemented ''DeleteMetadata''))
      | (ServiceImpl svc, Ptr (DelReq r)) \<Rightarrow>
          (case DeleteMetadata svc (Some r) w of (w, res) \<Rightarrow> (w, reply_of DelResp res))
      | _ \<Rightarrow> (w, Panic))"

definition srv_ListMetadata :: "impl \<Rightarrow> UnaryHandler" where
  "srv_ListMetadata srv req w =
     (case (srv, req) of
        (OtherImpl, _) \<Rightarrow> (w, Panic)
      | (UnimplementedServer, Ptr (ListReq r)) \<Rightarrow> (w, Fail (NotImplemented ''ListMetadata''))
      | (ServiceImpl svc, Ptr (ListReq r)) \<Rightarrow> 
          (case ListMetadata svc (Some r) w of None \<Rightarrow> (w, Panic) | Some res \<Rightarrow> (w, reply_of ListResp res))
      | _ \<Rightarrow> (w, Panic))"

text \<open>
  The four generated handlers differ in the type of the request they make, the name they report
  and the method they call.
\<close>

definition service_method :: "string \<Rightarrow> string" where
  "service_method name = ''/metadata.v1.MetadataService/'' @ name"

definition unary_Handler :: "string \<Rightarrow> message \<Rightarrow> (impl \<Rightarrow> UnaryHandler) \<Rightarrow> method_handler" where
  "unary_Handler name new_in call srv dec interceptor w =
     (case dec (Ptr new_in) of
        Fail e \<Rightarrow> (w, Fail e)
      | Panic \<Rightarrow> (w, Panic)
      | Ret in' \<Rightarrow>
          (case interceptor of
             None \<Rightarrow> call srv in' w
           | Some icpt \<Rightarrow>
               icpt in' \<lparr>info_Server = srv, info_FullMethod = service_method name\<rparr> (call srv) w))"

definition PutMetadata_Handler :: "(MetadataItem \<Rightarrow> string option) \<Rightarrow> method_handler" where
  "PutMetadata_Handler marshal = unary_Handler ''PutMetadata''
     (PutReq \<lparr>put_Item = None, put_ExpectedVersion = 0, put_ExpectedEtcdRevision = 0\<rparr>) (srv_PutMetadata marshal)"

definition GetMetadata_Handler :: method_handler where
  "GetMetadata_Handler = unary_Handler ''GetMetadata'' (GetReq \<lparr>get_Key = []\<rparr>) srv_GetMetadata"

definition DeleteMetadata_Handler :: method_handler where
  "DeleteMetadata_Handler = unary_Handler ''DeleteMetadata''
     (DelReq \<lparr>del_Key = [], del_ExpectedVersion = 0, del_ExpectedEtcdRevision = 0\<rparr>) srv_DeleteMetadata"

definition ListMetadata_Handler :: method_handler where
  "ListMetadata_Handler = unary_Handler ''ListMetadata''
     (ListReq \<lparr>list_Prefix = [], list_Limit = 0, list_PageToken = []\<rparr>) srv_ListMetadata"

definition MetadataService_ServiceDesc :: "(MetadataItem \<Rightarrow> string option) \<Rightarrow> ServiceDesc" where
  "MetadataService_ServiceDesc marshal =
     \<lparr>ServiceName = ''metadata.v1.MetadataService'',
      Methods =
       [\<lparr>MethodName = ''PutMetadata'', Handler = Some (PutMetadata_Handler marshal)\<rparr>,
        \<lparr>MethodName = ''GetMetadata'', Handler = Some GetMetadata_Handler\<rparr>,
        \<lparr>MethodName = ''DeleteMetadata'', Handler = Some DeleteMetadata_Handler\<rparr>,
        \<lparr>MethodName = ''ListMetadata'', Handler = Some ListMetadata_Handler\<rparr>]\<rparr>"

definition RegisterMetadataServiceServer :: "(MetadataItem \<Rightarrow> string option) \<Rightarrow> impl option \<Rightarrow>
    grpc_Server \<Rightarrow> grpc_Server outcome" where
  "RegisterMetadataServiceServer marshal srv s =
     (if srv = None then Panic else RegisterService (Some (MetadataService_ServiceDesc marshal)) srv s)"

section \<open>The client\<close>

text \<open>Each client method invokes its method with a new response and returns what was filled in.\<close>

definition pointer :: "mtype \<Rightarrow> ('r \<Rightarrow> message) \<Rightarrow> 'r option \<Rightarrow> go_any" where
  "pointer t f x = (case x of None \<Rightarrow> NilPtr t | Some r \<Rightarrow> Ptr (f r))"

definition client_PutMetadata :: "inProcessConn \<Rightarrow> PutMetadataRequest option \<Rightarrow> World \<Rightarrow>
    World \<times> PutMetadataResponse option outcome" where
  "client_PutMetadata cc req w =
     (case Invoke cc ''/metadata.v1.MetadataService/PutMetadata'' (pointer PutReqT PutReq req)
             (Ptr (PutResp None)) w of
        (w, res) \<Rightarrow> (w, map_outcome (\<lambda>out. case out of Ptr (PutResp r) \<Rightarrow> Ret r | _ \<Rightarrow> Panic) res))"

definition client_GetMetadata :: "inProcessConn \<Rightarrow> GetMetadataRequest option \<Rightarrow> World \<Rightarrow>
    World \<times> GetMetadataResponse option outcome" where
  "client_GetMetadata cc req w =
     (case Invoke cc ''/metadata.v1.MetadataService/GetMetadata'' (pointer GetReqT GetReq req)
             (Ptr (GetResp None)) w of
        (w, res) \<Rightarrow> (w, map_outcome (\<lambda>out. case out of Ptr (GetResp r) \<Rightarrow> Ret r | _ \<Rightarrow> Panic) res))"

definition client_DeleteMetadata :: "inProcessConn \<Rightarrow> DeleteMetadataRequest option \<Rightarrow> World \<Rightarrow>
    World \<times> DeleteMetadataResponse option outcome" where
  "client_DeleteMetadata cc req w =
     (case Invoke cc ''/metadata.v1.MetadataService/DeleteMetadata'' (pointer DelReqT DelReq req)
             (Ptr (DelResp None)) w of
        (w, res) \<Rightarrow> (w, map_outcome (\<lambda>out. case out of Ptr (DelResp r) \<Rightarrow> Ret r | _ \<Rightarrow> Panic) res))"

definition client_ListMetadata :: "inProcessConn \<Rightarrow> ListMetadataRequest option \<Rightarrow> World \<Rightarrow>
    World \<times> ListMetadataResponse option outcome" where
  "client_ListMetadata cc req w =
     (case Invoke cc ''/metadata.v1.MetadataService/ListMetadata'' (pointer ListReqT ListReq req)
             (Ptr (ListResp None)) w of
        (w, res) \<Rightarrow> (w, map_outcome (\<lambda>out. case out of Ptr (ListResp r) \<Rightarrow> Ret r | _ \<Rightarrow> Panic) res))"

section \<open>Dispatch\<close>

text \<open>\<open>splitMethod\<close> cuts \<open>/service/method\<close> at the first slash after the leading one.\<close>

lemma split_slash_iff: "split_slash s = Some (a, b) \<longleftrightarrow> s = a @ ''/'' @ b \<and> CHR ''/'' \<notin> set a"
proof (induction s arbitrary: a)
  case Nil
  then show ?case by simp
next
  case (Cons c cs)
  show ?case
  proof (cases "c = CHR ''/''")
    case True
    then show ?thesis by (cases a) auto
  next
    case False
    have "split_slash (c # cs) = Some (a, b) \<longleftrightarrow> (\<exists>a'. a = c # a' \<and> split_slash cs = Some (a', b))"
      using False by auto
    also have "\<dots> \<longleftrightarrow> c # cs = a @ ''/'' @ b \<and> CHR ''/'' \<notin> set a"
      using False unfolding Cons.IH by (cases a) auto
    finally show ?thesis .
  qed
qed

lemma splitMethod_iff:
  "splitMethod s = Some (a, b) \<longleftrightarrow> s = ''/'' @ a @ ''/'' @ b \<and> CHR ''/'' \<notin> set a"
  by (cases s) (auto simp: splitMethod_def split_slash_iff)

lemma splitMethod_method [simp]:
  "CHR ''/'' \<notin> set a \<Longrightarrow> splitMethod (CHR ''/'' # a @ CHR ''/'' # b) = Some (a, b)"
  by (simp add: splitMethod_iff)

text \<open>A registered server answers by the handler of the method that was named.\<close>

lemma Invoke_registered:
  assumes "RegisterService (Some d) (Some im) s0 = Ret s" and "CHR ''/'' \<notin> set (ServiceName d)"
    and "find (\<lambda>md. MethodName md = name) (Methods d) = Some md" and "Handler md = Some handle"
  shows "Invoke (NewInProcessConn s) (''/'' @ ServiceName d @ ''/'' @ name) args reply w =
    (case handle im (stub_dec args) (Some stub_interceptor) w of
       (w, out) \<Rightarrow> (w, map_outcome (assign ReplyNotPointer CannotAssign reply) out))"
  using assms by (auto simp: Invoke_def NewInProcessConn_def RegisterService_def)

section \<open>The stub is transparent\<close>

abbreviation (input) served :: "(MetadataItem \<Rightarrow> string option) \<Rightarrow> Service \<Rightarrow> grpc_Server \<Rightarrow> grpc_Server \<Rightarrow> bool" where
  "served marshal svc s0 s \<equiv> RegisterMetadataServiceServer marshal (Some (ServiceImpl svc)) s0 = Ret s"

lemma Invoke_service:
  assumes "served marshal svc s0 s"
    and "find (\<lambda>md. MethodName md = name) (Methods (MetadataService_ServiceDesc marshal)) =
      Some \<lparr>MethodName = name, Handler = Some (unary_Handler name new_in call)\<rparr>"
  shows "Invoke (NewInProcessConn s) (service_method name) args reply w =
    (case map_outcome Ret (stub_dec args (Ptr new_in)) of
       Ret req \<Rightarrow> (case call (ServiceImpl svc) req w of
           (w, out) \<Rightarrow> (w, map_outcome (assign ReplyNotPointer CannotAssign reply) out))
     | Fail e \<Rightarrow> (w, Fail e)
     | Panic \<Rightarrow> (w, Panic))"
proof -
  have "RegisterService (Some (MetadataService_ServiceDesc marshal)) (Some (ServiceImpl svc)) s0 = Ret s"
    and "CHR ''/'' \<notin> set (ServiceName (MetadataService_ServiceDesc marshal))"
    using assms(1) by (simp_all add: RegisterMetadataServiceServer_def MetadataService_ServiceDesc_def)
  note Invoke_registered [OF this assms(2), of _ args reply w]
  then show ?thesis
    by (cases "stub_dec args (Ptr new_in)")
      (simp_all add: service_method_def MetadataService_ServiceDesc_def unary_Handler_def stub_interceptor_def
        split: prod.split)
qed

lemma service_methods:
  "''/metadata.v1.MetadataService/PutMetadata'' = service_method ''PutMetadata''"
  "''/metadata.v1.MetadataService/GetMetadata'' = service_method ''GetMetadata''"
  "''/metadata.v1.MetadataService/DeleteMetadata'' = service_method ''DeleteMetadata''"
  "''/metadata.v1.MetadataService/ListMetadata'' = service_method ''ListMetadata''"
  by (simp_all add: service_method_def)

lemma find_methods:
  "find (\<lambda>md. MethodName md = ''PutMetadata'') (Methods (MetadataService_ServiceDesc marshal)) =
     Some \<lparr>MethodName = ''PutMetadata'', Handler = Some (PutMetadata_Handler marshal)\<rparr>"
  "find (\<lambda>md. MethodName md = ''GetMetadata'') (Methods (MetadataService_ServiceDesc marshal)) =
     Some \<lparr>MethodName = ''GetMetadata'', Handler = Some GetMetadata_Handler\<rparr>"
  "find (\<lambda>md. MethodName md = ''DeleteMetadata'') (Methods (MetadataService_ServiceDesc marshal)) =
     Some \<lparr>MethodName = ''DeleteMetadata'', Handler = Some DeleteMetadata_Handler\<rparr>"
  "find (\<lambda>md. MethodName md = ''ListMetadata'') (Methods (MetadataService_ServiceDesc marshal)) =
     Some \<lparr>MethodName = ''ListMetadata'', Handler = Some ListMetadata_Handler\<rparr>"
  by (simp_all add: MetadataService_ServiceDesc_def)

lemmas invoke_methods =
  Invoke_service [OF _ find_methods(1) [unfolded PutMetadata_Handler_def], folded service_methods]
  Invoke_service [OF _ find_methods(2) [unfolded GetMetadata_Handler_def], folded service_methods]
  Invoke_service [OF _ find_methods(3) [unfolded DeleteMetadata_Handler_def], folded service_methods]
  Invoke_service [OF _ find_methods(4) [unfolded ListMetadata_Handler_def], folded service_methods]

lemmas stub_eval = pointer_def stub_dec_def assign_def reply_of_def

text \<open>What a client sees of the result of a service call.\<close>

definition via_stub :: "svc_error + 'r \<Rightarrow> 'r option outcome" where
  "via_stub res = (case res of Inl e \<Rightarrow> Fail (ServiceError e) | Inr r \<Rightarrow> Ret (Some r))"

text \<open>
  C22: Calling the metadata service through the stub is calling it: on a connection to a server at
  which the service is registered, whatever else is, each of the four client methods returns for a
  non-nil request the response or the error that the service's own method returns, and leaves the
  world that the method leaves.
\<close>

theorem client_calls_service:
  assumes "RegisterMetadataServiceServer marshal (Some (ServiceImpl svc)) s0 = Ret s"
  shows "client_PutMetadata (NewInProcessConn s) (Some p) w =
      apsnd via_stub (PutMetadata marshal svc (Some p) w) \<and>
    client_GetMetadata (NewInProcessConn s) (Some g) w = (w, via_stub (GetMetadata svc (Some g) w)) \<and>
    client_DeleteMetadata (NewInProcessConn s) (Some d) w =
      apsnd via_stub (DeleteMetadata svc (Some d) w) \<and>
    (\<exists>res. ListMetadata svc (Some l) w = Some res \<and>
       client_ListMetadata (NewInProcessConn s) (Some l) w = (w, via_stub res))"
proof (intro conjI)
  note calls = invoke_methods [OF assms]
  show "client_PutMetadata (NewInProcessConn s) (Some p) w = apsnd via_stub (PutMetadata marshal svc (Some p) w)"
    unfolding client_PutMetadata_def calls
    by (simp add: stub_eval srv_PutMetadata_def via_stub_def split: prod.split sum.split)
  show "client_GetMetadata (NewInProcessConn s) (Some g) w = (w, via_stub (GetMetadata svc (Some g) w))"
    unfolding client_GetMetadata_def calls
    by (simp add: stub_eval srv_GetMetadata_def via_stub_def split: prod.split sum.split)
  show "client_DeleteMetadata (NewInProcessConn s) (Some d) w = apsnd via_stub (DeleteMetadata svc (Some d) w)"
    unfolding client_DeleteMetadata_def calls
    by (simp add: stub_eval srv_DeleteMetadata_def via_stub_def split: prod.split sum.split)
  obtain res where res: "ListMetadata svc (Some l) w = Some res" by (metis ListMetadata_returns(1) not_None_eq)
  have "client_ListMetadata (NewInProcessConn s) (Some l) w = (w, via_stub res)"
    unfolding client_ListMetadata_def calls
    by (simp add: stub_eval srv_ListMetadata_def res via_stub_def split: prod.split sum.split)
  with res show "\<exists>res. ListMetadata svc (Some l) w = Some res \<and>
      client_ListMetadata (NewInProcessConn s) (Some l) w = (w, via_stub res)" by blast
qed

definition sample_server :: grpc_Server where
  "sample_server = \<lparr>services = [''metadata.v1.MetadataService'' \<mapsto>
     \<lparr>rs_desc = MetadataService_ServiceDesc sample_marshal, rs_impl = ServiceImpl sample_svc\<rparr>]\<rparr>"

lemma sample_served: "served sample_marshal sample_svc NewServer sample_server"
  by (simp add: RegisterMetadataServiceServer_def RegisterService_def MetadataService_ServiceDesc_def
      NewServer_def sample_server_def)

lemma client_calls_service_witness:
  "client_PutMetadata (NewInProcessConn sample_server) (Some (sample_put ''k'' ''v'' 0 (- 1))) empty_world =
     (put_world, Ret (Some \<lparr>putr_Item = (sample_item ''k'' ''v'')\<lparr>item_Version := 1\<rparr>, putr_EtcdRevision = 1\<rparr>))"
  using client_calls_service [OF sample_served, of "sample_put ''k'' ''v'' 0 (- 1)" empty_world]
  by (simp add: PutMetadata_put_world via_stub_def)

text \<open>
  A nil request is not passed on but panics in the stub, whose decoder copies the pointee of a
  nil pointer; the service itself, called directly, returns an error for it, except
  \<open>ListMetadata\<close>, which dereferences the request first and panics too.
\<close>

theorem nil_request_panics:
  assumes "RegisterMetadataServiceServer marshal (Some (ServiceImpl svc)) s0 = Ret s"
  shows "client_PutMetadata (NewInProcessConn s) None w = (w, Panic) \<and>
    client_GetMetadata (NewInProcessConn s) None w = (w, Panic) \<and>
    client_DeleteMetadata (NewInProcessConn s) None w = (w, Panic) \<and>
    client_ListMetadata (NewInProcessConn s) None w = (w, Panic) \<and>
    PutMetadata marshal svc None w = (w, Inl ItemRequired) \<and>
    GetMetadata svc None w = Inl KeyRequired \<and> DeleteMetadata svc None w = (w, Inl KeyRequired) \<and>
    ListMetadata svc None w = None"
  unfolding client_PutMetadata_def client_GetMetadata_def client_DeleteMetadata_def client_ListMetadata_def
    invoke_methods [OF assms]
  by (simp add: stub_eval PutMetadata_def GetMetadata_def DeleteMetadata_def)

lemma nil_request_panics_witness:
  "client_GetMetadata (NewInProcessConn sample_server) None empty_world = (empty_world, Panic) \<and>
   GetMetadata sample_svc None empty_world = Inl KeyRequired"
  using nil_request_panics [OF sample_served, of empty_world] by blast

section \<open>Types of calls\<close>

text \<open>The types of the request and of the response of each method.\<close>

definition method_types :: "string \<Rightarrow> (mtype \<times> mtype) option" where
  "method_types = map_of
     [(''PutMetadata'', (PutReqT, PutRespT)), (''GetMetadata'', (GetReqT, GetRespT)),
      (''DeleteMetadata'', (DelReqT, DelRespT)), (''ListMetadata'', (ListReqT, ListRespT))]"

lemma reply_typed:
  assumes "\<And>x. mtype_of (f x) = tr"
  shows "map_outcome (assign ReplyNotPointer CannotAssign (Ptr r)) (reply_of f res) =
    (case res of Inl e \<Rightarrow> Fail (ServiceError e)
     | Inr x \<Rightarrow> if mtype_of r \<noteq> tr then Fail (CannotAssign tr (mtype_of r)) else Ret (Ptr (f (Some x))))"
  using assms by (simp add: reply_of_def assign_def split: sum.split)

text \<open>
  C24: Calls through the stub are type-safe, whatever messages a caller passes: a request of
  another type is refused before the method runs; otherwise the call fails with the service's own
  error, or with an assignment error when the reply has another type (the method has run then),
  or fills the reply with a message of the method's response type. No call panics.
\<close>

theorem calls_well_typed:
  assumes "RegisterMetadataServiceServer marshal (Some (ServiceImpl svc)) s0 = Ret s"
    and "method_types name = Some (tq, tr)"
  shows "case Invoke (NewInProcessConn s) (service_method name) (Ptr a) (Ptr r) w of (w', out) \<Rightarrow>
    if mtype_of a \<noteq> tq then w' = w \<and> out = Fail (CannotDecode (mtype_of a) tq)
    else (\<exists>e. out = Fail (ServiceError e)) \<or>
      (if mtype_of r \<noteq> tr then out = Fail (CannotAssign tr (mtype_of r))
       else \<exists>m. out = Ret (Ptr m) \<and> mtype_of m = tr)"
proof -
  note calls = invoke_methods [OF assms(1), folded service_methods]
  consider "name = ''PutMetadata''" "tq = PutReqT" "tr = PutRespT" | "name = ''GetMetadata''" "tq = GetReqT" "tr = GetRespT"
    | "name = ''DeleteMetadata''" "tq = DelReqT" "tr = DelRespT" | "name = ''ListMetadata''" "tq = ListReqT" "tr = ListRespT"
    using assms(2) by (auto simp: method_types_def split: if_splits)
  then show ?thesis
  proof cases
    case 1
    show ?thesis unfolding 1 service_methods [symmetric] calls
      by (cases a) (auto simp: stub_dec_def assign_def srv_PutMetadata_def reply_typed [of PutResp PutRespT]
          split: prod.splits sum.splits)
  next
    case 2
    show ?thesis unfolding 2 service_methods [symmetric] calls
      by (cases a) (auto simp: stub_dec_def assign_def srv_GetMetadata_def reply_typed [of GetResp GetRespT]
          split: prod.splits sum.splits)
  next
    case 3
    show ?thesis unfolding 3 service_methods [symmetric] calls
      by (cases a) (auto simp: stub_dec_def assign_def srv_DeleteMetadata_def reply_typed [of DelResp DelRespT]
          split: prod.splits sum.splits)
  next
    case 4
    show ?thesis unfolding 4 service_methods [symmetric] calls
      by (cases a) (auto simp: stub_dec_def assign_def srv_ListMetadata_def reply_typed [of ListResp ListRespT]
          split: prod.splits sum.splits option.splits)
  qed
qed

lemma calls_well_typed_witness:
  "Invoke (NewInProcessConn sample_server) (service_method ''PutMetadata'') (Ptr (GetReq \<lparr>get_Key = ''k''\<rparr>))
     (Ptr (PutResp None)) empty_world = (empty_world, Fail (CannotDecode GetReqT PutReqT))"
proof -
  have "method_types ''PutMetadata'' = Some (PutReqT, PutRespT)" by (simp add: method_types_def)
  from calls_well_typed [where a = "GetReq \<lparr>get_Key = ''k''\<rparr>" and r = "PutResp None" and w = empty_world, OF sample_served this]
  show ?thesis by (simp split: prod.splits)
qed

section \<open>Calls that reach no method\<close>

definition dispatches :: "inProcessConn \<Rightarrow> string \<Rightarrow> bool" where
  "dispatches c method = (case c of
     None \<Rightarrow> False
   | Some server \<Rightarrow> (case splitMethod method of
       None \<Rightarrow> False
     | Some (srvName, mthName) \<Rightarrow> (case services server srvName of
         None \<Rightarrow> False
       | Some srv \<Rightarrow> (case find (\<lambda>md. MethodName md = mthName) (Methods (rs_desc srv)) of
           None \<Rightarrow> False
         | Some md \<Rightarrow> Handler md \<noteq> None))))"

lemma Invoke_undispatched:
  "\<not> dispatches c method \<Longrightarrow> \<exists>e. Invoke c method args reply w = (w, Fail e)"
  by (auto simp: Invoke_def dispatches_def split: option.split)

section \<open>EncodeMetadataItem\<close>

text \<open>
  \<open>fmt.Sprintf("%v", attrs)\<close> prints the pairs sorted by key. Values are not quoted, so a newline
  in a value can pass for the end of it.
\<close>

fun join_pairs :: "(string \<times> string) list \<Rightarrow> string" where
  "join_pairs [] = []"
| "join_pairs [(k, v)] = k @ '':'' @ v"
| "join_pairs ((k, v) # ps) = k @ '':'' @ v @ '' '' @ join_pairs ps"

definition EncodeMetadataItem :: "MetadataItem option \<Rightarrow> string option" where
  "EncodeMetadataItem x =
     (case x of
        None \<Rightarrow> None
      | Some item \<Rightarrow>
          let attrs = copy_map (item_Attributes item)
          in Some (item_Value item @ ''\<newline>'' @ print_int (sint (item_Version item)) @ ''\<newline>'' @
               ''map['' @ join_pairs (sort_key fst attrs) @ '']''))"

lemma EncodeMetadataItem_order:
  assumes "wf_map (item_Attributes i)" and "wf_map as" and "mset as = mset (item_Attributes i)"
  shows "EncodeMetadataItem (Some (i\<lparr>item_Attributes := as\<rparr>)) = EncodeMetadataItem (Some i)"
proof -
  have "inj_on fst (set as)" using assms(2) by (simp add: wf_map_def distinct_map)
  with sort_key_cong_mset [of as "item_Attributes i" fst] assms
  show ?thesis by (simp add: EncodeMetadataItem_def)
qed

lemma EncodeMetadataItem_ambiguous:
  "EncodeMetadataItem (Some \<lparr>item_Key = k, item_Value = ''a'',
      item_Attributes = [(''k'', ''x\<newline>2\<newline>map['')], item_Version = 1\<rparr>) =
   EncodeMetadataItem (Some \<lparr>item_Key = k, item_Value = ''a\<newline>1\<newline>map[k:x'',
      item_Attributes = [], item_Version = 2\<rparr>)"
proof -
  have "itoa 1 = ''1''" and "itoa 2 = ''2''" by code_simp+
  then show ?thesis by (simp add: EncodeMetadataItem_def print_int_def copy_map_def)
qed

end
