(* ===== verification/Chash.thy ===== *)
theory Chash
  imports Prelude
begin

text \<open>
  The consistent-hash ring of \<open>internal/chash/ring.go\<close>: virtual-node tokens sorted by their
  64-bit hash, and the clockwise walk that finds the replicas of a key.

  SHA-1 is the argument \<open>sha1\<close> and the sorting routine behind \<open>sort.Slice\<close> the argument
  \<open>srt\<close> of the definitions that use them: nothing here depends on which digest is computed,
  and of the sort only the contract \<open>slice_sort\<close> is used, since tokens with equal hashes may
  come out in any order.
\<close>

unbundle bit_operations_syntax

section \<open>The ring and its operations\<close>

record Token =
  Hash :: u64
  Node :: string

record Ring =
  vnodes :: int
  tokens :: "Token list"

definition NewRing :: "int \<Rightarrow> Ring" where
  "NewRing v = \<lparr>vnodes = (if v \<le> 0 then 100 else v), tokens = []\<rparr>"

text \<open>\<open>binary.BigEndian.Uint64\<close> of the first eight bytes of the digest.\<close>

definition be_uint64 :: "byte list \<Rightarrow> u64" where
  "be_uint64 bs = foldl (\<lambda>acc b. push_bit 8 acc OR ucast b) 0 bs"

definition Ring_hash :: "(string \<Rightarrow> byte list) \<Rightarrow> string \<Rightarrow> u64" where
  "Ring_hash sha1 b = be_uint64 (take 8 (sha1 b))"

definition vnode_tokens :: "(string \<Rightarrow> byte list) \<Rightarrow> int \<Rightarrow> string \<Rightarrow> Token list" where
  "vnode_tokens sha1 v nodeID =
     map (\<lambda>i. \<lparr>Hash = Ring_hash sha1 (nodeID @ ''#'' @ itoa i), Node = nodeID\<rparr>) [0..<nat v]"

definition Ring_AddNode ::
  "(string \<Rightarrow> byte list) \<Rightarrow> (Token list \<Rightarrow> Token list) \<Rightarrow> Ring \<Rightarrow> string \<Rightarrow> Ring" where
  "Ring_AddNode sha1 srt r nodeID =
     r\<lparr>tokens := srt (tokens r @ vnode_tokens sha1 (vnodes r) nodeID)\<rparr>"

definition Ring_RemoveNode :: "Ring \<Rightarrow> string \<Rightarrow> Ring" where
  "Ring_RemoveNode r nodeID = r\<lparr>tokens := filter (\<lambda>t. Node t \<noteq> nodeID) (tokens r)\<rparr>"

text \<open>\<open>sort.Search\<close>: the binary search for the first index at which \<open>f\<close> holds.\<close>

function search_loop :: "(nat \<Rightarrow> bool) \<Rightarrow> nat \<Rightarrow> nat \<Rightarrow> nat" where
  "search_loop f i j =
     (if i < j then
        let h = (i + j) div 2
        in if \<not> f h then search_loop f (h + 1) j else search_loop f i h
      else i)"
  by pat_completeness auto
termination
  by (relation "measure (\<lambda>(f, i, j). j - i)") auto

declare search_loop.simps [simp del]

definition sort_Search :: "nat \<Rightarrow> (nat \<Rightarrow> bool) \<Rightarrow> nat" where
  "sort_Search n f = search_loop f 0 n"

text \<open>The loop of \<open>Lookup\<close>: step \<open>k\<close> of the walk from \<open>i\<close>, skipping nodes already seen.\<close>

function lookup_loop ::
  "Token list \<Rightarrow> nat \<Rightarrow> int \<Rightarrow> nat \<Rightarrow> string set \<Rightarrow> string list \<Rightarrow> string list" where
  "lookup_loop ts i replicas k seen out =
     (if int (length out) < replicas \<and> k < length ts then
        let n = Node (ts ! ((i + k) mod length ts))
        in if n \<in> seen then lookup_loop ts i replicas (k + 1) seen out
           else lookup_loop ts i replicas (k + 1) (insert n seen) (out @ [n])
      else out)"
  by pat_completeness auto
termination
  by (relation "measure (\<lambda>(ts, i, replicas, k, seen, out). length ts - k)") auto

declare lookup_loop.simps [simp del]

text \<open>
  A count of replicas so large that the capacity of \<open>out\<close> cannot be allocated, at which Go panics,
  is outside the model, whose lists have no capacity.
\<close>

definition Ring_Lookup :: "(string \<Rightarrow> byte list) \<Rightarrow> Ring \<Rightarrow> string \<Rightarrow> int \<Rightarrow> string list" where
  "Ring_Lookup sha1 r key replicas =
     (if replicas \<le> 0 \<or> tokens r = [] then []
      else
        let h = Ring_hash sha1 key;
            i = sort_Search (length (tokens r)) (\<lambda>i. h \<le> Hash (tokens r ! i));
            i = (if i = length (tokens r) then 0 else i)
        in lookup_loop (tokens r) i replicas 0 {} [])"

definition Ring_Tokens :: "Ring \<Rightarrow> Token list" where
  "Ring_Tokens r = tokens r"

section \<open>The binary search\<close>

definition boundary :: "(nat \<Rightarrow> bool) \<Rightarrow> nat \<Rightarrow> nat \<Rightarrow> bool" where
  "boundary f n r \<longleftrightarrow> r \<le> n \<and> (\<forall>a < r. \<not> f a) \<and> (\<forall>a. r \<le> a \<and> a < n \<longrightarrow> f a)"

lemma search_loop_boundary:
  assumes mono: "\<And>a b. a \<le> b \<Longrightarrow> b < n \<Longrightarrow> f a \<Longrightarrow> f b"
  shows "i \<le> j \<Longrightarrow> j \<le> n \<Longrightarrow> (\<forall>a < i. \<not> f a) \<Longrightarrow> (\<forall>a. j \<le> a \<and> a < n \<longrightarrow> f a)
    \<Longrightarrow> boundary f n (search_loop f i j)"
  using mono
proof (induction f i j rule: search_loop.induct)
  case (1 f i j)
  show ?case
  proof (cases "i < j")
    case False
    then have "search_loop f i j = i" by (subst search_loop.simps) simp
    with False "1.prems"(1-4) show ?thesis by (auto simp: boundary_def)
  next
    case True
    define h where "h = (i + j) div 2"
    from True have h: "i \<le> h" "h < j" by (auto simp: h_def)
    have step: "search_loop f i j = (if f h then search_loop f i h else search_loop f (h + 1) j)"
      using True by (subst search_loop.simps) (simp add: h_def Let_def)
    show ?thesis
    proof (cases "f h")
      case hit: True
      have "\<forall>a. h \<le> a \<and> a < n \<longrightarrow> f a" using hit "1.prems"(5) by blast
      then have "boundary f n (search_loop f i h)"
        using "1.IH"(2) [OF True h_def] hit h "1.prems" by simp
      with step hit show ?thesis by simp
    next
      case miss: False
      have "\<forall>a < h + 1. \<not> f a"
        using miss "1.prems"(5) [of _ h] h "1.prems"(2) by (metis le_less_trans less_add_one
            less_eq_Suc_le Suc_eq_plus1 less_Suc_eq_le order_less_le_trans)
      then have "boundary f n (search_loop f (h + 1) j)"
        using "1.IH"(1) [OF True h_def] miss h "1.prems" by simp
      with step miss show ?thesis by simp
    qed
  qed
qed

text \<open>On a monotone predicate the search returns the boundary between misses and hits.\<close>

lemma sort_Search_boundary:
  assumes "\<And>a b. a \<le> b \<Longrightarrow> b < n \<Longrightarrow> f a \<Longrightarrow> f b"
  shows "boundary f n (sort_Search n f)"
  unfolding sort_Search_def by (rule search_loop_boundary) (use assms in auto)

section \<open>The clockwise walk\<close>

lemma lookup_loop_uniq:
  "lookup_loop ts i replicas k seen out =
     out @ take (nat replicas - length out)
       (filter (\<lambda>n. n \<notin> seen)
         (uniq (map (\<lambda>m. Node (ts ! ((i + m) mod length ts))) [k..<length ts])))"
proof (induction ts i replicas k seen out rule: lookup_loop.induct)
  case (1 ts i replicas k seen out)
  let ?w = "\<lambda>k. map (\<lambda>m. Node (ts ! ((i + m) mod length ts))) [k..<length ts]"
  show ?case
  proof (cases "int (length out) < replicas \<and> k < length ts")
    case False
    then show ?thesis
      by (auto simp: lookup_loop.simps [of ts i replicas k seen out])
  next
    case True
    define n where "n = Node (ts ! ((i + k) mod length ts))"
    from True have w: "?w k = n # ?w (k + 1)"
      by (simp add: upt_conv_Cons n_def)
    have room: "nat replicas - length out = Suc (nat replicas - Suc (length out))"
      using True by linarith
    show ?thesis
    proof (cases "n \<in> seen")
      case seen: True
      have "filter (\<lambda>m. m \<noteq> n \<and> m \<notin> seen) (uniq (?w (k + 1)))
          = filter (\<lambda>m. m \<notin> seen) (uniq (?w (k + 1)))"
        using seen by (intro filter_cong) auto
      with "1.IH"(1) [OF True n_def seen] True seen w show ?thesis
        by (simp add: lookup_loop.simps [of ts i replicas k seen out] n_def [symmetric])
    next
      case new: False
      with "1.IH"(2) [OF True n_def new] True w room show ?thesis
        by (simp add: lookup_loop.simps [of ts i replicas k seen out] n_def [symmetric])
    qed
  qed
qed

text \<open>\<open>clockwise h ts\<close>: the tokens from the first hash at or after \<open>h\<close>, around the ring.\<close>

definition clockwise :: "u64 \<Rightarrow> Token list \<Rightarrow> Token list" where
  "clockwise h ts = filter (\<lambda>t. h \<le> Hash t) ts @ filter (\<lambda>t. Hash t < h) ts"

definition ring_nodes :: "Ring \<Rightarrow> string set" where
  "ring_nodes r = Node ` set (tokens r)"

lemma walk_rotate:
  "map (\<lambda>m. Node (ts ! ((i + m) mod length ts))) [0..<length ts] = map Node (rotate i ts)"
  by (rule nth_equalityI) (simp_all add: nth_rotate)

lemma Ring_Lookup_rotate:
  "\<exists>i. Ring_Lookup sha1 r key replicas = take (nat replicas) (uniq (map Node (rotate i (tokens r))))"
proof (cases "replicas \<le> 0 \<or> tokens r = []")
  case True
  then show ?thesis by (auto simp: Ring_Lookup_def)
next
  case False
  define i where "i = sort_Search (length (tokens r)) (\<lambda>i. Ring_hash sha1 key \<le> Hash (tokens r ! i))"
  from False show ?thesis
    by (intro exI [of _ "if i = length (tokens r) then 0 else i"])
      (simp add: Ring_Lookup_def Let_def lookup_loop_uniq walk_rotate flip: i_def)
qed

lemma rotate_boundary:
  fixes h :: u64
  assumes "sorted (map Hash ts)" and "ts \<noteq> []"
  defines "i \<equiv> sort_Search (length ts) (\<lambda>i. h \<le> Hash (ts ! i))"
  shows "rotate (if i = length ts then 0 else i) ts = clockwise h ts"
proof -
  have mono: "h \<le> Hash (ts ! a) \<Longrightarrow> h \<le> Hash (ts ! b)" if "a \<le> b" "b < length ts" for a b
    using that sorted_nth_mono [OF assms(1), of a b] by simp
  have i: "boundary (\<lambda>i. h \<le> Hash (ts ! i)) (length ts) i"
    unfolding i_def by (rule sort_Search_boundary) (rule mono)
  have low: "\<forall>t \<in> set (take i ts). Hash t < h" and high: "\<forall>t \<in> set (drop i ts). h \<le> Hash t"
    using i by (auto simp: boundary_def in_set_conv_nth not_le)
  have split: "filter P ts = filter P (take i ts) @ filter P (drop i ts)" for P
    by (metis append_take_drop_id filter_append)
  have "clockwise h ts = drop i ts @ take i ts"
    unfolding clockwise_def split [of "\<lambda>t. h \<le> Hash t"] split [of "\<lambda>t. Hash t < h"]
    using low high by (simp add: filter_empty_conv not_le not_less)
  moreover have "rotate (if i = length ts then 0 else i) ts = drop i ts @ take i ts"
    using i assms(2) by (auto simp: boundary_def rotate_drop_take)
  ultimately show ?thesis by simp
qed

text \<open>On a sorted ring the loops of \<open>Lookup\<close> compute the first nodes of the clockwise walk.\<close>

lemma Ring_Lookup_clockwise:
  assumes "sorted (map Hash (tokens r))"
  shows "Ring_Lookup sha1 r key replicas =
    take (nat replicas) (uniq (map Node (clockwise (Ring_hash sha1 key) (tokens r))))"
proof (cases "replicas \<le> 0 \<or> tokens r = []")
  case True
  then show ?thesis by (auto simp: Ring_Lookup_def clockwise_def)
next
  case False
  with rotate_boundary [OF assms, of "Ring_hash sha1 key"] show ?thesis
    by (simp add: Ring_Lookup_def Let_def lookup_loop_uniq walk_rotate)
qed

section \<open>Placement: what the services rely on\<close>

text \<open>
  The services ask a ring for the replicas of a key. They rely on: no node twice, only
  member nodes, as many as asked for while there are that many, and a longer request
  extending a shorter one.
\<close>

locale placement =
  fixes place :: "string \<Rightarrow> int \<Rightarrow> string list" and members :: "string set"
  assumes place_distinct: "distinct (place key k)"
    and place_members: "set (place key k) \<subseteq> members"
    and place_length: "length (place key k) = min (nat k) (card members)"
    and place_take: "k \<le> k' \<Longrightarrow> place key k = take (nat k) (place key k')"
    and members_finite: "finite members"
begin

lemma place_Nil_iff: "place key k = [] \<longleftrightarrow> k \<le> 0 \<or> members = {}"
  using place_length [of key k] members_finite by (auto simp: min_def split: if_splits)

lemma place_all: "int (card members) \<le> k \<Longrightarrow> set (place key k) = members"
  using place_length [of key k] place_members [of key k] members_finite
    distinct_card [OF place_distinct, of key k]
  by (intro card_subset_eq) (auto simp: min_def nat_le_iff)

lemma place_mono: "k \<le> k' \<Longrightarrow> set (place key k) \<subseteq> set (place key k')"
  by (metis place_take set_take_subset)

end

lemma ring_nodes_finite [simp]: "finite (ring_nodes r)"
  by (simp add: ring_nodes_def)

lemma Ring_Lookup_take:
  assumes "k \<le> k'"
  shows "Ring_Lookup sha1 r key k = take (nat k) (Ring_Lookup sha1 r key k')"
  using assms
  by (cases "k \<le> 0 \<or> tokens r = []")
    (auto simp: Ring_Lookup_def Let_def lookup_loop_uniq min_def nat_mono)

interpretation ring: placement "Ring_Lookup sha1 r" "ring_nodes r" for sha1 r
proof
  fix key and k k' :: int
  obtain i where i: "Ring_Lookup sha1 r key k = take (nat k) (uniq (map Node (rotate i (tokens r))))"
    using Ring_Lookup_rotate by blast
  then show "distinct (Ring_Lookup sha1 r key k)"
    and "length (Ring_Lookup sha1 r key k) = min (nat k) (card (ring_nodes r))"
    by (simp_all add: ring_nodes_def min.commute)
  from i show "set (Ring_Lookup sha1 r key k) \<subseteq> ring_nodes r"
    by (auto simp: ring_nodes_def dest: in_set_takeD)
  show "k \<le> k' \<Longrightarrow> Ring_Lookup sha1 r key k = take (nat k) (Ring_Lookup sha1 r key k')"
    by (rule Ring_Lookup_take)
qed simp

section \<open>Membership changes\<close>

text \<open>
  \<open>ring_of sha1 v S r\<close>: \<open>r\<close> is sorted and holds, for every member of \<open>S\<close> and nothing
  else, its \<open>v\<close> virtual nodes.
\<close>

definition ring_of :: "(string \<Rightarrow> byte list) \<Rightarrow> int \<Rightarrow> string set \<Rightarrow> Ring \<Rightarrow> bool" where
  "ring_of sha1 v S r \<longleftrightarrow> finite S \<and> vnodes r = v \<and> sorted (map Hash (tokens r)) \<and>
     mset (tokens r) = (\<Sum>n\<in>S. mset (vnode_tokens sha1 v n))"

lemma Node_vnode_tokens: "t \<in> set (vnode_tokens sha1 v n) \<Longrightarrow> Node t = n"
  by (auto simp: vnode_tokens_def)

lemma filter_vnode_tokens [simp]:
  "filter_mset (\<lambda>t. Node t \<noteq> a) (mset (vnode_tokens sha1 v n)) =
     (if n = a then {#} else mset (vnode_tokens sha1 v n))"
proof -
  have "filter (\<lambda>t. Node t \<noteq> a) (vnode_tokens sha1 v n) = (if n = a then [] else vnode_tokens sha1 v n)"
    by (auto simp: filter_empty_conv filter_id_conv dest: Node_vnode_tokens)
  then show ?thesis by (simp flip: mset_filter)
qed

lemma filter_member_tokens:
  "finite S \<Longrightarrow> filter_mset (\<lambda>t. Node t \<noteq> a) (\<Sum>n\<in>S. mset (vnode_tokens sha1 v n)) =
     (\<Sum>n\<in>S - {a}. mset (vnode_tokens sha1 v n))"
  by (induction S rule: finite_induct) (auto simp: insert_Diff_if)

lemma ring_of_NewRing: "ring_of sha1 (vnodes (NewRing v)) {} (NewRing v)"
  by (simp add: ring_of_def NewRing_def)

lemma ring_of_AddNode:
  assumes "slice_sort srt Hash" and "ring_of sha1 v S r" and "n \<notin> S"
  shows "ring_of sha1 v (insert n S) (Ring_AddNode sha1 srt r n)"
  using assms slice_sort.mset_srt [OF assms(1)] slice_sort.sorted_srt [OF assms(1)]
  by (simp add: ring_of_def Ring_AddNode_def)

lemma ring_of_RemoveNode:
  assumes "ring_of sha1 v S r"
  shows "ring_of sha1 v (S - {n}) (Ring_RemoveNode r n)"
  using assms by (simp add: ring_of_def Ring_RemoveNode_def filter_member_tokens sorted_filter)

lemma ring_of_nodes:
  assumes "ring_of sha1 v S r" and "0 < v"
  shows "ring_nodes r = S"
proof -
  have one: "Node ` set (vnode_tokens sha1 v n) = {n}" for n
    using assms(2) by (simp add: vnode_tokens_def image_image image_constant_conv)
  have "Node ` set_mset (\<Sum>n\<in>S. mset (vnode_tokens sha1 v n)) = S"
    using assms by (subst set_mset_sum) (auto simp: ring_of_def image_UN one)
  then show ?thesis
    using assms(1) by (metis ring_of_def ring_nodes_def set_mset_mset)
qed

text \<open>Histories of membership changes, and the set of members they lead to.\<close>

datatype ring_op = AddOp string | RemoveOp string

fun ring_run :: "(string \<Rightarrow> byte list) \<Rightarrow> (Token list \<Rightarrow> Token list) \<Rightarrow> Ring \<Rightarrow> ring_op list \<Rightarrow> Ring" where
  "ring_run sha1 srt r [] = r"
| "ring_run sha1 srt r (AddOp n # ops) = ring_run sha1 srt (Ring_AddNode sha1 srt r n) ops"
| "ring_run sha1 srt r (RemoveOp n # ops) = ring_run sha1 srt (Ring_RemoveNode r n) ops"

fun members_after :: "string set \<Rightarrow> ring_op list \<Rightarrow> string set" where
  "members_after S [] = S"
| "members_after S (AddOp n # ops) = members_after (insert n S) ops"
| "members_after S (RemoveOp n # ops) = members_after (S - {n}) ops"

fun adds_absent :: "string set \<Rightarrow> ring_op list \<Rightarrow> bool" where
  "adds_absent S [] = True"
| "adds_absent S (AddOp n # ops) = (n \<notin> S \<and> adds_absent (insert n S) ops)"
| "adds_absent S (RemoveOp n # ops) = adds_absent (S - {n}) ops"

lemma ring_of_run:
  assumes "slice_sort srt Hash" and "ring_of sha1 v S r" and "adds_absent S ops"
  shows "ring_of sha1 v (members_after S ops) (ring_run sha1 srt r ops)"
  using assms
proof (induction sha1 srt r ops arbitrary: S rule: ring_run.induct)
  case (2 sha1 srt r n ops)
  then show ?case using ring_of_AddNode [of srt sha1 v S r n] by simp
qed (simp_all add: ring_of_RemoveNode)

lemma ring_of_unique:
  assumes "ring_of sha1 v S r" and "ring_of sha1 v S r'" and "inj_on Hash (set (tokens r))"
  shows "r = r'"
proof -
  have "sort_key Hash (tokens r) = tokens r'" and "sort_key Hash (tokens r) = tokens r"
    using assms by (auto simp: ring_of_def intro!: sort_key_inj_key_eq)
  then show ?thesis using assms by (simp add: ring_of_def)
qed

section \<open>A concrete ring\<close>

text \<open>
  For the concrete instances below: a digest that ends in the sum of the bytes, and the
  ring of two nodes with two virtual nodes each that it leads to.
\<close>

definition sum_digest :: "string \<Rightarrow> byte list" where
  "sum_digest b = [0, 0, 0, 0, 0, 0, 0, of_nat (sum_list (map of_char b))]"

definition two_nodes :: Ring where
  "two_nodes = \<lparr>vnodes = 2, tokens =
     [\<lparr>Hash = 180, Node = ''a''\<rparr>, \<lparr>Hash = 181, Node = ''a''\<rparr>,
      \<lparr>Hash = 182, Node = ''c''\<rparr>, \<lparr>Hash = 183, Node = ''c''\<rparr>]\<rparr>"

interpretation by_hash: slice_sort "sort_key Hash" Hash
  by (rule slice_sort_sort_key)

lemma itoa_0: "itoa 0 = ''0''"
  by code_simp

lemma itoa_1: "itoa (Suc 0) = ''1''"
  by code_simp

lemmas digest_eval = sum_digest_def Ring_hash_def be_uint64_def
lemmas ring_eval = Ring_Lookup_def sort_Search_def search_loop.simps lookup_loop.simps Let_def
  digest_eval

lemma vnode_tokens_a: "vnode_tokens sum_digest 2 ''a'' =
    [\<lparr>Hash = 180, Node = ''a''\<rparr>, \<lparr>Hash = 181, Node = ''a''\<rparr>]"
  by (simp add: vnode_tokens_def upt_rec itoa_0 itoa_1 digest_eval)

lemma vnode_tokens_c: "vnode_tokens sum_digest 2 ''c'' =
    [\<lparr>Hash = 182, Node = ''c''\<rparr>, \<lparr>Hash = 183, Node = ''c''\<rparr>]"
  by (simp add: vnode_tokens_def upt_rec itoa_0 itoa_1 digest_eval)

lemma lookup_key: "Ring_Lookup sum_digest two_nodes [CHR 0xB6] 2 = [''c'', ''a'']"
  by (simp add: ring_eval two_nodes_def)

lemma two_nodes_run:
  "ring_run sum_digest (sort_key Hash) (NewRing 2) [AddOp ''c'', AddOp ''a''] = two_nodes"
  by (simp add: NewRing_def Ring_AddNode_def vnode_tokens_a vnode_tokens_c two_nodes_def)

lemma lookup_without:
  assumes "sorted (map Hash (tokens r))"
  shows "Ring_Lookup sha1 (Ring_RemoveNode r n) key replicas =
    take (nat replicas) (filter (\<lambda>m. m \<noteq> n) (Ring_Lookup sha1 r key (replicas + 1)))"
proof (cases "replicas \<le> 0")
  case True
  then show ?thesis by (simp add: Ring_Lookup_def)
next
  case False
  let ?w = "uniq (map Node (clockwise (Ring_hash sha1 key) (tokens r)))"
  have "sorted (map Hash (tokens (Ring_RemoveNode r n)))"
    using assms by (simp add: Ring_RemoveNode_def sorted_filter)
  moreover have "uniq (map Node (clockwise h (tokens (Ring_RemoveNode r n)))) =
      filter (\<lambda>m. m \<noteq> n) (uniq (map Node (clockwise h (tokens r))))" for h
    by (simp add: Ring_RemoveNode_def clockwise_def filter_uniq filter_map o_def conj_commute)
  ultimately have "Ring_Lookup sha1 (Ring_RemoveNode r n) key replicas =
      take (nat replicas) (filter (\<lambda>m. m \<noteq> n) ?w)"
    by (simp add: Ring_Lookup_clockwise)
  moreover have "Ring_Lookup sha1 r key (replicas + 1) = take (Suc (nat replicas)) ?w"
    using assms False by (simp add: Ring_Lookup_clockwise nat_add_distrib)
  ultimately show ?thesis by (simp add: take_filter_one)
qed

lemma sorted_AddNode:
  "slice_sort srt Hash \<Longrightarrow> sorted (map Hash (tokens (Ring_AddNode sha1 srt r n)))"
  by (simp add: Ring_AddNode_def slice_sort.sorted_srt)

lemma remove_added:
  assumes "slice_sort srt Hash" and "sorted (map Hash (tokens r))"
    and "inj_on Hash (set (tokens r))" and "n \<notin> Node ` set (tokens r)"
  shows "Ring_RemoveNode (Ring_AddNode sha1 srt r n) n = r"
proof -
  let ?ts = "tokens r @ vnode_tokens sha1 (vnodes r) n"
  have "filter (\<lambda>t. Node t \<noteq> n) (tokens r) = tokens r"
    using assms(4) by (auto simp: filter_id_conv)
  moreover have "filter (\<lambda>t. Node t \<noteq> n) (vnode_tokens sha1 (vnodes r) n) = []"
    by (auto simp: filter_empty_conv dest: Node_vnode_tokens)
  ultimately have old: "filter (\<lambda>t. Node t \<noteq> n) ?ts = tokens r" by simp
  have "filter (\<lambda>t. Node t \<noteq> n) (srt ?ts) = tokens r"
    using slice_sort.filter_srt_sorted [OF assms(1), of "\<lambda>t. Node t \<noteq> n" ?ts] assms(2,3)
    by (simp only: old)
  then show ?thesis by (simp add: Ring_RemoveNode_def Ring_AddNode_def)
qed

section \<open>Properties\<close>

text \<open>
  C10: For any ring, key and number of replicas, \<open>Lookup\<close> returns no node twice, only nodes of
  the ring, and exactly as many as asked for, or all of them when the ring has fewer.
\<close>

theorem Lookup_replica_set:
  "distinct (Ring_Lookup sha1 r key replicas) \<and>
   set (Ring_Lookup sha1 r key replicas) \<subseteq> Node ` set (tokens r) \<and>
   length (Ring_Lookup sha1 r key replicas) = min (nat replicas) (card (Node ` set (tokens r)))"
  using ring.place_distinct [of sha1 r key replicas] ring.place_members [of sha1 r key replicas]
    ring.place_length [of sha1 r key replicas]
  by (simp add: ring_nodes_def)

text \<open>
  C9: On a ring in hash order, the binary search and the walk with its \<open>seen\<close> set compute the
  reference definition of consistent hashing: the first distinct nodes met clockwise from the
  hash of the key.
\<close>

theorem Lookup_is_clockwise_walk:
  assumes "sorted (map Hash (tokens r))"
  shows "Ring_Lookup sha1 r key replicas =
    take (nat replicas)
      (uniq (map Node (filter (\<lambda>t. Ring_hash sha1 key \<le> Hash t) (tokens r) @
                       filter (\<lambda>t. Hash t < Ring_hash sha1 key) (tokens r))))"
  using Ring_Lookup_clockwise [OF assms] by (simp add: clockwise_def)

theorem Lookup_is_clockwise_walk_witness:
  "sorted (map Hash (tokens two_nodes)) \<and>
   Ring_Lookup sum_digest two_nodes [CHR 0xB6] 2 = [''c'', ''a'']"
proof -
  have "sorted (map Hash (tokens two_nodes))" by (simp add: two_nodes_def)
  then show ?thesis
    using Lookup_is_clockwise_walk [of two_nodes sum_digest "[CHR 0xB6]" 2]
    by (simp add: two_nodes_def digest_eval)
qed

text \<open>
  C11: Removing a node moves only the keys it served: afterwards the replicas of a key are those
  of before without that node, with the next node of the walk moving up when it was among them.
\<close>

theorem Lookup_after_RemoveNode:
  assumes "sorted (map Hash (tokens r))"
  shows "Ring_Lookup sha1 (Ring_RemoveNode r n) key replicas =
    take (nat replicas) (filter (\<lambda>m. m \<noteq> n) (Ring_Lookup sha1 r key (replicas + 1)))"
  by (rule lookup_without [OF assms])

theorem Lookup_after_RemoveNode_witness:
  "sorted (map Hash (tokens two_nodes)) \<and>
   Ring_Lookup sum_digest (Ring_RemoveNode two_nodes ''c'') [CHR 0xB6] 1 = [''a'']"
proof -
  have "sorted (map Hash (tokens two_nodes))" by (simp add: two_nodes_def)
  then show ?thesis
    using Lookup_after_RemoveNode [of two_nodes sum_digest "''c''" "[CHR 0xB6]" 1]
    by (simp add: lookup_key)
qed

text \<open>
  Adding a node takes keys only for that node: when no two tokens of the ring share a hash,
  the replicas of a key without the new node are exactly those of before, in their order.
\<close>

theorem Lookup_after_AddNode:
  assumes "slice_sort srt Hash" and "sorted (map Hash (tokens r))"
    and "inj_on Hash (set (tokens r))" and "n \<notin> Node ` set (tokens r)"
  shows "take (nat replicas)
      (filter (\<lambda>m. m \<noteq> n) (Ring_Lookup sha1 (Ring_AddNode sha1 srt r n) key (replicas + 1))) =
    Ring_Lookup sha1 r key replicas"
  using lookup_without [OF sorted_AddNode [OF assms(1)], of sha1 sha1 r n n key replicas]
  by (simp add: remove_added [OF assms])

theorem Lookup_after_AddNode_witness:
  "slice_sort (sort_key Hash) (Hash :: Token \<Rightarrow> u64) \<and> sorted (map Hash (tokens two_nodes)) \<and>
   inj_on Hash (set (tokens two_nodes)) \<and> ''b'' \<notin> Node ` set (tokens two_nodes) \<and>
   take 2 (filter (\<lambda>m. m \<noteq> ''b'')
      (Ring_Lookup sum_digest (Ring_AddNode sum_digest (sort_key Hash) two_nodes ''b'') [CHR 0xB6] 3)) =
     [''c'', ''a'']"
proof -
  have "slice_sort (sort_key Hash) (Hash :: Token \<Rightarrow> u64)" "sorted (map Hash (tokens two_nodes))"
    "inj_on Hash (set (tokens two_nodes))" "''b'' \<notin> Node ` set (tokens two_nodes)"
    using by_hash.slice_sort_axioms by (auto simp: two_nodes_def inj_on_def)
  then show ?thesis
    using Lookup_after_AddNode [of "sort_key Hash" two_nodes "''b''" 2 sum_digest "[CHR 0xB6]"]
    by (simp add: lookup_key)
qed

text \<open>
  C12: The ring depends only on which nodes are members: after any two histories of additions of
  absent nodes and removals that end with the same members, the rings are equal, token for token
  (with no two tokens sharing a hash).
\<close>

theorem ring_history_independent:
  assumes "slice_sort srt Hash" and "adds_absent {} ops" and "adds_absent {} ops'"
    and "members_after {} ops = members_after {} ops'"
    and "inj_on Hash (set (tokens (ring_run sha1 srt (NewRing v) ops)))"
  shows "ring_run sha1 srt (NewRing v) ops = ring_run sha1 srt (NewRing v) ops'"
  using ring_of_unique [OF ring_of_run [OF assms(1) ring_of_NewRing assms(2)] _ assms(5)]
    ring_of_run [OF assms(1) ring_of_NewRing assms(3)] assms(4) by simp

theorem ring_history_independent_witness:
  "ring_run sum_digest (sort_key Hash) (NewRing 2) [AddOp ''c'', AddOp ''a''] =
   ring_run sum_digest (sort_key Hash) (NewRing 2)
     [AddOp ''a'', RemoveOp ''a'', AddOp ''a'', AddOp ''c'']"
proof (rule ring_history_independent [OF by_hash.slice_sort_axioms])
  show "inj_on Hash (set (tokens (ring_run sum_digest (sort_key Hash) (NewRing 2)
      [AddOp ''c'', AddOp ''a''])))"
    unfolding two_nodes_run by (auto simp: two_nodes_def inj_on_def)
qed auto

text \<open>
  Removing the node just added gives back the ring of before, for a node the ring did not
  hold.
\<close>

theorem RemoveNode_AddNode:
  assumes "slice_sort srt Hash" and "sorted (map Hash (tokens r))"
    and "inj_on Hash (set (tokens r))" and "n \<notin> Node ` set (tokens r)"
  shows "Ring_RemoveNode (Ring_AddNode sha1 srt r n) n = r"
  by (rule remove_added [OF assms])

theorem RemoveNode_AddNode_witness:
  "Ring_RemoveNode (Ring_AddNode sum_digest (sort_key Hash) two_nodes ''b'') ''b'' = two_nodes"
  by (rule RemoveNode_AddNode [OF by_hash.slice_sort_axioms])
    (auto simp: two_nodes_def inj_on_def)

text \<open>
  After any history of additions of absent nodes and removals, the ring is in hash order and
  holds exactly the virtual nodes of its members, each member's in full.
\<close>

theorem ring_invariant:
  fixes sha1 :: "string \<Rightarrow> byte list" and v :: int
  assumes "slice_sort srt Hash" and "adds_absent {} ops"
  defines "r \<equiv> ring_run sha1 srt (NewRing v) ops"
  shows "sorted (map Hash (tokens r)) \<and>
    mset (tokens r) = (\<Sum>n\<in>members_after {} ops. mset (vnode_tokens sha1 (vnodes (NewRing v)) n)) \<and>
    Node ` set (tokens r) = members_after {} ops"
proof -
  have "ring_of sha1 (vnodes (NewRing v)) (members_after {} ops) r"
    unfolding r_def by (rule ring_of_run [OF assms(1) ring_of_NewRing assms(2)])
  moreover from this have "ring_nodes r = members_after {} ops"
    by (rule ring_of_nodes) (simp add: NewRing_def)
  ultimately show ?thesis by (simp add: ring_of_def ring_nodes_def)
qed

theorem ring_invariant_witness:
  "Node ` set (tokens (ring_run sum_digest (sort_key Hash) (NewRing 2) [AddOp ''c'', AddOp ''a'']))
     = {''a'', ''c''}"
  using ring_invariant [OF by_hash.slice_sort_axioms,
      of "[AddOp ''c'', AddOp ''a'']" sum_digest 2] by auto

end
