(* ===== verification/Manager.thy ===== *)
theory Manager
  imports Chash Etcdsim
begin

text \<open>
  The ring manager of \<open>internal/storage/manager.go\<close>: the members of the storage cluster, the
  hash ring built from them, and the copy of both that the manager keeps in etcd.

  The manager holds a pointer to an etcd client that others share, so its operations take the
  client's state and return it. \<open>sha1\<close> and \<open>srt\<close> are the digest and the tie order of the ring's
  sort, \<open>marshal\<close> and \<open>unmarshal\<close> the JSON codec of \<open>ringState\<close> (\<open>None\<close> for an error) and \<open>now\<close> the
  clock. The mutex makes each operation one step.
\<close>

section \<open>State\<close>

record NodeDescriptor =
  nd_ID :: string
  nd_Address :: string
  nd_CapacityBytes :: i64
  nd_AvailableBytes :: i64
  nd_UpdatedAt :: int

record VirtualNodeAssignment =
  va_ID :: string
  va_Token :: u64
  va_NodeID :: string

record ringState =
  rs_Version :: i64
  rs_Nodes :: "(string, NodeDescriptor) gomap"
  rs_Tokens :: "VirtualNodeAssignment list"

record RingManager =
  rm_ring :: "Ring option"
  rm_state :: ringState
  rm_prefix :: string
  rm_vnodes :: int
  rm_lastRevision :: i64

record RingManagerConfig =
  rmc_Etcd :: "Client option"
  rmc_Prefix :: string
  rmc_VirtualNodes :: int

datatype mgr_error =
    MgrEtcdRequired | NodeIDRequired | DecodeFailed | EncodeFailed | MgrEtcd etcd_error

type_synonym digest = "string \<Rightarrow> byte list"
type_synonym token_sort = "Token list \<Rightarrow> Token list"

section \<open>Building the ring\<close>

definition ringKey :: "RingManager \<Rightarrow> string" where
  "ringKey m = rm_prefix m @ ''/ring''"

text \<open>The loop that numbers the tokens of each node in ring order; \<open>counter\<close> is a map from node to count.\<close>

fun assign_loop :: "Token list \<Rightarrow> (string, nat) gomap \<Rightarrow> VirtualNodeAssignment list" where
  "assign_loop [] counter = []"
| "assign_loop (tok # toks) counter =
     (let idx = (case map_of counter (Node tok) of Some n \<Rightarrow> n | None \<Rightarrow> 0) in
      \<lparr>va_ID = Node tok @ ''#'' @ itoa idx, va_Token = Hash tok, va_NodeID = Node tok\<rparr>
        # assign_loop toks (AList.update (Node tok) (idx + 1) counter))"

text \<open>
  The assignments are sorted by token and then by ID. The IDs are distinct, so the order of
  \<open>sort.Slice\<close> is the one of \<open>sort_key\<close>.
\<close>

definition rebuildLocked :: "digest \<Rightarrow> token_sort \<Rightarrow> RingManager \<Rightarrow> RingManager" where
  "rebuildLocked sha1 srt m =
     (let ring = NewRing (rm_vnodes m);
          ids = sort (map fst (rs_Nodes (rm_state m)));
          ring = fold (\<lambda>nid r. Ring_AddNode sha1 srt r nid) ids ring;
          assignments = assign_loop (Ring_Tokens ring) [];
          assignments = sort_key (\<lambda>a. (va_Token a, va_ID a)) assignments
      in m\<lparr>rm_state := (rm_state m)\<lparr>rs_Tokens := assignments\<rparr>, rm_ring := Some ring\<rparr>)"

section \<open>Operations\<close>

definition persistLocked :: "(ringState \<Rightarrow> string option) \<Rightarrow> RingManager \<Rightarrow> Client \<Rightarrow>
    RingManager \<times> Client \<times> mgr_error option" where
  "persistLocked marshal m c =
     (let m = m\<lparr>rm_state := (rm_state m)\<lparr>rs_Version := rs_Version (rm_state m) + 1\<rparr>\<rparr> in
      (case marshal (rm_state m) of
         None \<Rightarrow> (m, c, Some EncodeFailed)
       | Some encoded \<Rightarrow>
           (case Client_Put (ringKey m) encoded c of
              (c, Inl e) \<Rightarrow> (m, c, Some (MgrEtcd e))
            | (c, Inr resp) \<Rightarrow> (m\<lparr>rm_lastRevision := Revision resp\<rparr>, c, None))))"

definition bootstrap :: "digest \<Rightarrow> token_sort \<Rightarrow> (string \<Rightarrow> ringState option) \<Rightarrow> RingManager \<Rightarrow> Client \<Rightarrow>
    mgr_error + RingManager" where
  "bootstrap sha1 srt unmarshal m c =
     (let resp = Client_Get (ringKey m) False c in
      (case KVs resp of
         [] \<Rightarrow> Inr (m\<lparr>rm_ring := Some (NewRing (rm_vnodes m))\<rparr>)
       | kv0 # _ \<Rightarrow>
           (case unmarshal (kvs_Value kv0) of
              None \<Rightarrow> Inl DecodeFailed
            | Some state \<Rightarrow>
                Inr (rebuildLocked sha1 srt
                  (m\<lparr>rm_state := state, rm_lastRevision := kvs_ModRevision kv0\<rparr>)))))"

definition NewRingManager :: "digest \<Rightarrow> token_sort \<Rightarrow> (string \<Rightarrow> ringState option) \<Rightarrow>
    RingManagerConfig \<Rightarrow> mgr_error + RingManager" where
  "NewRingManager sha1 srt unmarshal cfg =
     (case rmc_Etcd cfg of
        None \<Rightarrow> Inl MgrEtcdRequired
      | Some c \<Rightarrow>
          bootstrap sha1 srt unmarshal
            \<lparr>rm_ring = None, rm_state = \<lparr>rs_Version = 0, rs_Nodes = [], rs_Tokens = []\<rparr>,
             rm_prefix = (if rmc_Prefix cfg = [] then ''/storage/cluster'' else rmc_Prefix cfg),
             rm_vnodes = (if rmc_VirtualNodes cfg \<le> 0 then 128 else rmc_VirtualNodes cfg),
             rm_lastRevision = 0\<rparr> c)"

definition UpsertNode :: "digest \<Rightarrow> token_sort \<Rightarrow> (ringState \<Rightarrow> string option) \<Rightarrow> int \<Rightarrow> NodeDescriptor \<Rightarrow>
    RingManager \<Rightarrow> Client \<Rightarrow> RingManager \<times> Client \<times> (mgr_error + i64)" where
  "UpsertNode sha1 srt marshal now node m c =
     (if nd_ID node = [] then (m, c, Inl NodeIDRequired)
      else
        let node = node\<lparr>nd_UpdatedAt := now\<rparr>;
            m = m\<lparr>rm_state := (rm_state m)\<lparr>rs_Nodes := AList.update (nd_ID node) node (rs_Nodes (rm_state m))\<rparr>\<rparr>;
            m = rebuildLocked sha1 srt m
        in (case persistLocked marshal m c of
              (m, c, Some e) \<Rightarrow> (m, c, Inl e)
            | (m, c, None) \<Rightarrow> (m, c, Inr (rs_Version (rm_state m)))))"

definition Manager_RemoveNode :: "digest \<Rightarrow> token_sort \<Rightarrow> (ringState \<Rightarrow> string option) \<Rightarrow> string \<Rightarrow>
    RingManager \<Rightarrow> Client \<Rightarrow> RingManager \<times> Client \<times> (mgr_error + i64)" where
  "Manager_RemoveNode sha1 srt marshal nodeID m c =
     (if nodeID = [] then (m, c, Inl NodeIDRequired)
      else if map_of (rs_Nodes (rm_state m)) nodeID = None then (m, c, Inr (rs_Version (rm_state m)))
      else
        let m = m\<lparr>rm_state := (rm_state m)\<lparr>rs_Nodes := AList.delete nodeID (rs_Nodes (rm_state m))\<rparr>\<rparr>;
            m = rebuildLocked sha1 srt m
        in (case persistLocked marshal m c of
              (m, c, Some e) \<Rightarrow> (m, c, Inl e)
            | (m, c, None) \<Rightarrow> (m, c, Inr (rs_Version (rm_state m)))))"

definition Manager_Lookup :: "digest \<Rightarrow> RingManager \<Rightarrow> string \<Rightarrow> int \<Rightarrow> string list" where
  "Manager_Lookup sha1 m key replicas =
     (case rm_ring m of None \<Rightarrow> [] | Some r \<Rightarrow> Ring_Lookup sha1 r key replicas)"

definition Assignments :: "RingManager \<Rightarrow> VirtualNodeAssignment list \<times> i64" where
  "Assignments m = (rs_Tokens (rm_state m), rs_Version (rm_state m))"

definition Nodes :: "RingManager \<Rightarrow> NodeDescriptor list" where
  "Nodes m = sort_key nd_ID (map snd (rs_Nodes (rm_state m)))"

section \<open>Watching\<close>

record RingEvent =
  re_Version :: i64
  re_Assignments :: "VirtualNodeAssignment list"

definition applyState :: "digest \<Rightarrow> token_sort \<Rightarrow> ringState \<Rightarrow> RingManager \<Rightarrow> RingManager" where
  "applyState sha1 srt state m = rebuildLocked sha1 srt (m\<lparr>rm_state := state\<rparr>)"

text \<open>
  The body of the goroutine of \<open>Watch\<close> on one response, while its context lives: the manager it
  leaves and the events it sends, in order. An event carries the assignments that were stored,
  not the ones rebuilt here.
\<close>

fun watch_events :: "digest \<Rightarrow> token_sort \<Rightarrow> (string \<Rightarrow> ringState option) \<Rightarrow> WatchEvent list \<Rightarrow>
    RingManager \<Rightarrow> RingManager \<times> RingEvent list" where
  "watch_events sha1 srt unmarshal [] m = (m, [])"
| "watch_events sha1 srt unmarshal (evt # evts) m =
     (if ev_Key evt \<noteq> ringKey m then watch_events sha1 srt unmarshal evts m
      else if ev_Type evt = EventTypeDelete then watch_events sha1 srt unmarshal evts m
      else (case unmarshal (ev_Value evt) of
              None \<Rightarrow> watch_events sha1 srt unmarshal evts m
            | Some state \<Rightarrow>
                let m = applyState sha1 srt state m;
                    (m', sent) = watch_events sha1 srt unmarshal evts m
                in (m', \<lparr>re_Version = rs_Version state, re_Assignments = rs_Tokens state\<rparr> # sent)))"

section \<open>The rebuilt ring\<close>

text \<open>The ring and the assignments are functions of the members, whatever order they are kept in.\<close>

definition built :: "digest \<Rightarrow> token_sort \<Rightarrow> int \<Rightarrow> string set \<Rightarrow> Ring" where
  "built sha1 srt v S = fold (\<lambda>nid r. Ring_AddNode sha1 srt r nid) (sorted_list_of_set S) (NewRing v)"

definition assigned :: "Ring \<Rightarrow> VirtualNodeAssignment list" where
  "assigned r = sort_key (\<lambda>a. (va_Token a, va_ID a)) (assign_loop (Ring_Tokens r) [])"

definition members :: "RingManager \<Rightarrow> string set" where
  "members m = dom (map_of (rs_Nodes (rm_state m)))"

lemma members_fst: "members m = set (map fst (rs_Nodes (rm_state m)))"
  by (simp add: members_def dom_map_of_conv_image_fst)

lemma finite_members [simp]: "finite (members m)"
  by (simp add: members_fst)

lemma rebuild_eq:
  assumes "wf_map (rs_Nodes (rm_state m))"
  shows "rebuildLocked sha1 srt m =
    m\<lparr>rm_state := (rm_state m)\<lparr>rs_Tokens := assigned (built sha1 srt (rm_vnodes m) (members m))\<rparr>,
      rm_ring := Some (built sha1 srt (rm_vnodes m) (members m))\<rparr>"
proof -
  have "sort (map fst (rs_Nodes (rm_state m))) = sorted_list_of_set (members m)"
    using assms(1) unfolding members_fst sorted_list_of_set_sort_remdups
    by (simp add: wf_map_def distinct_remdups_id)
  then show ?thesis by (simp add: rebuildLocked_def built_def assigned_def Let_def)
qed

lemma ring_of_fold:
  assumes "slice_sort srt Hash" and "ring_of sha1 v S r" and "distinct ns" and "S \<inter> set ns = {}"
  shows "ring_of sha1 v (S \<union> set ns) (fold (\<lambda>nid r. Ring_AddNode sha1 srt r nid) ns r)"
  using assms(2-)
proof (induction ns arbitrary: S r)
  case Nil
  then show ?case by simp
next
  case (Cons n ns)
  have "ring_of sha1 v (insert n S) (Ring_AddNode sha1 srt r n)"
    using Cons.prems by (intro ring_of_AddNode [OF assms(1)]) auto
  from Cons.IH [OF this] Cons.prems show ?case by simp
qed

lemma ring_of_built:
  assumes "slice_sort srt Hash" and "finite S" and "0 < v"
  shows "ring_of sha1 v S (built sha1 srt v S)"
  using ring_of_fold [OF assms(1) ring_of_NewRing [of sha1 v], of "sorted_list_of_set S"] assms(2,3)
  by (simp add: built_def) (simp add: NewRing_def)

lemma built_nodes:
  "slice_sort srt Hash \<Longrightarrow> finite S \<Longrightarrow> 0 < v \<Longrightarrow> ring_nodes (built sha1 srt v S) = S"
  by (rule ring_of_nodes [OF ring_of_built])

section \<open>Assignment IDs\<close>

definition count_of :: "(string, nat) gomap \<Rightarrow> string \<Rightarrow> nat" where
  "count_of counter n = (case map_of counter n of Some i \<Rightarrow> i | None \<Rightarrow> 0)"

lemma count_of_update [simp]:
  "count_of (AList.update k v counter) n = (if n = k then v else count_of counter n)"
  by (simp add: count_of_def)

lemma assign_Cons: "assign_loop (tok # toks) counter =
    \<lparr>va_ID = Node tok @ ''#'' @ itoa (count_of counter (Node tok)), va_Token = Hash tok, va_NodeID = Node tok\<rparr>
      # assign_loop toks (AList.update (Node tok) (count_of counter (Node tok) + 1) counter)"
  by (simp add: count_of_def Let_def)

lemma assign_tokens:
  "map (\<lambda>a. (va_Token a, va_NodeID a)) (assign_loop toks counter) = map (\<lambda>t. (Hash t, Node t)) toks"
  by (induction toks arbitrary: counter) (simp_all add: assign_Cons del: assign_loop.simps(2))

lemma assign_IDs:
  "a \<in> set (assign_loop toks counter) \<Longrightarrow>
    \<exists>i \<ge> count_of counter (va_NodeID a). va_ID a = va_NodeID a @ ''#'' @ itoa i"
proof (induction toks arbitrary: counter)
  case Nil
  then show ?case by simp
next
  case (Cons t toks)
  consider "a = \<lparr>va_ID = Node t @ ''#'' @ itoa (count_of counter (Node t)), va_Token = Hash t, va_NodeID = Node t\<rparr>"
    | "a \<in> set (assign_loop toks (AList.update (Node t) (count_of counter (Node t) + 1) counter))"
    using Cons.prems unfolding assign_Cons by auto
  then show ?case
  proof cases
    case 1
    then show ?thesis by auto
  next
    case 2
    from Cons.IH [OF this] obtain i where "va_ID a = va_NodeID a @ ''#'' @ itoa i"
      and "i \<ge> count_of (AList.update (Node t) (count_of counter (Node t) + 1) counter) (va_NodeID a)"
      by blast
    moreover from this(2) have "i \<ge> count_of counter (va_NodeID a)" by (auto split: if_splits)
    ultimately show ?thesis by blast
  qed
qed

lemma assign_IDs_distinct: "distinct (map va_ID (assign_loop toks counter))"
proof (induction toks arbitrary: counter)
  case Nil
  then show ?case by simp
next
  case (Cons t toks)
  let ?counter = "AList.update (Node t) (count_of counter (Node t) + 1) counter"
  have "Node t @ ''#'' @ itoa (count_of counter (Node t)) \<notin> set (map va_ID (assign_loop toks ?counter))"
  proof
    assume "Node t @ ''#'' @ itoa (count_of counter (Node t)) \<in> set (map va_ID (assign_loop toks ?counter))"
    then obtain a where a: "a \<in> set (assign_loop toks ?counter)"
      and ID: "va_ID a = Node t @ ''#'' @ itoa (count_of counter (Node t))"
      by auto
    obtain i where "i \<ge> count_of ?counter (va_NodeID a)" "va_ID a = va_NodeID a @ ''#'' @ itoa i"
      using assign_IDs [OF a] by blast
    then show False unfolding ID hash_join_inj by auto
  qed
  with Cons.IH [of ?counter] show ?case unfolding assign_Cons by simp
qed

section \<open>The invariant of a manager\<close>

text \<open>The ring and the assignments are always those of the members.\<close>

definition mgr_ok :: "digest \<Rightarrow> token_sort \<Rightarrow> RingManager \<Rightarrow> bool" where
  "mgr_ok sha1 srt m \<longleftrightarrow> wf_map (rs_Nodes (rm_state m)) \<and> 0 < rm_vnodes m \<and>
     rm_ring m = Some (built sha1 srt (rm_vnodes m) (members m)) \<and>
     rs_Tokens (rm_state m) = assigned (built sha1 srt (rm_vnodes m) (members m))"

definition decoder_ok :: "(string \<Rightarrow> ringState option) \<Rightarrow> bool" where
  "decoder_ok unmarshal \<longleftrightarrow> (\<forall>e st. unmarshal e = Some st \<longrightarrow> wf_map (rs_Nodes st))"

lemma mgr_ok_rebuild:
  "wf_map (rs_Nodes (rm_state m)) \<Longrightarrow> 0 < rm_vnodes m \<Longrightarrow> mgr_ok sha1 srt (rebuildLocked sha1 srt m)"
  by (simp add: rebuild_eq mgr_ok_def members_def)

lemma rebuild_simps:
  assumes "wf_map (rs_Nodes (rm_state m))"
  shows "rs_Nodes (rm_state (rebuildLocked sha1 srt m)) = rs_Nodes (rm_state m)"
    and "rs_Version (rm_state (rebuildLocked sha1 srt m)) = rs_Version (rm_state m)"
    and "rm_prefix (rebuildLocked sha1 srt m) = rm_prefix m"
    and "rm_vnodes (rebuildLocked sha1 srt m) = rm_vnodes m"
    and "members (rebuildLocked sha1 srt m) = members m"
    and "ringKey (rebuildLocked sha1 srt m) = ringKey m"
  by (simp_all add: rebuild_eq [OF assms] members_def ringKey_def)

lemma mgr_ok_persist: "mgr_ok sha1 srt m \<Longrightarrow> mgr_ok sha1 srt (fst (persistLocked marshal m c))"
  by (auto simp: persistLocked_def mgr_ok_def members_def Let_def split: option.split prod.split sum.split)

lemma mgr_ok_Upsert:
  assumes "mgr_ok sha1 srt m"
  shows "mgr_ok sha1 srt (fst (UpsertNode sha1 srt marshal now node m c))"
proof -
  let ?node = "node\<lparr>nd_UpdatedAt := now\<rparr>"
  let ?m = "m\<lparr>rm_state := (rm_state m)\<lparr>rs_Nodes := AList.update (nd_ID node) ?node (rs_Nodes (rm_state m))\<rparr>\<rparr>"
  have "mgr_ok sha1 srt (rebuildLocked sha1 srt ?m)"
    using assms by (intro mgr_ok_rebuild) (simp_all add: mgr_ok_def)
  from mgr_ok_persist [OF this, of marshal c] assms show ?thesis
    by (auto simp: UpsertNode_def Let_def split: prod.split option.split)
qed

lemma mgr_ok_Remove:
  assumes "mgr_ok sha1 srt m"
  shows "mgr_ok sha1 srt (fst (Manager_RemoveNode sha1 srt marshal nid m c))"
proof -
  let ?m = "m\<lparr>rm_state := (rm_state m)\<lparr>rs_Nodes := AList.delete nid (rs_Nodes (rm_state m))\<rparr>\<rparr>"
  have "mgr_ok sha1 srt (rebuildLocked sha1 srt ?m)"
    using assms by (intro mgr_ok_rebuild) (simp_all add: mgr_ok_def)
  from mgr_ok_persist [OF this, of marshal c] assms show ?thesis
    by (auto simp: Manager_RemoveNode_def Let_def split: prod.split option.split)
qed

lemma applyState_ok:
  "wf_map (rs_Nodes st) \<Longrightarrow> 0 < rm_vnodes m \<Longrightarrow> mgr_ok sha1 srt (applyState sha1 srt st m) \<and>
     rm_vnodes (applyState sha1 srt st m) = rm_vnodes m \<and> ringKey (applyState sha1 srt st m) = ringKey m"
  using mgr_ok_rebuild [of "m\<lparr>rm_state := st\<rparr>"] rebuild_simps [of "m\<lparr>rm_state := st\<rparr>"]
  by (simp add: applyState_def ringKey_def)

lemma mgr_ok_watch:
  "mgr_ok sha1 srt m \<Longrightarrow> decoder_ok unmarshal \<Longrightarrow>
    mgr_ok sha1 srt (fst (watch_events sha1 srt unmarshal evts m))"
proof (induction evts arbitrary: m)
  case Nil
  then show ?case by simp
next
  case (Cons evt evts)
  have "mgr_ok sha1 srt (applyState sha1 srt st m)" if "unmarshal (ev_Value evt) = Some st" for st
    using that Cons.prems applyState_ok [of st m sha1 srt] by (auto simp: decoder_ok_def mgr_ok_def)
  with Cons show ?case
    by (auto simp: Let_def split: option.split prod.splits) (metis fst_conv)+
qed

lemma bootstrap_eq:
  "bootstrap sha1 srt unmarshal m c =
     (case view c (ringKey m) of
        None \<Rightarrow> Inr (m\<lparr>rm_ring := Some (NewRing (rm_vnodes m))\<rparr>)
      | Some v \<Rightarrow>
          (case unmarshal v of
             None \<Rightarrow> Inl DecodeFailed
           | Some st \<Rightarrow> Inr (rebuildLocked sha1 srt
               (m\<lparr>rm_state := st, rm_lastRevision := mod_rev c (ringKey m)\<rparr>))))"
  by (simp add: bootstrap_def KVs_Get_view Let_def split: option.split)

lemma mgr_ok_New:
  assumes "NewRingManager sha1 srt unmarshal cfg = Inr m" and "decoder_ok unmarshal"
  shows "mgr_ok sha1 srt m"
proof -
  have empty: "mgr_ok sha1 srt m" if "rm_ring m = Some (NewRing (rm_vnodes m))"
    "rm_state m = \<lparr>rs_Version = 0, rs_Nodes = [], rs_Tokens = []\<rparr>" "0 < rm_vnodes m" for m
    using that by (simp add: mgr_ok_def members_def built_def assigned_def Ring_Tokens_def NewRing_def)
  show ?thesis
    using assms(1)
    by (auto simp: NewRingManager_def bootstrap_eq decoder_ok_def split: option.splits
        intro!: empty mgr_ok_rebuild assms(2) [unfolded decoder_ok_def, rule_format])
qed

text \<open>
  A manager at work: its own operations, the events of its watch in any batches, and whatever
  the other clients of etcd do to the shared client.
\<close>

inductive mgr_step :: "digest \<Rightarrow> token_sort \<Rightarrow> (ringState \<Rightarrow> string option) \<Rightarrow> (string \<Rightarrow> ringState option) \<Rightarrow>
    RingManager \<times> Client \<Rightarrow> RingManager \<times> Client \<Rightarrow> bool"
  for sha1 srt marshal unmarshal where
  upsert: "UpsertNode sha1 srt marshal now node m c = (m', c', res) \<Longrightarrow>
    mgr_step sha1 srt marshal unmarshal (m, c) (m', c')"
| remove: "Manager_RemoveNode sha1 srt marshal nid m c = (m', c', res) \<Longrightarrow>
    mgr_step sha1 srt marshal unmarshal (m, c) (m', c')"
| watched: "watch_events sha1 srt unmarshal evts m = (m', sent) \<Longrightarrow>
    mgr_step sha1 srt marshal unmarshal (m, c) (m', c)"
| others: "mgr_step sha1 srt marshal unmarshal (m, c) (m, c')"

inductive_cases mgr_stepE: "mgr_step sha1 srt marshal unmarshal s t"

definition mgr_start :: "digest \<Rightarrow> token_sort \<Rightarrow> (string \<Rightarrow> ringState option) \<Rightarrow> RingManager \<times> Client \<Rightarrow> bool" where
  "mgr_start sha1 srt unmarshal s \<longleftrightarrow>
     (\<exists>cfg. rmc_Etcd cfg = Some (snd s) \<and> NewRingManager sha1 srt unmarshal cfg = Inr (fst s))"

definition mgr_inv :: "digest \<Rightarrow> token_sort \<Rightarrow> (string \<Rightarrow> ringState option) \<Rightarrow> RingManager \<times> Client \<Rightarrow> bool" where
  "mgr_inv sha1 srt unmarshal s \<longleftrightarrow> (decoder_ok unmarshal \<longrightarrow> mgr_ok sha1 srt (fst s))"

lemma mgr_inv_step:
  assumes "mgr_inv sha1 srt unmarshal s" and "mgr_step sha1 srt marshal unmarshal s t"
  shows "mgr_inv sha1 srt unmarshal t"
  using assms(2,1)
proof cases
  case (upsert now node m c m' c' res)
  with assms(1) mgr_ok_Upsert [of sha1 srt m marshal now node c] show ?thesis
    by (simp add: mgr_inv_def)
next
  case (remove nid m c m' c' res)
  with assms(1) mgr_ok_Remove [of sha1 srt m marshal nid c] show ?thesis
    by (simp add: mgr_inv_def)
next
  case (watched evts m m' sent c)
  with assms(1) mgr_ok_watch [of sha1 srt m unmarshal evts] show ?thesis
    by (simp add: mgr_inv_def)
next
  case (others m c c')
  with assms(1) show ?thesis by (simp add: mgr_inv_def)
qed

interpretation mgr: invariant "mgr_start sha1 srt unmarshal" "mgr_step sha1 srt marshal unmarshal"
  "mgr_inv sha1 srt unmarshal" for sha1 srt marshal unmarshal
proof
  show "mgr_start sha1 srt unmarshal s \<Longrightarrow> mgr_inv sha1 srt unmarshal s" for s
    by (auto simp: mgr_start_def mgr_inv_def intro: mgr_ok_New)
  show "mgr_inv sha1 srt unmarshal s \<Longrightarrow> mgr_step sha1 srt marshal unmarshal s t \<Longrightarrow>
      mgr_inv sha1 srt unmarshal t" for s t
    by (rule mgr_inv_step)
qed

lemma reach_mgr_ok:
  "reach (mgr_start sha1 srt unmarshal) (mgr_step sha1 srt marshal unmarshal) (m, c) \<Longrightarrow>
    decoder_ok unmarshal \<Longrightarrow> mgr_ok sha1 srt m"
  using mgr.reach_inv [of sha1 srt unmarshal marshal "(m, c)"] by (simp add: mgr_inv_def)

lemma mgr_ring:
  assumes "slice_sort srt Hash" and "mgr_ok sha1 srt m"
  obtains r where "rm_ring m = Some r" and "ring_of sha1 (rm_vnodes m) (members m) r"
    and "ring_nodes r = members m" and "rs_Tokens (rm_state m) = assigned r"
  using assms ring_of_built [OF assms(1), of "members m" "rm_vnodes m" sha1]
    built_nodes [OF assms(1), of "members m" "rm_vnodes m" sha1]
  by (simp add: mgr_ok_def)

lemma assigned_facts:
  "set (assigned r) = set (assign_loop (tokens r) [])"
  "mset (map (\<lambda>a. (va_Token a, va_NodeID a)) (assigned r)) = mset (map (\<lambda>t. (Hash t, Node t)) (tokens r))"
  "distinct (map va_ID (assigned r))"
  "sorted (map va_Token (assigned r))"
proof -
  show "set (assigned r) = set (assign_loop (tokens r) [])"
    by (simp add: assigned_def Ring_Tokens_def)
  have mset: "mset (assigned r) = mset (assign_loop (tokens r) [])"
    by (simp add: assigned_def Ring_Tokens_def)
  then show "mset (map (\<lambda>a. (va_Token a, va_NodeID a)) (assigned r)) = mset (map (\<lambda>t. (Hash t, Node t)) (tokens r))"
    unfolding assign_tokens [of "tokens r" "[]", symmetric] by simp
  show "distinct (map va_ID (assigned r))"
    using mset assign_IDs_distinct [of "tokens r" "[]"] by (metis mset_map mset_eq_imp_distinct_iff)
  have "sorted (map (\<lambda>a. (va_Token a, va_ID a)) (assigned r))" by (simp add: assigned_def)
  then have "sorted (map fst (map (\<lambda>a. (va_Token a, va_ID a)) (assigned r)))"
    by (rule sorted_map_mono) (auto intro!: mono_onI)
  then show "sorted (map va_Token (assigned r))" by (simp add: comp_def)
qed

text \<open>What a successful or failed save leaves behind.\<close>

lemma persist_result:
  assumes "client_ok c" and "persistLocked marshal m c = (m', c', err)"
  shows "rm_state m' = (rm_state m)\<lparr>rs_Version := rs_Version (rm_state m) + 1\<rparr>"
    and "rm_ring m' = rm_ring m" "rm_prefix m' = rm_prefix m" "rm_vnodes m' = rm_vnodes m"
    and "client_ok c'"
    and "case marshal (rm_state m') of
        None \<Rightarrow> c' = c \<and> err = Some EncodeFailed
      | Some e \<Rightarrow> err = None \<and> view c' = (view c)(ringKey m \<mapsto> e) \<and> rm_lastRevision m' = revision c'"
proof -
  let ?m = "m\<lparr>rm_state := (rm_state m)\<lparr>rs_Version := rs_Version (rm_state m) + 1\<rparr>\<rparr>"
  have key: "ringKey ?m = ringKey m" by (simp add: ringKey_def)
  have "(case marshal (rm_state ?m) of
        None \<Rightarrow> m' = ?m \<and> c' = c \<and> err = Some EncodeFailed
      | Some e \<Rightarrow> m' = ?m\<lparr>rm_lastRevision := revision c'\<rparr> \<and> err = None \<and>
          view c' = (view c)(ringKey m \<mapsto> e)) \<and> client_ok c'"
  proof (cases "marshal (rm_state ?m)")
    case None
    with assms show ?thesis by (auto simp: persistLocked_def)
  next
    case (Some e)
    obtain d where d: "Client_Put (ringKey m) e c = (d, Inr \<lparr>Succeeded = True, Revision = revision d\<rparr>)"
      "client_ok d" "view d = (view c)(ringKey m \<mapsto> e)"
      by (rule Client_Put_ok [OF assms(1)])
    with Some assms(2) key show ?thesis by (auto simp: persistLocked_def)
  qed
  then show "rm_state m' = (rm_state m)\<lparr>rs_Version := rs_Version (rm_state m) + 1\<rparr>"
    and "rm_ring m' = rm_ring m" "rm_prefix m' = rm_prefix m" "rm_vnodes m' = rm_vnodes m"
    and "client_ok c'"
    and "case marshal (rm_state m') of
        None \<Rightarrow> c' = c \<and> err = Some EncodeFailed
      | Some e \<Rightarrow> err = None \<and> view c' = (view c)(ringKey m \<mapsto> e) \<and> rm_lastRevision m' = revision c'"
    by (auto split: option.splits)
qed

text \<open>The state after a change of the members, and how the change is reported.\<close>

definition change_result :: "(ringState \<Rightarrow> string option) \<Rightarrow> (string, NodeDescriptor) gomap \<Rightarrow>
    RingManager \<Rightarrow> Client \<Rightarrow> RingManager \<Rightarrow> Client \<Rightarrow> mgr_error + i64 \<Rightarrow> bool" where
  "change_result marshal nodes m c m' c' res \<longleftrightarrow>
     rs_Nodes (rm_state m') = nodes \<and> rs_Version (rm_state m') = rs_Version (rm_state m) + 1 \<and>
     rm_prefix m' = rm_prefix m \<and> rm_vnodes m' = rm_vnodes m \<and> client_ok c' \<and>
     (case marshal (rm_state m') of
        None \<Rightarrow> c' = c \<and> res = Inl EncodeFailed
      | Some e \<Rightarrow> view c' = (view c)(ringKey m \<mapsto> e) \<and> rm_lastRevision m' = revision c' \<and>
          res = Inr (rs_Version (rm_state m')))"

lemma change_persist:
  fixes m :: RingManager and sha1 :: digest and srt :: token_sort
  assumes "client_ok c" and "wf_map nodes"
  defines "m1 \<equiv> rebuildLocked sha1 srt (m\<lparr>rm_state := (rm_state m)\<lparr>rs_Nodes := nodes\<rparr>\<rparr>)"
  shows "case (case persistLocked marshal m1 c of
                 (m, c, Some e) \<Rightarrow> (m, c, Inl e)
               | (m, c, None) \<Rightarrow> (m, c, Inr (rs_Version (rm_state m)))) of
      (m', c', res) \<Rightarrow> change_result marshal nodes m c m' c' res"
proof -
  obtain m' c' err where p: "persistLocked marshal m1 c = (m', c', err)"
    by (cases "persistLocked marshal m1 c")
  have "ringKey m1 = ringKey m" "rs_Nodes (rm_state m1) = nodes" "rm_prefix m1 = rm_prefix m"
    "rm_vnodes m1 = rm_vnodes m" "rs_Version (rm_state m1) = rs_Version (rm_state m)"
    using assms(2) rebuild_simps [of "m\<lparr>rm_state := (rm_state m)\<lparr>rs_Nodes := nodes\<rparr>\<rparr>" sha1 srt]
    by (simp_all add: m1_def ringKey_def)
  with persist_result [OF assms(1) p] show ?thesis
    by (auto simp: p change_result_def split: option.splits)
qed

lemma Upsert_change:
  assumes "mgr_ok sha1 srt m" and "client_ok c" and "nd_ID node \<noteq> []"
    and "UpsertNode sha1 srt marshal now node m c = (m', c', res)"
  shows "change_result marshal (AList.update (nd_ID node) (node\<lparr>nd_UpdatedAt := now\<rparr>) (rs_Nodes (rm_state m)))
    m c m' c' res"
  using change_persist [OF assms(2), of "AList.update (nd_ID node) (node\<lparr>nd_UpdatedAt := now\<rparr>) (rs_Nodes (rm_state m))"
      marshal m sha1 srt] assms(1,3,4)
  by (simp add: UpsertNode_def Let_def mgr_ok_def)

lemma Remove_change:
  assumes "mgr_ok sha1 srt m" and "client_ok c" and "nid \<in> members m" and "nid \<noteq> []"
    and "Manager_RemoveNode sha1 srt marshal nid m c = (m', c', res)"
  shows "change_result marshal (AList.delete nid (rs_Nodes (rm_state m))) m c m' c' res"
  using change_persist [OF assms(2), of "AList.delete nid (rs_Nodes (rm_state m))" marshal m sha1 srt] assms(1,3-5)
  by (auto simp: Manager_RemoveNode_def Let_def mgr_ok_def members_def)

text \<open>
  C18: The ring of a manager always matches its members, whatever it has done or seen: the ring is
  sorted and holds exactly the virtual nodes of the registered nodes, and the published
  assignments are the ring's tokens, in token order, under IDs that are all different.
\<close>

theorem manager_consistent:
  assumes "slice_sort srt Hash" and "decoder_ok unmarshal"
    and "reach (mgr_start sha1 srt unmarshal) (mgr_step sha1 srt marshal unmarshal) (m, c)"
  shows "\<exists>r. rm_ring m = Some r \<and> sorted (map Hash (tokens r)) \<and>
    mset (tokens r) = (\<Sum>n\<in>members m. mset (vnode_tokens sha1 (rm_vnodes m) n)) \<and>
    (let as = fst (Assignments m) in
       sorted (map va_Token as) \<and> distinct (map va_ID as) \<and>
       mset (map (\<lambda>a. (va_Token a, va_NodeID a)) as) = mset (map (\<lambda>t. (Hash t, Node t)) (tokens r)))"
proof -
  obtain r where "rm_ring m = Some r" "ring_of sha1 (rm_vnodes m) (members m) r"
    "rs_Tokens (rm_state m) = assigned r"
    by (rule mgr_ring [OF assms(1) reach_mgr_ok [OF assms(3,2)]])
  then show ?thesis
    using assigned_facts [of r] by (auto simp: ring_of_def Assignments_def Let_def)
qed

text \<open>A codec for states of at most one node: the version in unary, then the node's ID.\<close>

definition mgr_marshal :: "ringState \<Rightarrow> string option" where
  "mgr_marshal st = Some (replicate (unat (rs_Version st)) CHR ''!'' @ concat (map fst (rs_Nodes st)))"

definition plain_node :: "string \<Rightarrow> NodeDescriptor" where
  "plain_node n = \<lparr>nd_ID = n, nd_Address = [], nd_CapacityBytes = 0, nd_AvailableBytes = 0, nd_UpdatedAt = 0\<rparr>"

definition mgr_unmarshal :: "string \<Rightarrow> ringState option" where
  "mgr_unmarshal e =
     (let n = dropWhile (\<lambda>c. c = CHR ''!'') e in
      Some \<lparr>rs_Version = of_nat (length e - length n),
            rs_Nodes = (if n = [] then [] else [(n, plain_node n)]), rs_Tokens = []\<rparr>)"

definition mgr_cfg :: "Client \<Rightarrow> RingManagerConfig" where
  "mgr_cfg c = \<lparr>rmc_Etcd = Some c, rmc_Prefix = ''r'', rmc_VirtualNodes = 2\<rparr>"

definition mgr0 :: RingManager where
  "mgr0 = \<lparr>rm_ring = Some (NewRing 2), rm_state = \<lparr>rs_Version = 0, rs_Nodes = [], rs_Tokens = []\<rparr>,
     rm_prefix = ''r'', rm_vnodes = 2, rm_lastRevision = 0\<rparr>"

definition upsert_sample :: "string \<Rightarrow> RingManager \<Rightarrow> Client \<Rightarrow> RingManager \<times> Client \<times> (mgr_error + i64)" where
  "upsert_sample n = UpsertNode sum_digest (sort_key Hash) mgr_marshal 0 (plain_node n)"

lemma mgr_decoder_ok: "decoder_ok mgr_unmarshal"
  by (auto simp: decoder_ok_def mgr_unmarshal_def Let_def)

lemma mgr0_new: "NewRingManager sum_digest (sort_key Hash) mgr_unmarshal (mgr_cfg etcd_New) = Inr mgr0"
  by (simp add: NewRingManager_def mgr_cfg_def bootstrap_eq mgr0_def view_def etcd_New_def ringKey_def)

lemma mgr0_start: "mgr_start sum_digest (sort_key Hash) mgr_unmarshal (mgr0, etcd_New)"
  using mgr0_new by (auto simp: mgr_start_def mgr_cfg_def intro!: exI [of _ "mgr_cfg etcd_New"])

lemma mgr0_ok: "mgr_ok sum_digest (sort_key Hash) mgr0"
  by (rule mgr_ok_New [OF mgr0_new mgr_decoder_ok])

lemma manager_consistent_witness:
  "let (m, c, res) = upsert_sample ''a'' mgr0 etcd_New in
   members m = {''a''} \<and>
   (\<exists>r. rm_ring m = Some r \<and> mset (tokens r) = mset (vnode_tokens sum_digest 2 ''a''))"
proof -
  obtain m c res where up: "upsert_sample ''a'' mgr0 etcd_New = (m, c, res)"
    by (cases "upsert_sample ''a'' mgr0 etcd_New")
  note up' = up [unfolded upsert_sample_def]
  have "reach (mgr_start sum_digest (sort_key Hash) mgr_unmarshal)
      (mgr_step sum_digest (sort_key Hash) mgr_marshal mgr_unmarshal) (m, c)"
    by (rule reach_step [OF reach_start [of "mgr_start sum_digest (sort_key Hash) mgr_unmarshal", OF mgr0_start]])
      (rule mgr_step.upsert [OF up'])
  from manager_consistent [OF by_hash.slice_sort_axioms mgr_decoder_ok this]
  obtain r where "rm_ring m = Some r"
    "mset (tokens r) = (\<Sum>n\<in>members m. mset (vnode_tokens sum_digest (rm_vnodes m) n))"
    by blast
  moreover have "members m = {''a''}" and "rm_vnodes m = 2"
    using Upsert_change [OF mgr0_ok client_ok_New _ up']
    by (auto simp: change_result_def members_def plain_node_def mgr0_def split: if_splits)
  ultimately show ?thesis using up by simp
qed

text \<open>
  Lookup through the manager: the replicas of a key are registered nodes, each once, as many
  as asked for as long as there are that many nodes; a node that is not registered never serves.
\<close>

theorem Manager_Lookup_replicas:
  assumes "slice_sort srt Hash" and "decoder_ok unmarshal"
    and "reach (mgr_start sha1 srt unmarshal) (mgr_step sha1 srt marshal unmarshal) (m, c)"
  shows "distinct (Manager_Lookup sha1 m key replicas) \<and>
    set (Manager_Lookup sha1 m key replicas) \<subseteq> members m \<and>
    length (Manager_Lookup sha1 m key replicas) = min (nat replicas) (card (members m))"
proof -
  obtain r where "rm_ring m = Some r" "ring_nodes r = members m"
    by (rule mgr_ring [OF assms(1) reach_mgr_ok [OF assms(3,2)]])
  then show ?thesis
    using ring.place_distinct [of sha1 r key replicas] ring.place_members [of sha1 r key replicas]
      ring.place_length [of sha1 r key replicas]
    by (simp add: Manager_Lookup_def)
qed

lemma upsert_reach:
  assumes "upsert_sample n mgr0 etcd_New = (m, c, res)"
  shows "reach (mgr_start sum_digest (sort_key Hash) mgr_unmarshal)
    (mgr_step sum_digest (sort_key Hash) mgr_marshal mgr_unmarshal) (m, c)"
  by (rule reach_step [OF reach_start [of "mgr_start sum_digest (sort_key Hash) mgr_unmarshal", OF mgr0_start]])
    (rule mgr_step.upsert [OF assms [unfolded upsert_sample_def]])

lemma upsert_sample_change:
  assumes "upsert_sample n m c = (m', c', res)" and "mgr_ok sum_digest (sort_key Hash) m"
    and "client_ok c" and "n \<noteq> []"
  shows "change_result mgr_marshal (AList.update n (plain_node n) (rs_Nodes (rm_state m))) m c m' c' res"
  using Upsert_change [OF assms(2,3) _ assms(1) [unfolded upsert_sample_def]] assms(4)
  by (simp add: plain_node_def)

lemma Manager_Lookup_replicas_witness:
  "let (m, c, res) = upsert_sample ''a'' mgr0 etcd_New in
   Manager_Lookup sum_digest m ''key'' 3 = [''a'']"
proof -
  obtain m c res where up: "upsert_sample ''a'' mgr0 etcd_New = (m, c, res)"
    by (cases "upsert_sample ''a'' mgr0 etcd_New")
  have "members m = {''a''}"
    using upsert_sample_change [OF up mgr0_ok client_ok_New]
    by (auto simp: change_result_def members_def mgr0_def split: if_splits)
  with Manager_Lookup_replicas [OF by_hash.slice_sort_axioms mgr_decoder_ok upsert_reach [OF up],
      of "''key''" 3]
  show ?thesis using up
    by (cases "Manager_Lookup sum_digest m ''key'' 3") auto
qed

text \<open>
  C33: A change of the members, every branch. \<open>UpsertNode\<close> and \<open>RemoveNode\<close> reject an empty ID,
  removing an absent node does nothing, and any other change updates the one node, raises the
  version by one and stores the encoded state in etcd; when encoding fails, the change and its
  version stay in memory although the call reports an error.
\<close>

theorem membership_change_spec:
  assumes "mgr_ok sha1 srt m" and "client_ok c"
  shows "(case UpsertNode sha1 srt marshal now node m c of (m', c', res) \<Rightarrow>
      if nd_ID node = [] then m' = m \<and> c' = c \<and> res = Inl NodeIDRequired
      else mgr_ok sha1 srt m' \<and> change_result marshal
        (AList.update (nd_ID node) (node\<lparr>nd_UpdatedAt := now\<rparr>) (rs_Nodes (rm_state m))) m c m' c' res) \<and>
    (case Manager_RemoveNode sha1 srt marshal nid m c of (m', c', res) \<Rightarrow>
      if nid = [] then m' = m \<and> c' = c \<and> res = Inl NodeIDRequired
      else if nid \<notin> members m then m' = m \<and> c' = c \<and> res = Inr (rs_Version (rm_state m))
      else mgr_ok sha1 srt m' \<and>
        change_result marshal (AList.delete nid (rs_Nodes (rm_state m))) m c m' c' res)"
proof (rule conjI)
  obtain m' c' res where up: "UpsertNode sha1 srt marshal now node m c = (m', c', res)"
    by (cases "UpsertNode sha1 srt marshal now node m c")
  then show "case UpsertNode sha1 srt marshal now node m c of (m', c', res) \<Rightarrow>
      if nd_ID node = [] then m' = m \<and> c' = c \<and> res = Inl NodeIDRequired
      else mgr_ok sha1 srt m' \<and> change_result marshal
        (AList.update (nd_ID node) (node\<lparr>nd_UpdatedAt := now\<rparr>) (rs_Nodes (rm_state m))) m c m' c' res"
    using Upsert_change [OF assms _ up] mgr_ok_Upsert [OF assms(1), of marshal now node c]
    by (cases "nd_ID node = []") (auto simp: UpsertNode_def)
next
  obtain m' c' res where rem: "Manager_RemoveNode sha1 srt marshal nid m c = (m', c', res)"
    by (cases "Manager_RemoveNode sha1 srt marshal nid m c")
  then show "case Manager_RemoveNode sha1 srt marshal nid m c of (m', c', res) \<Rightarrow>
      if nid = [] then m' = m \<and> c' = c \<and> res = Inl NodeIDRequired
      else if nid \<notin> members m then m' = m \<and> c' = c \<and> res = Inr (rs_Version (rm_state m))
      else mgr_ok sha1 srt m' \<and>
        change_result marshal (AList.delete nid (rs_Nodes (rm_state m))) m c m' c' res"
    using Remove_change [OF assms _ _ rem] mgr_ok_Remove [OF assms(1), of marshal nid c]
    by (cases "nid = [] \<or> nid \<notin> members m") (auto simp: Manager_RemoveNode_def members_def)
qed

lemma membership_change_spec_witness:
  "let (m, c, res) = UpsertNode sum_digest (sort_key Hash) mgr_marshal 0 (plain_node ''a'') mgr0 etcd_New in
   change_result mgr_marshal [(''a'', plain_node ''a'')] mgr0 etcd_New m c res \<and>
   Manager_RemoveNode sum_digest (sort_key Hash) mgr_marshal ''b'' mgr0 etcd_New = (mgr0, etcd_New, Inr 0)"
  using membership_change_spec [OF mgr0_ok client_ok_New, where node = "plain_node ''a''"
      and nid = "''b''" and marshal = mgr_marshal and now = 0]
  by (auto simp: plain_node_def mgr0_def members_def split: prod.splits)

text \<open>What a manager reads back is the state another one stored, up to the order of the map.\<close>

definition codec_keeps :: "(string \<Rightarrow> ringState option) \<Rightarrow> string \<Rightarrow> ringState \<Rightarrow> bool" where
  "codec_keeps unmarshal e st \<longleftrightarrow> (\<exists>st'. unmarshal e = Some st' \<and> wf_map (rs_Nodes st') \<and>
     map_of (rs_Nodes st') = map_of (rs_Nodes st) \<and> rs_Version st' = rs_Version st)"

lemma same_members_same_ring:
  assumes "mgr_ok sha1 srt m" and "mgr_ok sha1 srt m'"
    and "rm_vnodes m = rm_vnodes m'" and "members m = members m'"
  shows "rm_ring m = rm_ring m'" and "rs_Tokens (rm_state m) = rs_Tokens (rm_state m')"
  using assms by (simp_all add: mgr_ok_def)

lemma New_from_stored:
  assumes "rmc_Etcd cfg = Some c" and "rmc_Prefix cfg \<noteq> []" and "0 < rmc_VirtualNodes cfg"
    and "view c (rmc_Prefix cfg @ ''/ring'') = Some e" and "codec_keeps unmarshal e st"
  obtains m where "NewRingManager sha1 srt unmarshal cfg = Inr m" and "mgr_ok sha1 srt m"
    and "map_of (rs_Nodes (rm_state m)) = map_of (rs_Nodes st)"
    and "rs_Version (rm_state m) = rs_Version st" and "rm_vnodes m = rmc_VirtualNodes cfg"
    and "rm_prefix m = rmc_Prefix cfg"
proof -
  obtain st' where st': "unmarshal e = Some st'" "wf_map (rs_Nodes st')"
    "map_of (rs_Nodes st') = map_of (rs_Nodes st)" "rs_Version st' = rs_Version st"
    using assms(5) by (auto simp: codec_keeps_def)
  let ?m = "\<lparr>rm_ring = None, rm_state = st', rm_prefix = rmc_Prefix cfg, rm_vnodes = rmc_VirtualNodes cfg,
    rm_lastRevision = mod_rev c (rmc_Prefix cfg @ ''/ring'')\<rparr>"
  have "NewRingManager sha1 srt unmarshal cfg = Inr (rebuildLocked sha1 srt ?m)"
    using assms st'(1) by (simp add: NewRingManager_def bootstrap_eq ringKey_def)
  with st' rebuild_simps [of ?m sha1 srt] mgr_ok_rebuild [of ?m sha1 srt] assms(3)
  show ?thesis by (intro that [of "rebuildLocked sha1 srt ?m"]) simp_all
qed

text \<open>
  C19: A restarted manager recovers the ring. After a successful \<open>UpsertNode\<close>, whatever other
  clients write outside the manager's prefix, a new manager on the same prefix has the same
  members, the same version and assignments, and answers every lookup in the same way. The
  codec is assumed to read back the nodes and the version it wrote.
\<close>

theorem recover_from_etcd:
  assumes "mgr_ok sha1 srt m" and "client_ok c" and "nd_ID node \<noteq> []" and "rm_prefix m \<noteq> []"
    and "UpsertNode sha1 srt marshal now node m c = (m', c', Inr v)"
    and "\<forall>e. marshal (rm_state m') = Some e \<longrightarrow> codec_keeps unmarshal e (rm_state m')"
    and "\<forall>(k, x) \<in> set ws. \<not> prefix (rm_prefix m) k"
    and "rmc_Etcd cfg = Some (Client_writes ws c')" and "rmc_Prefix cfg = rm_prefix m"
    and "rmc_VirtualNodes cfg = rm_vnodes m"
  shows "\<exists>m2. NewRingManager sha1 srt unmarshal cfg = Inr m2 \<and>
    map_of (rs_Nodes (rm_state m2)) = map_of (rs_Nodes (rm_state m')) \<and>
    Assignments m2 = Assignments m' \<and>
    (\<forall>key replicas. Manager_Lookup sha1 m2 key replicas = Manager_Lookup sha1 m' key replicas)"
proof -
  have res: "change_result marshal (AList.update (nd_ID node) (node\<lparr>nd_UpdatedAt := now\<rparr>) (rs_Nodes (rm_state m)))
      m c m' c' (Inr v)"
    by (rule Upsert_change [OF assms(1,2,3,5)])
  then obtain e where e: "marshal (rm_state m') = Some e" "view c' (ringKey m) = Some e"
    and c': "client_ok c'" and same: "rm_vnodes m' = rm_vnodes m" "rm_prefix m' = rm_prefix m"
    by (auto simp: change_result_def split: option.splits)
  have ok': "mgr_ok sha1 srt m'" using mgr_ok_Upsert [OF assms(1), of marshal now node c] assms(5) by simp
  have "view (Client_writes ws c') (rm_prefix m @ ''/ring'') = Some e"
    using Client_writes_other(1) [OF c' assms(7)] e(2) by (simp add: ringKey_def)
  moreover have "0 < rm_vnodes m" using assms(1) by (simp add: mgr_ok_def)
  ultimately obtain m2 where m2: "NewRingManager sha1 srt unmarshal cfg = Inr m2" "mgr_ok sha1 srt m2"
    "map_of (rs_Nodes (rm_state m2)) = map_of (rs_Nodes (rm_state m'))"
    "rs_Version (rm_state m2) = rs_Version (rm_state m')" "rm_vnodes m2 = rm_vnodes m'"
    using New_from_stored [of cfg "Client_writes ws c'" e unmarshal "rm_state m'" sha1 srt]
      assms(4,6,8,9,10) e(1) same by metis
  then have "rm_ring m2 = rm_ring m'" "rs_Tokens (rm_state m2) = rs_Tokens (rm_state m')"
    using same_members_same_ring [OF m2(2) ok'] by (simp_all add: members_def)
  with m2 show ?thesis by (simp add: Assignments_def Manager_Lookup_def)
qed

lemma mgr_codec:
  assumes "rs_Nodes st = [(n, plain_node n)]" and "n \<noteq> []" and "hd n \<noteq> CHR ''!''"
    and "mgr_marshal st = Some e"
  shows "codec_keeps mgr_unmarshal e st"
proof -
  have "dropWhile (\<lambda>c. c = CHR ''!'') (replicate i CHR ''!'' @ n) = n" for i
    using assms(2,3) by (induction i) (cases n, auto)
  moreover have "e = replicate (unat (rs_Version st)) CHR ''!'' @ n"
    using assms(1,4) by (simp add: mgr_marshal_def)
  ultimately have "mgr_unmarshal e =
      Some \<lparr>rs_Version = rs_Version st, rs_Nodes = [(n, plain_node n)], rs_Tokens = []\<rparr>"
    using assms(2) by (simp add: mgr_unmarshal_def Let_def)
  then show ?thesis using assms(1) by (simp add: codec_keeps_def)
qed

lemma upsert_sample_facts:
  assumes "upsert_sample n mgr0 c = (m', c', res)" and "client_ok c" and "n \<noteq> []" and "hd n \<noteq> CHR ''!''"
  shows "rs_Nodes (rm_state m') = [(n, plain_node n)]" and "rs_Version (rm_state m') = 1"
    and "res = Inr 1" and "client_ok c'"
    and "\<forall>e. mgr_marshal (rm_state m') = Some e \<longrightarrow> codec_keeps mgr_unmarshal e (rm_state m')"
proof -
  have r: "change_result mgr_marshal [(n, plain_node n)] mgr0 c m' c' res"
    using upsert_sample_change [OF assms(1) mgr0_ok assms(2,3)] by (simp add: mgr0_def)
  then show nodes: "rs_Nodes (rm_state m') = [(n, plain_node n)]" "rs_Version (rm_state m') = 1"
    "res = Inr 1" "client_ok c'"
    by (auto simp: change_result_def mgr0_def mgr_marshal_def)
  show "\<forall>e. mgr_marshal (rm_state m') = Some e \<longrightarrow> codec_keeps mgr_unmarshal e (rm_state m')"
    using mgr_codec [OF nodes(1) assms(3,4)] by blast
qed

lemma recover_from_etcd_witness:
  "let (m', c', res) = upsert_sample ''a'' mgr0 etcd_New in
   \<exists>m2. NewRingManager sum_digest (sort_key Hash) mgr_unmarshal
       (mgr_cfg (Client_writes [(''other'', Some ''x'')] c')) = Inr m2 \<and>
     rs_Version (rm_state m2) = 1 \<and> members m2 = {''a''}"
proof -
  obtain m' c' res where up: "upsert_sample ''a'' mgr0 etcd_New = (m', c', res)"
    by (cases "upsert_sample ''a'' mgr0 etcd_New")
  note facts = upsert_sample_facts [OF up client_ok_New, simplified]
  have "UpsertNode sum_digest (sort_key Hash) mgr_marshal 0 (plain_node ''a'') mgr0 etcd_New = (m', c', Inr 1)"
    using up facts(3) by (simp add: upsert_sample_def)
  from recover_from_etcd [OF mgr0_ok client_ok_New _ _ this facts(5),
      of "[(''other'', Some ''x'')]" "mgr_cfg (Client_writes [(''other'', Some ''x'')] c')"]
  obtain m2 where "NewRingManager sum_digest (sort_key Hash) mgr_unmarshal
      (mgr_cfg (Client_writes [(''other'', Some ''x'')] c')) = Inr m2"
    "map_of (rs_Nodes (rm_state m2)) = map_of (rs_Nodes (rm_state m'))" "Assignments m2 = Assignments m'"
    by (auto simp: plain_node_def mgr0_def mgr_cfg_def)
  with facts(1,2) up show ?thesis by (simp add: members_def Assignments_def)
qed

text \<open>
  Managers do not compare revisions when they save, so one manager undoes another's change.
  A manager that has not registered a node (it joined through another manager and the event is
  not handled yet) saves without it: a manager started from etcd afterwards does not know the
  node, and no lookup returns it.
\<close>

theorem stale_upsert_drops_node:
  assumes "slice_sort srt Hash" and "mgr_ok sha1 srt m" and "client_ok c" and "nd_ID node \<noteq> []"
    and "rm_prefix m \<noteq> []" and "joined \<notin> members m" and "joined \<noteq> nd_ID node"
    and "UpsertNode sha1 srt marshal now node m c = (m', c', Inr v)"
    and "\<forall>e. marshal (rm_state m') = Some e \<longrightarrow> codec_keeps unmarshal e (rm_state m')"
    and "rmc_Etcd cfg = Some c'" and "rmc_Prefix cfg = rm_prefix m" and "rmc_VirtualNodes cfg = rm_vnodes m"
  shows "\<exists>m2. NewRingManager sha1 srt unmarshal cfg = Inr m2 \<and> joined \<notin> members m2 \<and>
    (\<forall>key replicas. joined \<notin> set (Manager_Lookup sha1 m2 key replicas))"
proof -
  obtain e where e: "marshal (rm_state m') = Some e" "view c' (rm_prefix m @ ''/ring'') = Some e"
    and nodes: "rs_Nodes (rm_state m') = AList.update (nd_ID node) (node\<lparr>nd_UpdatedAt := now\<rparr>) (rs_Nodes (rm_state m))"
    using Upsert_change [OF assms(2,3,4,8)] by (auto simp: change_result_def ringKey_def split: option.splits)
  have "0 < rm_vnodes m" using assms(2) by (simp add: mgr_ok_def)
  then obtain m2 where m2: "NewRingManager sha1 srt unmarshal cfg = Inr m2" "mgr_ok sha1 srt m2"
    "map_of (rs_Nodes (rm_state m2)) = map_of (rs_Nodes (rm_state m'))"
    using New_from_stored [of cfg c' e unmarshal "rm_state m'" sha1 srt] assms(5,9-12) e by metis
  from m2(3) nodes assms(6,7) have absent: "joined \<notin> members m2" by (simp add: members_def)
  obtain r where "rm_ring m2 = Some r" "ring_nodes r = members m2"
    by (rule mgr_ring [OF assms(1) m2(2)])
  with ring.place_members [of sha1 r] absent have "joined \<notin> set (Manager_Lookup sha1 m2 key replicas)" for key replicas
    by (auto simp: Manager_Lookup_def)
  with m2(1) absent show ?thesis by blast
qed

lemma stale_upsert_drops_node_witness:
  "let (m1, c1, r1) = upsert_sample ''a'' mgr0 etcd_New;
       (m2, c2, r2) = upsert_sample ''b'' mgr0 c1 in
   r1 = Inr 1 \<and> members m1 = {''a''} \<and>
   (\<exists>m3. NewRingManager sum_digest (sort_key Hash) mgr_unmarshal (mgr_cfg c2) = Inr m3 \<and>
     ''a'' \<notin> members m3)"
proof -
  obtain m1 c1 r1 where up1: "upsert_sample ''a'' mgr0 etcd_New = (m1, c1, r1)"
    by (cases "upsert_sample ''a'' mgr0 etcd_New")
  note facts1 = upsert_sample_facts [OF up1 client_ok_New, simplified]
  obtain m2 c2 r2 where up2: "upsert_sample ''b'' mgr0 c1 = (m2, c2, r2)"
    by (cases "upsert_sample ''b'' mgr0 c1")
  note facts2 = upsert_sample_facts [OF up2 facts1(4), simplified]
  have "UpsertNode sum_digest (sort_key Hash) mgr_marshal 0 (plain_node ''b'') mgr0 c1 = (m2, c2, Inr 1)"
    using up2 facts2(3) by (simp add: upsert_sample_def)
  from stale_upsert_drops_node [OF by_hash.slice_sort_axioms mgr0_ok facts1(4) _ _ _ _ this facts2(5),
      of "''a''" "mgr_cfg c2"]
  have "\<exists>m3. NewRingManager sum_digest (sort_key Hash) mgr_unmarshal (mgr_cfg c2) = Inr m3 \<and>
     ''a'' \<notin> members m3"
    by (auto simp: plain_node_def mgr0_def mgr_cfg_def members_def)
  with up1 up2 facts1 show ?thesis by (simp add: members_def)
qed

lemma applyState_key [simp]:
  "ringKey (applyState sha1 srt st m) = ringKey m" "rm_vnodes (applyState sha1 srt st m) = rm_vnodes m"
  by (simp_all add: applyState_def rebuildLocked_def ringKey_def Let_def)

lemma watch_key:
  "ringKey (fst (watch_events sha1 srt unmarshal evts m)) = ringKey m \<and>
   rm_vnodes (fst (watch_events sha1 srt unmarshal evts m)) = rm_vnodes m"
  by (induction evts arbitrary: m) (simp_all add: Let_def case_prod_beta split: option.split)

lemma watch_append:
  "watch_events sha1 srt unmarshal (evts @ evts') m =
     (let (m1, s1) = watch_events sha1 srt unmarshal evts m;
          (m2, s2) = watch_events sha1 srt unmarshal evts' m1 in (m2, s1 @ s2))"
proof (induction evts arbitrary: m)
  case Nil
  then show ?case by (simp split: prod.split)
next
  case (Cons evt evts)
  then show ?case by (simp add: Let_def case_prod_beta split: option.split)
qed

text \<open>
  A manager that watches follows the last event: after the events of any batch, the last a put
  of the ring key, it has the version, the assignments and the lookups of the manager that made
  that put, and its last ring event carries that version. The version it had before does not
  matter, so a late event takes it back to an older ring.
\<close>

theorem watch_follows_last_event:
  assumes "mgr_ok sha1 srt m" and "decoder_ok unmarshal" and "mgr_ok sha1 srt other"
    and "rm_vnodes other = rm_vnodes m" and "ev_Type evt = EventTypePut" and "ev_Key evt = ringKey m"
    and "codec_keeps unmarshal (ev_Value evt) (rm_state other)"
    and "watch_events sha1 srt unmarshal (evts @ [evt]) m = (m', sent)"
  shows "Assignments m' = Assignments other \<and>
    (\<forall>key replicas. Manager_Lookup sha1 m' key replicas = Manager_Lookup sha1 other key replicas) \<and>
    sent \<noteq> [] \<and> re_Version (last sent) = rs_Version (rm_state other)"
proof -
  obtain m1 s1 where w1: "watch_events sha1 srt unmarshal evts m = (m1, s1)"
    by (cases "watch_events sha1 srt unmarshal evts m")
  have ok1: "mgr_ok sha1 srt m1" and key: "ringKey m1 = ringKey m" and v: "rm_vnodes m1 = rm_vnodes m"
    using mgr_ok_watch [OF assms(1,2), of evts] watch_key [of sha1 srt unmarshal evts m] w1 by simp_all
  obtain st where st: "unmarshal (ev_Value evt) = Some st" "wf_map (rs_Nodes st)"
    "map_of (rs_Nodes st) = map_of (rs_Nodes (rm_state other))" "rs_Version st = rs_Version (rm_state other)"
    using assms(7) by (auto simp: codec_keeps_def)
  have m': "m' = applyState sha1 srt st m1"
    and sent: "sent = s1 @ [\<lparr>re_Version = rs_Version st, re_Assignments = rs_Tokens st\<rparr>]"
    using assms(8) st(1) key by (simp_all add: watch_append w1 assms(5,6))
  have ok': "mgr_ok sha1 srt m'" and v': "rm_vnodes m' = rm_vnodes other"
    using applyState_ok [OF st(2), of m1 sha1 srt] ok1 v assms(4) by (simp_all add: m' mgr_ok_def)
  have nodes: "rs_Nodes (rm_state m') = rs_Nodes st" "rs_Version (rm_state m') = rs_Version st"
    using rebuild_simps [of "m1\<lparr>rm_state := st\<rparr>" sha1 srt] st(2) by (simp_all add: m' applyState_def)
  then have "members m' = members other" using st(3) by (simp add: members_def)
  from same_members_same_ring [OF ok' assms(3) v' this] nodes st(4) sent show ?thesis
    by (simp add: Assignments_def Manager_Lookup_def)
qed

lemma watch_follows_last_event_witness:
  "let (m, c, res) = upsert_sample ''a'' mgr0 etcd_New;
       evt = \<lparr>ev_Type = EventTypePut, ev_Key = ringKey mgr0, ev_Value = [], ev_ModRevision = 1\<rparr> in
   snd (Assignments m) = 1 \<and>
   snd (Assignments (fst (watch_events sum_digest (sort_key Hash) mgr_unmarshal [evt] m))) = 0"
proof -
  obtain m c res where up: "upsert_sample ''a'' mgr0 etcd_New = (m, c, res)"
    by (cases "upsert_sample ''a'' mgr0 etcd_New")
  let ?evt = "\<lparr>ev_Type = EventTypePut, ev_Key = ringKey mgr0, ev_Value = [], ev_ModRevision = 1\<rparr>"
  note facts = upsert_sample_facts [OF up client_ok_New, simplified]
  have ok: "mgr_ok sum_digest (sort_key Hash) m"
    by (rule reach_mgr_ok [OF upsert_reach [OF up] mgr_decoder_ok])
  have same: "rm_vnodes mgr0 = rm_vnodes m" "ringKey m = ringKey mgr0"
    using upsert_sample_change [OF up mgr0_ok client_ok_New] by (simp_all add: change_result_def ringKey_def)
  have "codec_keeps mgr_unmarshal [] (rm_state mgr0)"
    by (simp add: codec_keeps_def mgr_unmarshal_def mgr0_def Let_def)
  with same have "snd (Assignments (fst (watch_events sum_digest (sort_key Hash) mgr_unmarshal [?evt] m))) = 0"
    using watch_follows_last_event [OF ok mgr_decoder_ok mgr0_ok same(1), of ?evt "[]"]
    by (cases "watch_events sum_digest (sort_key Hash) mgr_unmarshal [?evt] m")
      (simp add: Assignments_def mgr0_def)
  with up facts(2) show ?thesis by (simp add: Assignments_def Let_def)
qed

end
