(* ===== verification/StoragePb.thy ===== *)
theory StoragePb
  imports Prelude
begin

text \<open>
  The messages of \<open>internal/storage/proto/storage.pb.go\<close> and its in-process stream. A pointer
  that may be nil is an \<open>option\<close>, an interface value with three implementations a datatype with
  three constructors. A Go error is \<open>EOF\<close>, an error value known by its text, or the aggregate
  of \<open>internal/storage/replication.go\<close>.
\<close>

section \<open>Errors and messages\<close>

datatype go_error = EOF | Err string | ErrReplicationFailed "(string \<times> go_error) list"

record SegmentLocator =
  loc_Bucket :: string
  loc_Object :: string

record UploadSegmentHeader =
  hdr_SegmentId :: string
  hdr_Locator :: "SegmentLocator option"
  hdr_ContentType :: string
  hdr_SizeBytes :: i64
  hdr_Checksum :: string
  hdr_Attributes :: "(string, string) gomap"
  hdr_S3Bucket :: string
  hdr_S3Key :: string

record ReplicaAck =
  ack_NodeId :: string
  ack_Success :: bool
  ack_ErrorMessage :: string

datatype UploadSegmentRequest =
    Req_Header "UploadSegmentHeader option" | Req_Chunk "byte list" | Req_Commit bool

definition NewUploadSegmentRequestHeader :: "UploadSegmentHeader option \<Rightarrow> UploadSegmentRequest" where
  "NewUploadSegmentRequestHeader header = Req_Header header"

definition NewUploadSegmentRequestChunk :: "byte list \<Rightarrow> UploadSegmentRequest" where
  "NewUploadSegmentRequestChunk data = Req_Chunk data"

definition NewUploadSegmentRequestCommit :: UploadSegmentRequest where
  "NewUploadSegmentRequestCommit = Req_Commit True"

definition GetHeader :: "UploadSegmentRequest option \<Rightarrow> UploadSegmentHeader option" where
  "GetHeader x = (case x of Some (Req_Header h) \<Rightarrow> h | _ \<Rightarrow> None)"

definition GetChunk :: "UploadSegmentRequest option \<Rightarrow> byte list" where
  "GetChunk x = (case x of Some (Req_Chunk chunk) \<Rightarrow> chunk | _ \<Rightarrow> [])"

definition GetCommit :: "UploadSegmentRequest option \<Rightarrow> bool" where
  "GetCommit x = (case x of Some (Req_Commit commit) \<Rightarrow> commit | _ \<Rightarrow> False)"

record UploadSegmentResponse =
  upl_SizeCommitted :: i64
  upl_Checksum :: string
  upl_ReplicaStatus :: "ReplicaAck list"

record GetSegmentRequest =
  gs_Locator :: "SegmentLocator option"
  gs_Offset :: i64
  gs_Length :: i64

record GetSegmentResponse =
  gsr_Chunk :: "byte list"
  gsr_Eof :: bool

record VirtualNode =
  vn_Id :: string
  vn_Token :: u64
  vn_OwnerNodeId :: string

record HeartbeatRequest =
  hb_NodeId :: string
  hb_AdvertiseAddress :: string
  hb_CapacityBytes :: i64
  hb_AvailableBytes :: i64
  hb_VirtualNodes :: "VirtualNode list"
  hb_SegmentsServing :: i64

record HeartbeatResponse =
  hbr_LeaseTtlSeconds :: i64
  hbr_RequireRebalance :: bool
  hbr_RingVersion :: i64

record RebalancePlan =
  plan_PlanId :: string
  plan_RingVersion :: i64
  plan_Assignments :: "VirtualNode list"

section \<open>The in-process stream\<close>

record localStream =
  ls_req :: "UploadSegmentRequest option list"
  ls_res :: "UploadSegmentResponse option"
  ls_err :: "go_error option"

definition newLocalStream :: localStream where
  "newLocalStream = \<lparr>ls_req = [], ls_res = None, ls_err = None\<rparr>"

definition localStream_Send :: "UploadSegmentRequest option \<Rightarrow> localStream \<Rightarrow> localStream \<times> go_error option" where
  "localStream_Send req s =
     (case ls_err s of
        Some e \<Rightarrow> (s, Some e)
      | None \<Rightarrow> (s\<lparr>ls_req := ls_req s @ [req]\<rparr>, None))"

definition localStream_CloseAndRecv :: "localStream \<Rightarrow> UploadSegmentResponse option \<times> go_error option" where
  "localStream_CloseAndRecv s = (ls_res s, ls_err s)"

text \<open>At the end of the requests \<open>Recv\<close> returns no message and the stream's error, which may be nil.\<close>

definition localStream_Recv :: "localStream \<Rightarrow> localStream \<times> UploadSegmentRequest option \<times> go_error option" where
  "localStream_Recv s =
     (case ls_req s of
        [] \<Rightarrow> (s, None, ls_err s)
      | req # reqs \<Rightarrow> (s\<lparr>ls_req := reqs\<rparr>, req, None))"

definition localStream_SendAndClose :: "UploadSegmentResponse \<Rightarrow> localStream \<Rightarrow> localStream \<times> go_error option" where
  "localStream_SendAndClose res s =
     (case ls_err s of
        Some e \<Rightarrow> (s, Some e)
      | None \<Rightarrow> (s\<lparr>ls_res := Some res\<rparr>, None))"

text \<open>
  \<open>InvokeUploadSegment\<close> runs a server on such a stream. The server may not return, which is the
  outer \<open>None\<close>; it also has a world of its own.
\<close>

definition InvokeUploadSegment :: "(localStream \<Rightarrow> 'w \<Rightarrow> (localStream \<times> 'w \<times> go_error option) option) \<Rightarrow>
    UploadSegmentRequest option list \<Rightarrow> 'w \<Rightarrow> ('w \<times> (go_error + UploadSegmentResponse)) option" where
  "InvokeUploadSegment srv reqs w =
     (let stream = newLocalStream\<lparr>ls_req := ls_req newLocalStream @ reqs\<rparr> in
      (case srv stream w of
         None \<Rightarrow> None
       | Some (stream, w, Some e) \<Rightarrow> Some (w, Inl e)
       | Some (stream, w, None) \<Rightarrow>
           Some (w, case ls_err stream of
                      Some e \<Rightarrow> Inl e
                    | None \<Rightarrow>
                        (case ls_res stream of
                           None \<Rightarrow> Inl (Err ''storagepb: UploadSegment stream closed without response'')
                         | Some res \<Rightarrow> Inr res))))"

end
