(* ===== verification/Paths.thy ===== *)
theory Paths
  imports Prelude
begin

text \<open>
  Slash-separated paths: what the program uses of Go's \<open>path\<close> and \<open>path/filepath\<close> (on Unix the
  two clean paths alike), with the laws of splitting, joining and cleaning.
\<close>

section \<open>Joining and cleaning\<close>

text \<open>\<open>filepath.Join\<close> and \<open>filepath.Clean\<close> on Unix.\<close>

fun split_on :: "char \<Rightarrow> string \<Rightarrow> string list" where
  "split_on c [] = [[]]"
| "split_on c (x # xs) =
     (if x = c then [] # split_on c xs
      else (case split_on c xs of [] \<Rightarrow> [[x]] | w # ws \<Rightarrow> (x # w) # ws))"

fun join_with :: "string \<Rightarrow> string list \<Rightarrow> string" where
  "join_with sep [] = []"
| "join_with sep [x] = x"
| "join_with sep (x # y # ys) = x @ sep @ join_with sep (y # ys)"

definition clean_step :: "bool \<Rightarrow> string list \<Rightarrow> string \<Rightarrow> string list" where
  "clean_step rooted out part =
     (if part = [] \<or> part = ''.'' then out
      else if part = ''..'' then
        if out \<noteq> [] \<and> last out \<noteq> ''..'' then butlast out
        else if rooted then out else out @ [''..'']
      else out @ [part])"

definition filepath_Clean :: "string \<Rightarrow> string" where
  "filepath_Clean p =
     (if p = [] then ''.''
      else
        let rooted = (hd p = CHR ''/'');
            comps = foldl (clean_step rooted) [] (split_on CHR ''/'' p);
            body = join_with ''/'' comps
        in if rooted then CHR ''/'' # body else if comps = [] then ''.'' else body)"

definition filepath_Join :: "string list \<Rightarrow> string" where
  "filepath_Join elems =
     (case dropWhile (\<lambda>e. e = []) elems of
        [] \<Rightarrow> []
      | es \<Rightarrow> filepath_Clean (join_with ''/'' es))"

section \<open>Laws\<close>

text \<open>Paths: splitting, joining and cleaning their components.\<close>

lemma split_on_nonempty [simp]: "split_on c xs \<noteq> []"
  by (induction xs) (auto split: list.split)

lemma split_on_append: "split_on c (a @ c # b) = split_on c a @ split_on c b"
proof (induction a)
  case Nil
  then show ?case by simp
next
  case (Cons x a)
  then show ?case by (cases "split_on c a") auto
qed

lemma split_on_none: "c \<notin> set a \<Longrightarrow> split_on c a = [a]"
  by (induction a) auto

lemma split_on_join:
  "rs \<noteq> [] \<Longrightarrow> \<forall>r \<in> set rs. c \<notin> set r \<Longrightarrow> split_on c (join_with [c] rs) = rs"
  by (induction "[c]" rs rule: join_with.induct) (simp_all add: split_on_none split_on_append)

lemma clean_no_dots:
  "''..'' \<notin> set cs \<Longrightarrow> foldl (clean_step rooted) out cs = out @ filter (\<lambda>c. c \<noteq> [] \<and> c \<noteq> ''.'') cs"
  by (induction cs arbitrary: out) (auto simp: clean_step_def)

text \<open>An absolute, clean root directory with the components \<open>rs\<close>.\<close>

definition root_of :: "string list \<Rightarrow> string" where
  "root_of rs = CHR ''/'' # join_with ''/'' rs"

definition clean_parts :: "string list \<Rightarrow> bool" where
  "clean_parts rs \<longleftrightarrow> rs \<noteq> [] \<and> (\<forall>r \<in> set rs. r \<noteq> [] \<and> r \<noteq> ''.'' \<and> r \<noteq> ''..'' \<and> CHR ''/'' \<notin> set r)"

end
