(* ===== verification/Storage.thy ===== *)
theory Storage
  imports Manager StoragePb Paths
begin

text \<open>
  The storage node: \<open>internal/storage/fs.go\<close>, \<open>replication.go\<close>, \<open>metadata.go\<close>, \<open>s3.go\<close>,
  \<open>rebalance.go\<close> and the RPCs of \<open>service.go\<close>.

  The file system is a map from path to contents, and each system call may fail: which ones do,
  and how far a copy gets, is an argument (\<open>fs_faults\<close>). \<open>sha256\<close> is the digest of the standard
  library; transports and uploaders are functions that give their error or nil.
\<close>

section \<open>The file store\<close>

type_synonym files = "string \<rightharpoonup> byte list"

record FS =
  fs_root :: string

definition NewFS :: "string \<Rightarrow> FS" where
  "NewFS root = \<lparr>fs_root = root\<rparr>"

definition fullPath :: "FS \<Rightarrow> string \<Rightarrow> string \<Rightarrow> string" where
  "fullPath f bucket object = filepath_Join [fs_root f, bucket, object]"

definition hex_digit :: "nat \<Rightarrow> char" where
  "hex_digit d = (if d < 10 then char_of (48 + d) else char_of (87 + d))"

definition hex_encode :: "byte list \<Rightarrow> string" where
  "hex_encode bs = concat (map (\<lambda>b. [hex_digit (unat b div 16), hex_digit (unat b mod 16)]) bs)"

text \<open>
  The outcome of the system calls of one \<open>Put\<close>: the error of each call that fails, the bytes
  that were copied when the copy fails, and whether the removal of the temporary file works.
\<close>

record fs_faults =
  f_mkdir :: "go_error option"
  f_create :: "go_error option"
  f_copy :: "go_error option"
  f_copied :: nat
  f_sync :: "go_error option"
  f_close :: "go_error option"
  f_rename :: "go_error option"
  f_remove :: bool

definition os_Remove :: "fs_faults \<Rightarrow> string \<Rightarrow> files \<Rightarrow> files" where
  "os_Remove ft path m = (if f_remove ft then m(path := None) else m)"

text \<open>
  \<open>Put\<close> returns the size, the checksum and the error. When the copy fails, the error it returns
  is the variable \<open>err\<close>, which is nil at that point.
\<close>

definition FS_Put :: "(byte list \<Rightarrow> byte list) \<Rightarrow> fs_faults \<Rightarrow> FS \<Rightarrow> string \<Rightarrow> string \<Rightarrow> byte list \<Rightarrow>
    files \<Rightarrow> files \<times> i64 \<times> string \<times> go_error option" where
  "FS_Put sha256 ft f bucket object r m =
     (let path = fullPath f bucket object in
      case f_mkdir ft of
        Some err \<Rightarrow> (m, 0, [], Some err)
      | None \<Rightarrow>
          let tmp = path @ ''.tmp'' in
          (case f_create ft of
             Some err \<Rightarrow> (m, 0, [], Some err)
           | None \<Rightarrow>
               let err = None in
               (case f_copy ft of
                  Some copyErr \<Rightarrow> (os_Remove ft tmp (m(tmp \<mapsto> take (f_copied ft) r)), 0, [], err)
                | None \<Rightarrow>
                    let m = m(tmp \<mapsto> r) in
                    (case f_sync ft of
                       Some err \<Rightarrow> (os_Remove ft tmp m, 0, [], Some err)
                     | None \<Rightarrow>
                         (case f_close ft of
                            Some err \<Rightarrow> (os_Remove ft tmp m, 0, [], Some err)
                          | None \<Rightarrow>
                              (case f_rename ft of
                                 Some err \<Rightarrow> (os_Remove ft tmp m, 0, [], Some err)
                               | None \<Rightarrow> ((m(path := m tmp))(tmp := None), of_nat (length r),
                                   hex_encode (sha256 r), None)))))))"

text \<open>
  The map holds files only. A path that is a directory on disk is absent here: \<open>os.Open\<close> opens it
  and its first read fails.
\<close>

definition FS_Get :: "FS \<Rightarrow> string \<Rightarrow> string \<Rightarrow> files \<Rightarrow> go_error + byte list" where
  "FS_Get f bucket object m =
     (let path = fullPath f bucket object in
      (case m path of
         None \<Rightarrow> Inl (Err (''open '' @ path @ '': no such file or directory''))
       | Some data \<Rightarrow> Inr data))"

section \<open>Replication\<close>

type_synonym replica_handler = "UploadSegmentHeader \<Rightarrow> byte list \<Rightarrow> go_error option"

definition NoopReplicationTransport :: "string \<Rightarrow> replica_handler" where
  "NoopReplicationTransport nodeID header payload = None"

definition Transport_Register :: "string \<Rightarrow> replica_handler \<Rightarrow> (string, replica_handler) gomap \<Rightarrow>
    (string, replica_handler) gomap" where
  "Transport_Register nodeID handler handlers = AList.update nodeID handler handlers"

definition InProcess_ReplicateSegment :: "(string, replica_handler) gomap \<Rightarrow> string \<Rightarrow> replica_handler" where
  "InProcess_ReplicateSegment handlers nodeID header payload =
     (case map_of handlers nodeID of
        None \<Rightarrow> Some (Err (''storage: no replication handler for node '' @ nodeID))
      | Some handler \<Rightarrow> handler header payload)"

fun Error :: "go_error \<Rightarrow> string" where
  "Error EOF = ''EOF''"
| "Error (Err msg) = msg"
| "Error (ErrReplicationFailed errs) =
     (if length errs = 0 then ''replication failed''
      else ''replication failed for '' @ itoa (length errs) @ '' replicas'')"

text \<open>\<open>errors.Is(err, io.EOF)\<close>: the error or the first one it wraps, and so on.\<close>

fun Unwrap :: "go_error \<Rightarrow> go_error option" where
  "Unwrap (ErrReplicationFailed ((n, err) # errs)) = Some err"
| "Unwrap _ = None"

fun Is_EOF :: "go_error \<Rightarrow> bool" where
  "Is_EOF EOF = True"
| "Is_EOF (Err msg) = False"
| "Is_EOF (ErrReplicationFailed []) = False"
| "Is_EOF (ErrReplicationFailed ((n, err) # errs)) = Is_EOF err"

definition MergeReplicationErrors :: "(string, go_error option) gomap \<Rightarrow> go_error option" where
  "MergeReplicationErrors results =
     (let failed = fold (\<lambda>(nodeID, err) failed. case err of
                       Some e \<Rightarrow> AList.update nodeID e failed | None \<Rightarrow> failed) results []
      in if length failed = 0 then None else Some (ErrReplicationFailed failed))"

fun has_target :: "string list \<Rightarrow> string \<Rightarrow> bool" where
  "has_target [] primary = False"
| "has_target (t # ts) primary = (if t = primary then True else has_target ts primary)"

definition ValidateReplicationTargets :: "string list \<Rightarrow> string \<Rightarrow> go_error option" where
  "ValidateReplicationTargets targets primary =
     (if length targets = 0 then Some (Err ''storage: replica set cannot be empty'')
      else if has_target targets primary then None
      else Some (Err (''storage: replica set missing primary '' @ primary)))"

section \<open>Segment metadata\<close>

record SegmentRecord =
  sr_SegmentID :: string
  sr_Locator :: SegmentLocator
  sr_PrimaryNode :: string
  sr_Replicas :: "string list"
  sr_Checksum :: string
  sr_SizeBytes :: i64
  sr_Attributes :: "(string, string) gomap"
  sr_UpdatedAt :: int

definition NewEtcdMetadataStore :: "Client option \<Rightarrow> string \<Rightarrow> go_error + string" where
  "NewEtcdMetadataStore etcd pfx =
     (if etcd = None then Inl (Err ''storage: etcd client is required for metadata store'')
      else Inr (if pfx = [] then ''/storage/segments'' else pfx))"

definition segment_key :: "string \<Rightarrow> string \<Rightarrow> string" where
  "segment_key pfx segmentID = pfx @ ''/'' @ segmentID"

text \<open>\<open>PutSegment\<close> on the etcd store with a given prefix; \<open>encode\<close> is its JSON encoder.\<close>

definition PutSegment :: "(SegmentRecord \<Rightarrow> go_error + string) \<Rightarrow> string \<Rightarrow> int \<Rightarrow> SegmentRecord \<Rightarrow> Client \<Rightarrow>
    Client \<times> go_error option" where
  "PutSegment encode pfx now seg c =
     (if sr_SegmentID seg = [] then (c, Some (Err ''storage: segment id is required''))
      else
        let seg = seg\<lparr>sr_UpdatedAt := now\<rparr> in
        (case encode seg of
           Inl err \<Rightarrow> (c, Some (Err (''storage: failed to encode metadata: '' @ Error err)))
         | Inr encoded \<Rightarrow>
             (case Client_Put (segment_key pfx (sr_SegmentID seg)) encoded c of
                (c, Inl e) \<Rightarrow> (c, Some (Err (etcd_message e)))
              | (c, Inr _) \<Rightarrow> (c, None))))"

section \<open>The storage service\<close>

type_synonym uploader = "string \<Rightarrow> string \<Rightarrow> byte list \<Rightarrow> go_error option"

definition NoopS3Uploader :: uploader where
  "NoopS3Uploader bucket key body = None"

definition BufferedS3Uploader :: "uploader option \<Rightarrow> uploader" where
  "BufferedS3Uploader uploadFunc bucket key body =
     (case uploadFunc of None \<Rightarrow> None | Some f \<Rightarrow> f bucket key body)"

record StorageService =
  ss_nodeID :: string
  ss_fs :: FS
  ss_s3 :: uploader
  ss_transport :: "string \<Rightarrow> replica_handler"
  ss_metadata :: "(SegmentRecord \<Rightarrow> Client \<Rightarrow> Client \<times> go_error option) option"
  ss_replicationFactor :: int
  ss_leaseTTL :: int

record StorageConfig =
  sc_NodeID :: string
  sc_Ring :: "RingManager option"
  sc_Filesystem :: "FS option"
  sc_S3 :: "uploader option"
  sc_Transport :: "(string \<Rightarrow> replica_handler) option"
  sc_Metadata :: "(SegmentRecord \<Rightarrow> Client \<Rightarrow> Client \<times> go_error option) option"
  sc_ReplicationFactor :: int
  sc_LeaseTTL :: int

text \<open>Durations are counted in nanoseconds.\<close>

definition NewStorageService :: "StorageConfig \<Rightarrow> go_error + StorageService" where
  "NewStorageService cfg =
     (if sc_NodeID cfg = [] then Inl (Err ''storage: node id is required'')
      else if sc_Ring cfg = None then Inl (Err ''storage: ring manager is required'')
      else
        (case sc_Filesystem cfg of
           None \<Rightarrow> Inl (Err ''storage: filesystem is required'')
         | Some fs \<Rightarrow>
             Inr \<lparr>ss_nodeID = sc_NodeID cfg, ss_fs = fs,
                  ss_s3 = (case sc_S3 cfg of None \<Rightarrow> NoopS3Uploader | Some s3 \<Rightarrow> s3),
                  ss_transport = (case sc_Transport cfg of None \<Rightarrow> NoopReplicationTransport | Some t \<Rightarrow> t),
                  ss_metadata = sc_Metadata cfg,
                  ss_replicationFactor = (if sc_ReplicationFactor cfg \<le> 0 then 3 else sc_ReplicationFactor cfg),
                  ss_leaseTTL = (if sc_LeaseTTL cfg \<le> 0 then 15 * 10 ^ 9 else sc_LeaseTTL cfg)\<rparr>))"

text \<open>What the service shares with others: the ring manager, the etcd client and the file system.\<close>

record storage_world =
  sw_ring :: RingManager
  sw_etcd :: Client
  sw_files :: files

text \<open>
  The receive loop of \<open>UploadSegment\<close>, on any stream. It returns only when the stream ends, fails
  or commits: not returning is the value \<open>None\<close>.
\<close>

partial_function (option) recv_payload ::
  "('s \<Rightarrow> 's \<times> UploadSegmentRequest option \<times> go_error option) \<Rightarrow> 's \<Rightarrow> byte list \<Rightarrow>
     ('s \<times> (go_error + byte list)) option" where
  "recv_payload recv stream payload =
     (case recv stream of
        (stream, msg, Some err) \<Rightarrow>
          if Is_EOF err then Some (stream, Inr payload) else Some (stream, Inl err)
      | (stream, msg, None) \<Rightarrow>
          let chunk = GetChunk msg;
              payload = (if length chunk > 0 then payload @ chunk else payload)
          in if GetCommit msg then Some (stream, Inr payload) else recv_payload recv stream payload)"

definition s3_name :: "UploadSegmentHeader \<Rightarrow> string" where
  "s3_name header = ''s3:'' @ hdr_S3Bucket header @ ''/'' @ hdr_S3Key header"

text \<open>
  The goroutines of an upload: one per replica, one for S3. \<open>sched\<close> is the order in which their
  results arrive, and in which the results are visited afterwards.
\<close>

definition upload_results :: "((string \<times> go_error option) list \<Rightarrow> (string \<times> go_error option) list) \<Rightarrow>
    StorageService \<Rightarrow> UploadSegmentHeader \<Rightarrow> byte list \<Rightarrow> string list \<Rightarrow> (string, go_error option) gomap" where
  "upload_results sched svc header data targets =
     (let replicas = map (\<lambda>n. (n, ss_transport svc n header data)) (filter (\<lambda>n. n \<noteq> ss_nodeID svc) targets);
          backup = (if hdr_S3Bucket header \<noteq> [] \<and> hdr_S3Key header \<noteq> []
                    then [(s3_name header, ss_s3 svc (hdr_S3Bucket header) (hdr_S3Key header) data)] else [])
      in fold (\<lambda>(n, err) results. AList.update n err results) (sched (replicas @ backup)) [(ss_nodeID svc, None)])"

definition replica_acks :: "string \<Rightarrow> (string, go_error option) gomap \<Rightarrow> ReplicaAck list" where
  "replica_acks nodeID results =
     map (\<lambda>(n, err). \<lparr>ack_NodeId = n, ack_Success = (err = None),
            ack_ErrorMessage = (case err of Some e \<Rightarrow> Error e | None \<Rightarrow> [])\<rparr>)
       (filter (\<lambda>(n, err). n \<noteq> nodeID) results)"

definition result_of :: "(string, go_error option) gomap \<Rightarrow> string \<Rightarrow> go_error option" where
  "result_of results n = (case map_of results n of Some err \<Rightarrow> err | None \<Rightarrow> None)"

definition segment_record :: "StorageService \<Rightarrow> UploadSegmentHeader \<Rightarrow> SegmentLocator \<Rightarrow> string list \<Rightarrow>
    (string, go_error option) gomap \<Rightarrow> i64 \<Rightarrow> string \<Rightarrow> SegmentRecord" where
  "segment_record svc header loc targets results sz checksum =
     \<lparr>sr_SegmentID = hdr_SegmentId header, sr_Locator = loc, sr_PrimaryNode = ss_nodeID svc,
      sr_Replicas =
        filter (\<lambda>n. n \<noteq> ss_nodeID svc \<and> result_of results n = None) targets @
        (if hdr_S3Bucket header \<noteq> [] \<and> hdr_S3Key header \<noteq> [] \<and> result_of results (s3_name header) = None
         then [s3_name header] else []),
      sr_Checksum = checksum, sr_SizeBytes = sz, sr_Attributes = hdr_Attributes header, sr_UpdatedAt = 0\<rparr>"

definition failed_ack :: "string \<Rightarrow> go_error \<Rightarrow> ReplicaAck" where
  "failed_ack n e = \<lparr>ack_NodeId = n, ack_Success = False, ack_ErrorMessage = Error e\<rparr>"

definition ok_ack :: "string \<Rightarrow> ReplicaAck" where
  "ok_ack n = \<lparr>ack_NodeId = n, ack_Success = True, ack_ErrorMessage = []\<rparr>"

text \<open>The part of \<open>UploadSegment\<close> after the targets are valid: replicate, save the segment's record, and acknowledge.\<close>

definition replicate_segment :: "((string \<times> go_error option) list \<Rightarrow> (string \<times> go_error option) list) \<Rightarrow>
    StorageService \<Rightarrow> UploadSegmentHeader \<Rightarrow> SegmentLocator \<Rightarrow> byte list \<Rightarrow> i64 \<Rightarrow> string \<Rightarrow> string list \<Rightarrow>
    Client \<Rightarrow> Client \<times> UploadSegmentResponse" where
  "replicate_segment sched svc header loc data sz checksum targets c =
     (let results = upload_results sched svc header data targets;
          status = ok_ack (ss_nodeID svc) # replica_acks (ss_nodeID svc) results;
          aggregateErr = MergeReplicationErrors results;
          (c, status) =
            (case ss_metadata svc of
               None \<Rightarrow> (c, status)
             | Some putSegment \<Rightarrow>
                 (case aggregateErr of
                    None \<Rightarrow>
                      (case putSegment (segment_record svc header loc targets results sz checksum) c of
                         (c, Some err) \<Rightarrow> (c, status @ [failed_ack ''metadata'' err])
                       | (c, None) \<Rightarrow> (c, status @ [ok_ack ''metadata'']))
                  | Some err \<Rightarrow> (c, status @ [failed_ack ''metadata'' err])));
          status = (case aggregateErr of
                      None \<Rightarrow> status
                    | Some err \<Rightarrow> status @ [failed_ack ''replication'' err])
      in (c, \<lparr>upl_SizeCommitted = sz, upl_Checksum = checksum, upl_ReplicaStatus = status\<rparr>))"

definition UploadSegment :: "(byte list \<Rightarrow> byte list) \<Rightarrow> digest \<Rightarrow>
    ((string \<times> go_error option) list \<Rightarrow> (string \<times> go_error option) list) \<Rightarrow> fs_faults \<Rightarrow>
    ('s \<Rightarrow> 's \<times> UploadSegmentRequest option \<times> go_error option) \<Rightarrow>
    (UploadSegmentResponse \<Rightarrow> 's \<Rightarrow> 's \<times> go_error option) \<Rightarrow>
    StorageService \<Rightarrow> 's \<Rightarrow> storage_world \<Rightarrow> ('s \<times> storage_world \<times> go_error option) option" where
  "UploadSegment sha256 sha1 sched ft recv sendAndClose svc stream w =
     (case recv stream of
        (stream, first, Some err) \<Rightarrow> Some (stream, w, Some err)
      | (stream, first, None) \<Rightarrow>
     (case GetHeader first of
        None \<Rightarrow> Some (stream, w, Some (Err ''storage: upload stream missing header''))
      | Some header \<Rightarrow>
     (case hdr_Locator header of
        None \<Rightarrow> Some (stream, w, Some (Err ''storage: upload header missing locator''))
      | Some loc \<Rightarrow>
     (if hdr_SegmentId header = [] then Some (stream, w, Some (Err ''storage: segment id is required''))
      else
     (case recv_payload recv stream [] of
        None \<Rightarrow> None
      | Some (stream, Inl err) \<Rightarrow> Some (stream, w, Some err)
      | Some (stream, Inr data) \<Rightarrow>
     (case FS_Put sha256 ft (ss_fs svc) (loc_Bucket loc) (loc_Object loc) data (sw_files w) of
        (fs, sz, checksum, Some err) \<Rightarrow>
          Some (stream, w\<lparr>sw_files := fs\<rparr>, Some (Err (''storage: failed to persist segment: '' @ Error err)))
      | (fs, sz, checksum, None) \<Rightarrow>
          let w = w\<lparr>sw_files := fs\<rparr>;
              targets = Manager_Lookup sha1 (sw_ring w) (hdr_SegmentId header) (ss_replicationFactor svc);
              targets = (if length targets = 0 then [ss_nodeID svc] else targets)
          in (case ValidateReplicationTargets targets (ss_nodeID svc) of
                Some err \<Rightarrow> Some (stream, w, Some err)
              | None \<Rightarrow>
                  (case replicate_segment sched svc header loc data sz checksum targets (sw_etcd w) of
                     (c, resp) \<Rightarrow>
                       (case sendAndClose resp stream of
                          (stream, err) \<Rightarrow> Some (stream, w\<lparr>sw_etcd := c\<rparr>, err))))))))))"

text \<open>
  \<open>GetSegment\<close> reads through a buffer of 128 KiB: \<open>rd\<close> gives the size of the next read or its
  error, from what is left of the file. A read returns at least one byte until the end.
\<close>

definition read_size :: "nat \<Rightarrow> byte list \<Rightarrow> nat" where
  "read_size n rest = max 1 (min n (min (128 * 1024) (length rest)))"

function send_chunks :: "(GetSegmentResponse \<Rightarrow> 's \<Rightarrow> 's \<times> go_error option) \<Rightarrow>
    (byte list \<Rightarrow> go_error + nat) \<Rightarrow> byte list \<Rightarrow> 's \<Rightarrow> 's \<times> go_error option" where
  "send_chunks send rd rest stream =
     (case rd rest of
        Inl err \<Rightarrow> (stream, Some err)
      | Inr n \<Rightarrow>
          if rest = [] then send \<lparr>gsr_Chunk = [], gsr_Eof = True\<rparr> stream
          else
            (case send \<lparr>gsr_Chunk = take (read_size n rest) rest, gsr_Eof = False\<rparr> stream of
               (stream, Some err) \<Rightarrow> (stream, Some err)
             | (stream, None) \<Rightarrow> send_chunks send rd (drop (read_size n rest) rest) stream))"
  by pat_completeness auto
termination
  by (relation "measure (\<lambda>(send, rd, rest, stream). length rest)") (auto simp: read_size_def)

declare send_chunks.simps [simp del]

definition GetSegment :: "(GetSegmentResponse \<Rightarrow> 's \<Rightarrow> 's \<times> go_error option) \<Rightarrow>
    (byte list \<Rightarrow> go_error + nat) \<Rightarrow> StorageService \<Rightarrow> GetSegmentRequest option \<Rightarrow> storage_world \<Rightarrow> 's \<Rightarrow>
    's \<times> go_error option" where
  "GetSegment send rd svc request w stream =
     (case Option.bind request gs_Locator of
        None \<Rightarrow> (stream, Some (Err ''storage: locator required''))
      | Some loc \<Rightarrow>
          (case FS_Get (ss_fs svc) (loc_Bucket loc) (loc_Object loc) (sw_files w) of
             Inl err \<Rightarrow> (stream, Some err)
           | Inr data \<Rightarrow> send_chunks send rd data stream))"

datatype heartbeat_error = HeartbeatRequired | HeartbeatNodeID | HeartbeatRing mgr_error

definition Heartbeat :: "digest \<Rightarrow> token_sort \<Rightarrow> (ringState \<Rightarrow> string option) \<Rightarrow> int \<Rightarrow> StorageService \<Rightarrow>
    HeartbeatRequest option \<Rightarrow> storage_world \<Rightarrow> storage_world \<times> (heartbeat_error + HeartbeatResponse)" where
  "Heartbeat sha1 srt marshal now svc request w =
     (case request of
        None \<Rightarrow> (w, Inl HeartbeatRequired)
      | Some req \<Rightarrow>
          if hb_NodeId req = [] then (w, Inl HeartbeatNodeID)
          else
            (case UpsertNode sha1 srt marshal now
                    \<lparr>nd_ID = hb_NodeId req, nd_Address = hb_AdvertiseAddress req,
                     nd_CapacityBytes = hb_CapacityBytes req, nd_AvailableBytes = hb_AvailableBytes req,
                     nd_UpdatedAt = 0\<rparr> (sw_ring w) (sw_etcd w) of
               (m, c, res) \<Rightarrow>
                 (w\<lparr>sw_ring := m, sw_etcd := c\<rparr>,
                  (case res of
                     Inl e \<Rightarrow> Inl (HeartbeatRing e)
                   | Inr version \<Rightarrow>
                       Inr \<lparr>hbr_LeaseTtlSeconds = of_int (ss_leaseTTL svc div 10 ^ 9),
                            hbr_RequireRebalance = False, hbr_RingVersion = version\<rparr>))))"

section \<open>Rebalancing\<close>

definition itoa_i64 :: "i64 \<Rightarrow> string" where
  "itoa_i64 v = print_int (sint v)"

definition plan_nodes :: "VirtualNodeAssignment list \<Rightarrow> VirtualNode list" where
  "plan_nodes as = map (\<lambda>a. \<lparr>vn_Id = va_ID a, vn_Token = va_Token a, vn_OwnerNodeId = va_NodeID a\<rparr>) as"

definition Rebalance :: "nat \<Rightarrow> storage_world \<Rightarrow> RebalancePlan" where
  "Rebalance now w =
     (case Assignments (sw_ring w) of
        (assignments, version) \<Rightarrow>
          \<lparr>plan_PlanId = ''plan-'' @ itoa now, plan_RingVersion = version,
           plan_Assignments = plan_nodes assignments\<rparr>)"

text \<open>
  \<open>Rebalancer.Run\<close> on the events it receives until the channel closes or the context ends: the
  plans that were executed, in order, and the error that stopped it.
\<close>

definition event_plan :: "RingEvent \<Rightarrow> RebalancePlan" where
  "event_plan evt =
     \<lparr>plan_PlanId = ''rebalance-'' @ itoa_i64 (re_Version evt), plan_RingVersion = re_Version evt,
      plan_Assignments = plan_nodes (re_Assignments evt)\<rparr>"

fun run_events :: "(RebalancePlan \<Rightarrow> go_error option) \<Rightarrow> RingEvent list \<Rightarrow> RebalancePlan list \<times> go_error option" where
  "run_events executePlan [] = ([], None)"
| "run_events executePlan (evt # evts) =
     (case executePlan (event_plan evt) of
        Some err \<Rightarrow> ([event_plan evt], Some err)
      | None \<Rightarrow> (case run_events executePlan evts of (plans, err) \<Rightarrow> (event_plan evt # plans, err)))"

definition Rebalancer_Run :: "RingManager option \<Rightarrow> (int \<Rightarrow> RebalancePlan \<Rightarrow> go_error option) option \<Rightarrow> int \<Rightarrow>
    RingEvent list \<Rightarrow> RebalancePlan list \<times> go_error option" where
  "Rebalancer_Run mgr executor deadline evts =
     (case mgr of
        None \<Rightarrow> ([], Some (Err ''storage: rebalancer requires a ring manager''))
      | Some _ \<Rightarrow>
          let exec = (case executor of None \<Rightarrow> (\<lambda>deadline plan. None) | Some e \<Rightarrow> e);
              deadline = (if deadline \<le> 0 then 5 * 10 ^ 9 else deadline)
          in run_events (exec deadline) evts)"

section \<open>The receive loop\<close>

text \<open>The \<open>n\<close>-th message of a stream, and the messages at which the loop stops.\<close>

definition recv_at :: "('s \<Rightarrow> 's \<times> 'm \<times> 'e) \<Rightarrow> 's \<Rightarrow> nat \<Rightarrow> 's \<times> 'm \<times> 'e" where
  "recv_at recv s n = recv (((\<lambda>s. fst (recv s)) ^^ n) s)"

definition stops :: "'s \<times> UploadSegmentRequest option \<times> go_error option \<Rightarrow> bool" where
  "stops r \<longleftrightarrow> snd (snd r) \<noteq> None \<or> GetCommit (fst (snd r))"

lemma recv_at_0 [simp]: "recv_at recv s 0 = recv s"
  by (simp add: recv_at_def)

lemma recv_at_Suc [simp]: "recv_at recv s (Suc n) = recv_at recv (fst (recv s)) n"
  by (simp add: recv_at_def funpow_Suc_right del: funpow.simps)

lemma recv_payload_stops:
  assumes "recv_payload recv s p = Some r"
  shows "\<exists>n. stops (recv_at recv s n)"
proof (rule recv_payload.raw_induct [where P = "\<lambda>recv s p r. \<exists>n. stops (recv_at recv s n)",
      OF _ assms], goal_cases)
  case (1 loop recv s p r)
  obtain s' msg err where recv: "recv s = (s', msg, err)" by (cases "recv s")
  show ?case
  proof (cases "stops (recv s)")
    case True
    then show ?thesis by (intro exI [of _ 0]) simp
  next
    case False
    with recv 1(2) have "loop recv s' (if length (GetChunk msg) > 0 then p @ GetChunk msg else p) = Some r"
      by (simp add: stops_def Let_def)
    from 1(1) [OF this] obtain n where "stops (recv_at recv s' n)" by blast
    with recv show ?thesis by (intro exI [of _ "Suc n"]) simp
  qed
qed

lemma recv_payload_returns:
  "stops (recv_at recv s n) \<Longrightarrow> recv_payload recv s p \<noteq> None"
proof (induction n arbitrary: s p)
  case 0
  then show ?case
    by (subst recv_payload.simps) (auto simp: stops_def Let_def split: prod.split option.split)
next
  case (Suc n)
  then show ?case
    by (subst recv_payload.simps) (auto simp: Let_def split: prod.split option.split)
qed

lemma localStream_Recv_Cons [simp]:
  "localStream_Recv (s\<lparr>ls_req := m # ms\<rparr>) = (s\<lparr>ls_req := ms\<rparr>, m, None)"
  by (simp add: localStream_Recv_def)

lemma newLocalStream_err [simp]: "ls_err newLocalStream = None"
  by (simp add: newLocalStream_def)

lemma recv_payload_local:
  assumes "\<forall>m \<in> set msgs. \<not> GetCommit m"
  shows "recv_payload localStream_Recv (s\<lparr>ls_req := msgs @ Some (Req_Commit True) # rest\<rparr>) p =
    Some (s\<lparr>ls_req := rest\<rparr>, Inr (p @ concat (map GetChunk msgs)))"
  using assms
proof (induction msgs arbitrary: p)
  case Nil
  then show ?case
    by (subst recv_payload.simps) (simp add: GetCommit_def GetChunk_def)
next
  case (Cons m msgs)
  then show ?case
    by (subst recv_payload.simps) (simp add: Let_def)
qed

lemma local_never_stops:
  assumes "\<forall>m \<in> set (ls_req s). \<not> GetCommit m" and "ls_err s = None"
  shows "\<not> stops (recv_at localStream_Recv s n)"
  using assms
proof (induction n arbitrary: s)
  case 0
  then show ?case by (auto simp: stops_def localStream_Recv_def GetCommit_def split: list.split)
next
  case (Suc n)
  have "\<forall>m \<in> set (ls_req (fst (localStream_Recv s))). \<not> GetCommit m" "ls_err (fst (localStream_Recv s)) = None"
    using Suc.prems by (auto simp: localStream_Recv_def split: list.split)
  from Suc.IH [OF this] show ?case by simp
qed

section \<open>The file store\<close>

definition no_faults :: "fs_faults \<Rightarrow> bool" where
  "no_faults ft \<longleftrightarrow> f_mkdir ft = None \<and> f_create ft = None \<and> f_copy ft = None \<and> f_sync ft = None \<and>
     f_close ft = None \<and> f_rename ft = None"

lemma FS_Put_ok:
  assumes "no_faults ft"
  shows "FS_Put sha256 ft f bucket object r m =
    (m(fullPath f bucket object \<mapsto> r, fullPath f bucket object @ ''.tmp'' := None),
     of_nat (length r), hex_encode (sha256 r), None)"
  using assms by (simp add: FS_Put_def no_faults_def Let_def)

lemma FS_Put_fault:
  assumes "\<not> no_faults ft" and "FS_Put sha256 ft f bucket object r m = (m', sz, checksum, err)"
  shows "\<forall>p. p \<noteq> fullPath f bucket object @ ''.tmp'' \<longrightarrow> m' p = m p"
    and "sz = 0 \<and> checksum = []"
    and "err = None \<longleftrightarrow> f_mkdir ft = None \<and> f_create ft = None \<and> f_copy ft \<noteq> None"
  using assms by (auto simp: FS_Put_def no_faults_def Let_def os_Remove_def split: option.splits if_splits) metis+

lemma Put_then_Get: "FS_Get f bucket object (m(fullPath f bucket object \<mapsto> r,
    fullPath f bucket object @ ''.tmp'' := None)) = Inr r"
  by (simp add: FS_Get_def Let_def)

text \<open>Paths below an absolute, clean root.\<close>

lemma fullPath_components:
  assumes "clean_parts rs"
  shows "fullPath (NewFS (root_of rs)) bucket object = CHR ''/'' # join_with ''/''
    (foldl (clean_step True) rs (split_on CHR ''/'' bucket @ split_on CHR ''/'' object))"
proof -
  have "foldl (clean_step True) [] rs = rs"
    using assms clean_no_dots [of rs True "[]"] by (auto simp: clean_parts_def intro!: filter_True)
  moreover have "split_on CHR ''/'' (root_of rs) = [] # rs"
    using assms split_on_join [of rs "CHR ''/''"] by (simp add: root_of_def clean_parts_def)
  moreover have "split_on CHR ''/'' (root_of rs @ CHR ''/'' # bucket @ CHR ''/'' # object) =
      split_on CHR ''/'' (root_of rs) @ split_on CHR ''/'' bucket @ split_on CHR ''/'' object"
    by (simp add: split_on_append)
  moreover have "clean_step True [] [] = []" by (simp add: clean_step_def)
  moreover have "root_of rs \<noteq> []" "hd (root_of rs @ x) = CHR ''/''" for x by (simp_all add: root_of_def)
  ultimately show ?thesis
    by (simp add: fullPath_def NewFS_def filepath_Join_def filepath_Clean_def Let_def)
qed

section \<open>Replication results\<close>

lemma map_of_fold_update:
  "wf_map ys \<Longrightarrow> map_of (fold (\<lambda>(k, v) m. AList.update k v m) ys m) = map_of m ++ map_of ys"
proof (induction ys arbitrary: m)
  case Nil
  then show ?case by simp
next
  case (Cons y ys)
  obtain k v where y: "y = (k, v)" by (cases y)
  with Cons show ?case
    by (auto simp: map_add_def fun_eq_iff split: option.splits)
qed

lemma wf_map_fold_updates: "wf_map m \<Longrightarrow> wf_map (fold (\<lambda>(k, v) m. AList.update k v m) ys m)"
  by (induction ys arbitrary: m) auto

lemma merge_none_iff:
  assumes "wf_map results"
  shows "MergeReplicationErrors results = None \<longleftrightarrow> (\<forall>n e. map_of results n \<noteq> Some (Some e))"
proof -
  let ?f = "\<lambda>(n, err) failed. case err of Some e \<Rightarrow> AList.update n e failed | None \<Rightarrow> failed"
  have grow: "fold ?f rs failed = [] \<longleftrightarrow> failed = [] \<and> (\<forall>(n, err) \<in> set rs. err = None)" for rs failed
  proof (induction rs arbitrary: failed)
    case Nil
    then show ?case by simp
  next
    case (Cons r rs)
    have "AList.update n e failed \<noteq> []" for n and e :: go_error and failed
      by (cases failed) auto
    with Cons show ?case by (cases r) (auto split: option.split)
  qed
  have "MergeReplicationErrors results = None \<longleftrightarrow> fold ?f results [] = []"
    by (simp add: MergeReplicationErrors_def Let_def)
  also have "\<dots> \<longleftrightarrow> (\<forall>n e. map_of results n \<noteq> Some (Some e))"
    unfolding grow using assms by (auto simp: wf_map_lookup_iff) (metis option.exhaust)
  finally show ?thesis .
qed

text \<open>
  The results of an upload, whatever the order in which the goroutines finish: the node itself
  without error, and for every other target and the backup what its call returned.
\<close>

definition upload_calls :: "StorageService \<Rightarrow> UploadSegmentHeader \<Rightarrow> byte list \<Rightarrow> string list \<Rightarrow>
    (string \<times> go_error option) list" where
  "upload_calls svc header data targets =
     map (\<lambda>n. (n, ss_transport svc n header data)) (filter (\<lambda>n. n \<noteq> ss_nodeID svc) targets) @
     (if hdr_S3Bucket header \<noteq> [] \<and> hdr_S3Key header \<noteq> []
      then [(s3_name header, ss_s3 svc (hdr_S3Bucket header) (hdr_S3Key header) data)] else [])"

definition upload_names_ok :: "StorageService \<Rightarrow> UploadSegmentHeader \<Rightarrow> string list \<Rightarrow> bool" where
  "upload_names_ok svc header targets \<longleftrightarrow>
     distinct targets \<and> s3_name header \<notin> set targets \<and> s3_name header \<noteq> ss_nodeID svc"

lemma upload_results_map:
  assumes "upload_names_ok svc header targets" and "\<And>xs. mset (sched xs) = mset xs"
  shows "wf_map (upload_results sched svc header data targets)"
    and "map_of (upload_results sched svc header data targets) =
      (map_of (upload_calls svc header data targets))(ss_nodeID svc \<mapsto> None)"
proof -
  let ?calls = "upload_calls svc header data targets"
  have "map fst ?calls = filter (\<lambda>n. n \<noteq> ss_nodeID svc) targets @
      (if hdr_S3Bucket header \<noteq> [] \<and> hdr_S3Key header \<noteq> [] then [s3_name header] else [])"
    by (simp add: upload_calls_def comp_def)
  then have wf: "wf_map ?calls" and self: "ss_nodeID svc \<notin> set (map fst ?calls)"
    using assms(1) by (auto simp: wf_map_def upload_names_ok_def)
  have wf': "wf_map (sched ?calls)"
    using wf unfolding wf_map_def by (metis assms(2) mset_map mset_eq_imp_distinct_iff)
  have "set (sched ?calls) = set ?calls" by (metis assms(2) set_mset_mset)
  then have "map_of (sched ?calls) = map_of ?calls"
    using wf wf' by (simp add: wf_map_def map_of_inject_set)
  moreover have "map_of ?calls (ss_nodeID svc) = None"
    using self by (simp add: map_of_eq_None_iff)
  moreover have results: "upload_results sched svc header data targets =
      fold (\<lambda>(k, v) m. AList.update k v m) (sched ?calls) [(ss_nodeID svc, None)]"
    by (simp add: upload_results_def upload_calls_def Let_def)
  ultimately show "map_of (upload_results sched svc header data targets) =
      (map_of ?calls)(ss_nodeID svc \<mapsto> None)"
    using map_of_fold_update [OF wf', of "[(ss_nodeID svc, None)]"]
    by (auto simp: map_add_def fun_eq_iff split: option.split)
  show "wf_map (upload_results sched svc header data targets)"
    unfolding results by (rule wf_map_fold_updates) (simp add: wf_map_def)
qed

definition all_replicated :: "StorageService \<Rightarrow> UploadSegmentHeader \<Rightarrow> byte list \<Rightarrow> string list \<Rightarrow> bool" where
  "all_replicated svc header data targets \<longleftrightarrow> (\<forall>(n, err) \<in> set (upload_calls svc header data targets). err = None)"

lemma upload_merge:
  assumes "upload_names_ok svc header targets" and "\<And>xs. mset (sched xs) = mset xs"
  shows "MergeReplicationErrors (upload_results sched svc header data targets) = None \<longleftrightarrow>
    all_replicated svc header data targets"
proof -
  let ?calls = "upload_calls svc header data targets"
  note results = upload_results_map [OF assms, where data = data]
  have "map fst ?calls = filter (\<lambda>n. n \<noteq> ss_nodeID svc) targets @
      (if hdr_S3Bucket header \<noteq> [] \<and> hdr_S3Key header \<noteq> [] then [s3_name header] else [])"
    by (simp add: upload_calls_def comp_def)
  then have wf: "wf_map ?calls" and self: "ss_nodeID svc \<notin> set (map fst ?calls)"
    using assms(1) by (auto simp: wf_map_def upload_names_ok_def)
  have "MergeReplicationErrors (upload_results sched svc header data targets) = None \<longleftrightarrow>
      (\<forall>n e. n \<noteq> ss_nodeID svc \<longrightarrow> map_of ?calls n \<noteq> Some (Some e))"
    unfolding merge_none_iff [OF results(1)] results(2) by auto
  also have "\<dots> \<longleftrightarrow> (\<forall>n e. (n, Some e) \<notin> set ?calls)"
    using self by (auto simp: wf_map_lookup_iff [OF wf]) (metis fst_conv image_eqI)
  also have "\<dots> \<longleftrightarrow> all_replicated svc header data targets"
    by (auto simp: all_replicated_def) (metis option.exhaust)
  finally show ?thesis .
qed

lemma upload_acks:
  assumes "upload_names_ok svc header targets" and "\<And>xs. mset (sched xs) = mset xs"
    and "(n, err) \<in> set (upload_calls svc header data targets)"
  shows "\<exists>ack \<in> set (replica_acks (ss_nodeID svc) (upload_results sched svc header data targets)).
    ack_NodeId ack = n \<and> (ack_Success ack \<longleftrightarrow> err = None)"
proof -
  let ?calls = "upload_calls svc header data targets"
  let ?results = "upload_results sched svc header data targets"
  note results = upload_results_map [where sched = sched, OF assms(1,2), where data = data]
  have names: "map fst ?calls = filter (\<lambda>n. n \<noteq> ss_nodeID svc) targets @
      (if hdr_S3Bucket header \<noteq> [] \<and> hdr_S3Key header \<noteq> [] then [s3_name header] else [])"
    by (simp add: upload_calls_def comp_def)
  then have wf: "wf_map ?calls" using assms(1) by (auto simp: wf_map_def upload_names_ok_def)
  have "n \<in> set (map fst ?calls)" using assms(3) by force
  then have n: "n \<noteq> ss_nodeID svc"
    using assms(1) unfolding names by (auto simp: upload_names_ok_def split: if_splits)
  with assms(3) have "(n, err) \<in> set ?results"
    using results(2) by (simp add: wf_map_lookup_iff [OF results(1), symmetric] wf_map_lookup_iff [OF wf])
  with n show ?thesis by (force simp: replica_acks_def)
qed

lemma recorded_replicas:
  assumes "upload_names_ok svc header targets" and "\<And>xs. mset (sched xs) = mset xs"
    and "all_replicated svc header data targets"
  shows "sr_Replicas (segment_record svc header loc targets (upload_results sched svc header data targets) sz checksum) =
    map fst (upload_calls svc header data targets)"
proof -
  have "result_of (upload_results sched svc header data targets) n = None" for n
    using upload_merge [where sched = sched and data = data, OF assms(1,2)] assms(3)
      merge_none_iff [OF upload_results_map(1) [where sched = sched and data = data, OF assms(1,2)]]
    by (auto simp: result_of_def split: option.split) (metis option.exhaust)
  then show ?thesis by (simp add: segment_record_def upload_calls_def comp_def)
qed

section \<open>Properties\<close>

text \<open>
  C17: Acknowledgements are true and a segment is recorded only when it is fully replicated.
  Whatever the order in which the replicas answer, each one and the backup is acknowledged with
  what it returned; the metadata store is written only if none failed, and then names them all;
  otherwise it is left alone and the response says so.
\<close>

theorem recorded_only_when_replicated:
  assumes "upload_names_ok svc header targets" and "\<And>xs. mset (sched xs) = mset xs"
    and "ss_metadata svc = Some putSegment"
    and "replicate_segment sched svc header loc data sz checksum targets c = (c', resp)"
  shows "(\<forall>(n, err) \<in> set (upload_calls svc header data targets).
      \<exists>ack \<in> set (upl_ReplicaStatus resp). ack_NodeId ack = n \<and> (ack_Success ack \<longleftrightarrow> err = None)) \<and>
    (if all_replicated svc header data targets
     then \<exists>seg. c' = fst (putSegment seg c) \<and> sr_SegmentID seg = hdr_SegmentId header \<and>
       sr_PrimaryNode seg = ss_nodeID svc \<and> sr_Checksum seg = checksum \<and>
       sr_Replicas seg = map fst (upload_calls svc header data targets)
     else c' = c \<and> (\<exists>e. failed_ack ''metadata'' e \<in> set (upl_ReplicaStatus resp) \<and>
       failed_ack ''replication'' e \<in> set (upl_ReplicaStatus resp)))"
proof (rule conjI)
  let ?results = "upload_results sched svc header data targets"
  have "set (replica_acks (ss_nodeID svc) ?results) \<subseteq> set (upl_ReplicaStatus resp)"
    using assms(4) by (auto simp: replicate_segment_def Let_def assms(3) split: option.splits prod.splits)
  then show "\<forall>(n, err) \<in> set (upload_calls svc header data targets).
      \<exists>ack \<in> set (upl_ReplicaStatus resp). ack_NodeId ack = n \<and> (ack_Success ack \<longleftrightarrow> err = None)"
    using upload_acks [where sched = sched and data = data, OF assms(1,2)] by blast
  show "if all_replicated svc header data targets
     then \<exists>seg. c' = fst (putSegment seg c) \<and> sr_SegmentID seg = hdr_SegmentId header \<and>
       sr_PrimaryNode seg = ss_nodeID svc \<and> sr_Checksum seg = checksum \<and>
       sr_Replicas seg = map fst (upload_calls svc header data targets)
     else c' = c \<and> (\<exists>e. failed_ack ''metadata'' e \<in> set (upl_ReplicaStatus resp) \<and>
       failed_ack ''replication'' e \<in> set (upl_ReplicaStatus resp))"
  proof (cases "all_replicated svc header data targets")
    case True
    let ?seg = "segment_record svc header loc targets ?results sz checksum"
    have "MergeReplicationErrors ?results = None"
      using True upload_merge [where sched = sched and data = data, OF assms(1,2)] by simp
    then have "c' = fst (putSegment ?seg c)"
      using assms(4) by (auto simp: replicate_segment_def Let_def assms(3) split: option.splits prod.splits)
    with True recorded_replicas [where sched = sched and data = data, OF assms(1,2)]
    show ?thesis by (auto simp: segment_record_def intro!: exI [of _ ?seg])
  next
    case False
    then obtain e where "MergeReplicationErrors ?results = Some e"
      using upload_merge [where sched = sched and data = data, OF assms(1,2)] by auto
    with False assms(4) show ?thesis
      by (auto simp: replicate_segment_def Let_def assms(3))
  qed
qed

definition sample_node :: "(string \<Rightarrow> replica_handler) \<Rightarrow> StorageService" where
  "sample_node transport = \<lparr>ss_nodeID = ''a'', ss_fs = NewFS ''/data'', ss_s3 = NoopS3Uploader,
     ss_transport = transport,
     ss_metadata = Some (PutSegment (\<lambda>r. Inr (sr_Checksum r)) ''/storage/segments'' 0),
     ss_replicationFactor = 2, ss_leaseTTL = 15 * 10 ^ 9\<rparr>"

definition down :: "string \<Rightarrow> replica_handler" where
  "down n header data = Some (Err ''down'')"

definition sample_loc :: SegmentLocator where
  "sample_loc = \<lparr>loc_Bucket = ''v'', loc_Object = ''s1''\<rparr>"

definition sample_header :: UploadSegmentHeader where
  "sample_header = \<lparr>hdr_SegmentId = ''s1'', hdr_Locator = Some sample_loc, hdr_ContentType = [],
     hdr_SizeBytes = 0, hdr_Checksum = [], hdr_Attributes = [], hdr_S3Bucket = [], hdr_S3Key = []\<rparr>"

lemma sample_names_ok: "upload_names_ok (sample_node t) sample_header [''a'', ''b'']"
  by (simp add: upload_names_ok_def sample_node_def sample_header_def s3_name_def)

lemma recorded_only_when_replicated_witness:
  "let (c, resp) = replicate_segment rev (sample_node down) sample_header sample_loc [1, 2] 2 ''x'' [''a'', ''b''] etcd_New in
   c = etcd_New \<and> (\<exists>e. failed_ack ''replication'' e \<in> set (upl_ReplicaStatus resp))"
proof -
  obtain c resp where r: "replicate_segment rev (sample_node down) sample_header sample_loc [1, 2] 2 ''x''
      [''a'', ''b''] etcd_New = (c, resp)"
    by (cases "replicate_segment rev (sample_node down) sample_header sample_loc [1, 2] 2 ''x'' [''a'', ''b''] etcd_New")
  have "\<not> all_replicated (sample_node down) sample_header [1, 2] [''a'', ''b'']"
    by (simp add: all_replicated_def upload_calls_def sample_node_def sample_header_def down_def)
  with recorded_only_when_replicated [OF sample_names_ok mset_rev _ r] r show ?thesis
    by (auto simp: sample_node_def)
qed

text \<open>
  C34: What an upload stores. A stream of a valid header, any messages that are not a commit, and
  a commit, on a node that is among the replicas and whose system calls succeed: the file then
  holds the concatenation of the chunks, \<open>Get\<close> reads it back, the response carries its size and
  digest, and the ring is not touched.
\<close>

theorem UploadSegment_stores:
  assumes "hdr_Locator header = Some loc" and "hdr_SegmentId header \<noteq> []" and "no_faults ft"
    and "\<forall>m \<in> set msgs. \<not> GetCommit m"
    and "targets = (let ts = Manager_Lookup sha1 (sw_ring w) (hdr_SegmentId header) (ss_replicationFactor svc)
       in if ts = [] then [ss_nodeID svc] else ts)"
    and "ss_nodeID svc \<in> set targets" and "data = concat (map GetChunk msgs)"
    and "replicate_segment sched svc header loc data (of_nat (length data)) (hex_encode (sha256 data))
      targets (sw_etcd w) = (c', resp)"
  shows "\<exists>stream' w'. UploadSegment sha256 sha1 sched ft localStream_Recv localStream_SendAndClose svc
      (newLocalStream\<lparr>ls_req := Some (Req_Header (Some header)) # msgs @ Some (Req_Commit True) # rest\<rparr>) w =
      Some (stream', w', None) \<and>
    ls_res stream' = Some resp \<and> upl_SizeCommitted resp = of_nat (length data) \<and>
    upl_Checksum resp = hex_encode (sha256 data) \<and>
    FS_Get (ss_fs svc) (loc_Bucket loc) (loc_Object loc) (sw_files w') = Inr data \<and>
    sw_ring w' = sw_ring w \<and> sw_etcd w' = c'"
proof -
  have member: "has_target ts n \<longleftrightarrow> n \<in> set ts" for ts n by (induction ts) auto
  have valid: "ValidateReplicationTargets targets (ss_nodeID svc) = None"
    using assms(6) member by (auto simp: ValidateReplicationTargets_def)
  have header: "GetHeader (Some (Req_Header (Some header))) = Some header" by (simp add: GetHeader_def)
  have resp: "upl_SizeCommitted resp = of_nat (length data) \<and> upl_Checksum resp = hex_encode (sha256 data)"
    using assms(8) by (auto simp: replicate_segment_def Let_def split: prod.splits)
  note step = UploadSegment_def recv_payload_local [OF assms(4)] FS_Put_ok [OF assms(3)]
    Put_then_Get [of "ss_fs svc" "loc_Bucket loc" "loc_Object loc" "sw_files w" data]
    assms(7) [symmetric] localStream_SendAndClose_def Let_def
  show ?thesis
  proof (cases "Manager_Lookup sha1 (sw_ring w) (hdr_SegmentId header) (ss_replicationFactor svc) = []")
    case True
    then have "targets = [ss_nodeID svc]" by (simp add: assms(5))
    with valid header resp True assms(1,2,8) show ?thesis by (simp add: step)
  next
    case False
    then have "targets = Manager_Lookup sha1 (sw_ring w) (hdr_SegmentId header) (ss_replicationFactor svc)"
      by (simp add: assms(5) Let_def)
    with valid header resp False assms(1,2,8) show ?thesis by (simp add: step)
  qed
qed

definition fault_free :: fs_faults where
  "fault_free = \<lparr>f_mkdir = None, f_create = None, f_copy = None, f_copied = 0, f_sync = None,
     f_close = None, f_rename = None, f_remove = True\<rparr>"

definition sample_world :: storage_world where
  "sample_world = \<lparr>sw_ring = mgr0, sw_etcd = etcd_New, sw_files = Map.empty\<rparr>"

definition sample_upload :: "(string \<Rightarrow> replica_handler) \<Rightarrow> localStream \<Rightarrow> storage_world \<Rightarrow>
    (localStream \<times> storage_world \<times> go_error option) option" where
  "sample_upload t = UploadSegment (\<lambda>bs. take 1 bs) sum_digest id fault_free
     localStream_Recv localStream_SendAndClose (sample_node t)"

lemma mgr0_lookup [simp]: "Manager_Lookup sum_digest mgr0 key n = []"
  by (simp add: Manager_Lookup_def mgr0_def Ring_Lookup_def NewRing_def)

lemma UploadSegment_stores_witness:
  "\<exists>stream' w'. sample_upload NoopReplicationTransport (newLocalStream\<lparr>ls_req :=
       [Some (Req_Header (Some sample_header)), Some (Req_Chunk [171, 2]), Some (Req_Chunk [3]), Some (Req_Commit True)]\<rparr>)
       sample_world = Some (stream', w', None) \<and>
     FS_Get (NewFS ''/data'') ''v'' ''s1'' (sw_files w') = Inr [171, 2, 3] \<and>
     (\<exists>resp. ls_res stream' = Some resp \<and> upl_SizeCommitted resp = 3 \<and> upl_Checksum resp = ''ab'')"
proof -
  let ?svc = "sample_node NoopReplicationTransport" and ?data = "[171, 2, 3] :: byte list"
  let ?msgs = "[Some (Req_Chunk [171, 2]), Some (Req_Chunk [3])]"
  obtain c' resp where r: "replicate_segment id ?svc sample_header sample_loc ?data
      (of_nat (length ?data)) (hex_encode (take 1 ?data)) [''a''] (sw_etcd sample_world) = (c', resp)"
    by fastforce
  have hex: "hex_encode [171] = ''ab''" by code_simp
  have loc: "hdr_Locator sample_header = Some sample_loc" and seg: "hdr_SegmentId sample_header \<noteq> []"
    by (simp_all add: sample_header_def)
  have ft: "no_faults fault_free" by (simp add: no_faults_def fault_free_def)
  have msgs: "\<forall>m \<in> set ?msgs. \<not> GetCommit m" by (simp add: GetCommit_def)
  have targets: "[''a''] = (let ts = Manager_Lookup sum_digest (sw_ring sample_world)
      (hdr_SegmentId sample_header) (ss_replicationFactor ?svc) in if ts = [] then [ss_nodeID ?svc] else ts)"
    by (simp add: sample_world_def sample_node_def)
  have self: "ss_nodeID ?svc \<in> set [''a'']" by (simp add: sample_node_def)
  have data: "?data = concat (map GetChunk ?msgs)" by (simp add: GetChunk_def)
  from UploadSegment_stores [where ?sha256.0 = "\<lambda>bs. take 1 bs" and sched = id and rest = "[]",
      OF loc seg ft msgs targets self data r] hex
  show ?thesis by (auto simp: sample_upload_def sample_loc_def sample_node_def)
qed

text \<open>
  C35: When an upload returns. The receive loop returns exactly when some message is a commit or
  comes with an error. On the in-process stream, which reports no error at its end, an upload
  whose messages hold no commit never returns.
\<close>

theorem upload_returns_iff:
  shows "(recv_payload recv s p \<noteq> None \<longleftrightarrow>
      (\<exists>n. snd (snd (recv_at recv s n)) \<noteq> None \<or> GetCommit (fst (snd (recv_at recv s n))))) \<and>
    (hdr_Locator header \<noteq> None \<and> hdr_SegmentId header \<noteq> [] \<and> (\<forall>m \<in> set msgs. \<not> GetCommit m) \<longrightarrow>
      UploadSegment sha256 sha1 sched ft localStream_Recv localStream_SendAndClose svc
        (newLocalStream\<lparr>ls_req := Some (Req_Header (Some header)) # msgs\<rparr>) w = None)"
proof (rule conjI)
  show "recv_payload recv s p \<noteq> None \<longleftrightarrow>
      (\<exists>n. snd (snd (recv_at recv s n)) \<noteq> None \<or> GetCommit (fst (snd (recv_at recv s n))))"
    using recv_payload_stops [of recv s p] recv_payload_returns [of recv s _ p]
    unfolding stops_def by blast
  show "hdr_Locator header \<noteq> None \<and> hdr_SegmentId header \<noteq> [] \<and> (\<forall>m \<in> set msgs. \<not> GetCommit m) \<longrightarrow>
      UploadSegment sha256 sha1 sched ft localStream_Recv localStream_SendAndClose svc
        (newLocalStream\<lparr>ls_req := Some (Req_Header (Some header)) # msgs\<rparr>) w = None"
  proof
    assume h: "hdr_Locator header \<noteq> None \<and> hdr_SegmentId header \<noteq> [] \<and> (\<forall>m \<in> set msgs. \<not> GetCommit m)"
    have "recv_payload localStream_Recv (newLocalStream\<lparr>ls_req := msgs\<rparr>) [] = None"
    proof (rule ccontr)
      assume "recv_payload localStream_Recv (newLocalStream\<lparr>ls_req := msgs\<rparr>) [] \<noteq> None"
      then obtain r where "recv_payload localStream_Recv (newLocalStream\<lparr>ls_req := msgs\<rparr>) [] = Some r"
        by blast
      from recv_payload_stops [OF this]
      obtain n where "stops (recv_at localStream_Recv (newLocalStream\<lparr>ls_req := msgs\<rparr>) n)" by blast
      then show False
        using local_never_stops [of "newLocalStream\<lparr>ls_req := msgs\<rparr>"] h by simp
    qed
    with h show "UploadSegment sha256 sha1 sched ft localStream_Recv localStream_SendAndClose svc
        (newLocalStream\<lparr>ls_req := Some (Req_Header (Some header)) # msgs\<rparr>) w = None"
      by (auto simp: UploadSegment_def GetHeader_def)
  qed
qed

lemma upload_returns_iff_witness:
  "sample_upload NoopReplicationTransport (newLocalStream\<lparr>ls_req :=
     [Some (Req_Header (Some sample_header)), Some (Req_Chunk [1])]\<rparr>) sample_world = None"
  using upload_returns_iff [where recv = localStream_Recv and s = newLocalStream and p = "[]"
      and header = sample_header and msgs = "[Some (Req_Chunk [1])]"
      and ?sha256.0 = "\<lambda>bs. take 1 bs" and ?sha1.0 = sum_digest and sched = id and ft = fault_free
      and svc = "sample_node NoopReplicationTransport" and w = sample_world]
  by (simp add: sample_upload_def sample_header_def GetCommit_def)

text \<open>
  A node that is not among the replicas of a segment stores it all the same. The upload
  fails with \<open>replica set missing primary\<close>, no replica is contacted and nothing is recorded,
  but the file stays on the node and is served by it.
\<close>

theorem rejected_upload_is_stored:
  assumes "hdr_Locator header = Some loc" and "hdr_SegmentId header \<noteq> []" and "no_faults ft"
    and "\<forall>m \<in> set msgs. \<not> GetCommit m"
    and "Manager_Lookup sha1 (sw_ring w) (hdr_SegmentId header) (ss_replicationFactor svc) \<noteq> []"
    and "ss_nodeID svc \<notin> set (Manager_Lookup sha1 (sw_ring w) (hdr_SegmentId header) (ss_replicationFactor svc))"
  shows "\<exists>stream' w'. UploadSegment sha256 sha1 sched ft localStream_Recv localStream_SendAndClose svc
      (newLocalStream\<lparr>ls_req := Some (Req_Header (Some header)) # msgs @ Some (Req_Commit True) # rest\<rparr>) w =
      Some (stream', w', Some (Err (''storage: replica set missing primary '' @ ss_nodeID svc))) \<and>
    sw_etcd w' = sw_etcd w \<and> ls_res stream' = None \<and>
    FS_Get (ss_fs svc) (loc_Bucket loc) (loc_Object loc) (sw_files w') = Inr (concat (map GetChunk msgs))"
proof -
  have "has_target ts n \<longleftrightarrow> n \<in> set ts" for ts n by (induction ts) auto
  with assms(5,6) have "ValidateReplicationTargets
      (Manager_Lookup sha1 (sw_ring w) (hdr_SegmentId header) (ss_replicationFactor svc)) (ss_nodeID svc) =
      Some (Err (''storage: replica set missing primary '' @ ss_nodeID svc))"
    by (auto simp: ValidateReplicationTargets_def)
  moreover have "GetHeader (Some (Req_Header (Some header))) = Some header" by (simp add: GetHeader_def)
  moreover have "ls_res (newLocalStream\<lparr>ls_req := rest\<rparr>) = None" by (simp add: newLocalStream_def)
  ultimately show ?thesis
    using assms(1,2,5)
    by (simp add: UploadSegment_def recv_payload_local [OF assms(4)] FS_Put_ok [OF assms(3)] Put_then_Get Let_def)
qed

lemma mgr_single_lookup:
  assumes "members m = {n}" and "mgr_ok sum_digest (sort_key Hash) m" and "0 < k"
  shows "Manager_Lookup sum_digest m key k = [n]"
proof -
  obtain r where r: "rm_ring m = Some r" "ring_nodes r = members m"
    by (rule mgr_ring [OF by_hash.slice_sort_axioms assms(2)])
  have "set (Ring_Lookup sum_digest r key k) \<subseteq> {n}" "length (Ring_Lookup sum_digest r key k) = 1"
    using ring.place_members [of sum_digest r key k] ring.place_length [of sum_digest r key k] assms r(2)
    by simp_all
  then show ?thesis using r(1)
    by (cases "Ring_Lookup sum_digest r key k") (auto simp: Manager_Lookup_def)
qed

lemma rejected_upload_is_stored_witness:
  "let (m, c, res) = upsert_sample ''b'' mgr0 etcd_New in
   \<exists>stream' w'. sample_upload NoopReplicationTransport (newLocalStream\<lparr>ls_req :=
       [Some (Req_Header (Some sample_header)), Some (Req_Chunk [1]), Some (Req_Commit True)]\<rparr>)
       (sample_world\<lparr>sw_ring := m\<rparr>) =
       Some (stream', w', Some (Err ''storage: replica set missing primary a'')) \<and>
     FS_Get (NewFS ''/data'') ''v'' ''s1'' (sw_files w') = Inr [1]"
proof -
  obtain m c res where up: "upsert_sample ''b'' mgr0 etcd_New = (m, c, res)"
    by (cases "upsert_sample ''b'' mgr0 etcd_New")
  let ?svc = "sample_node NoopReplicationTransport" and ?w = "sample_world\<lparr>sw_ring := m\<rparr>"
  have "members m = {''b''}"
    using upsert_sample_facts(1) [OF up client_ok_New] by (simp add: members_def)
  then have lookup: "Manager_Lookup sum_digest m key 2 = [''b'']" for key
    using reach_mgr_ok [OF upsert_reach [OF up] mgr_decoder_ok] by (rule mgr_single_lookup) simp
  have "hdr_Locator sample_header = Some sample_loc" "hdr_SegmentId sample_header \<noteq> []" "no_faults fault_free"
    "\<forall>m \<in> set [Some (Req_Chunk [1])]. \<not> GetCommit m"
    "Manager_Lookup sum_digest (sw_ring ?w) (hdr_SegmentId sample_header) (ss_replicationFactor ?svc) \<noteq> []"
    "ss_nodeID ?svc \<notin> set (Manager_Lookup sum_digest (sw_ring ?w) (hdr_SegmentId sample_header) (ss_replicationFactor ?svc))"
    by (simp_all add: sample_header_def no_faults_def fault_free_def GetCommit_def sample_node_def lookup)
  from rejected_upload_is_stored [where ?sha256.0 = "\<lambda>bs. take 1 bs" and sched = id and rest = "[]", OF this]
  show ?thesis
    using up by (auto simp: sample_upload_def sample_loc_def sample_node_def GetChunk_def)
qed

text \<open>
  A put is all or nothing for its object. When every system call succeeds, \<open>Get\<close> returns the
  data and the answer is its size and hex digest; when one fails, every file but the temporary
  one is as it was. Other files are never touched.
\<close>

theorem FS_Put_atomic:
  shows "case FS_Put sha256 ft f bucket object r m of (m', n, checksum, err) \<Rightarrow>
    (\<forall>p. p \<noteq> fullPath f bucket object \<and> p \<noteq> fullPath f bucket object @ ''.tmp'' \<longrightarrow> m' p = m p) \<and>
    (if no_faults ft
     then err = None \<and> n = of_nat (length r) \<and> checksum = hex_encode (sha256 r) \<and>
       FS_Get f bucket object m' = Inr r
     else FS_Get f bucket object m' = FS_Get f bucket object m)"
proof -
  obtain m' n checksum err where put: "FS_Put sha256 ft f bucket object r m = (m', n, checksum, err)"
    by (cases "FS_Put sha256 ft f bucket object r m")
  show ?thesis
  proof (cases "no_faults ft")
    case True
    with put show ?thesis by (auto simp: FS_Put_ok FS_Get_def Let_def)
  next
    case False
    with FS_Put_fault [OF False put] show ?thesis by (simp add: put FS_Get_def Let_def)
  qed
qed

lemma FS_Put_atomic_witness:
  "\<exists>m'. FS_Put (\<lambda>bs. bs) fault_free (NewFS ''/data'') ''b'' ''o'' [171] Map.empty = (m', 1, ''ab'', None) \<and>
     FS_Get (NewFS ''/data'') ''b'' ''o'' m' = Inr [171]"
proof -
  have "no_faults fault_free" and "hex_encode [171] = ''ab''"
    by (simp add: no_faults_def fault_free_def) code_simp
  then show ?thesis
    using FS_Put_atomic [where ?sha256.0 = "\<lambda>bs. bs" and ft = fault_free and f = "NewFS ''/data''"
        and bucket = "''b''" and object = "''o''" and r = "[171]" and m = Map.empty]
    by (cases "FS_Put (\<lambda>bs. bs) fault_free (NewFS ''/data'') ''b'' ''o'' [171] Map.empty") auto
qed

text \<open>
  A failed copy is reported as success. When reading the data fails, \<open>Put\<close> answers with size
  0, an empty checksum and no error, although nothing has been stored; it is the only failure
  that goes unreported.
\<close>

theorem copy_error_unreported:
  assumes "FS_Put sha256 ft f bucket object r m = (m', n, checksum, None)"
  shows "(if no_faults ft then FS_Get f bucket object m' = Inr r
     else f_copy ft \<noteq> None \<and> n = 0 \<and> checksum = [] \<and>
       FS_Get f bucket object m' = FS_Get f bucket object m)"
proof (cases "no_faults ft")
  case True
  with assms show ?thesis by (auto simp: FS_Put_ok FS_Get_def Let_def)
next
  case False
  with FS_Put_fault [OF False assms] show ?thesis by (simp add: FS_Get_def Let_def)
qed

lemma copy_error_unreported_witness:
  "let ft = fault_free\<lparr>f_copy := Some (Err ''connection reset''), f_copied := 1\<rparr> in
   \<exists>m'. FS_Put (\<lambda>bs. bs) ft (NewFS ''/data'') ''b'' ''o'' [1, 2] Map.empty = (m', 0, [], None) \<and>
     FS_Get (NewFS ''/data'') ''b'' ''o'' m' = FS_Get (NewFS ''/data'') ''b'' ''o'' Map.empty"
proof -
  let ?ft = "fault_free\<lparr>f_copy := Some (Err ''connection reset''), f_copied := 1\<rparr>"
  obtain m' where put: "FS_Put (\<lambda>bs. bs) ?ft (NewFS ''/data'') ''b'' ''o'' [1, 2] Map.empty = (m', 0, [], None)"
    by (simp add: FS_Put_def fault_free_def Let_def)
  then show ?thesis
    using copy_error_unreported [OF put] by (auto simp: no_faults_def fault_free_def Let_def)
qed

text \<open>
  Where an object is stored. Without a \<open>..\<close> component in the bucket and the object, the path is
  the root followed by their components; with one it can leave the root: \<open>fullPath\<close> does not
  prevent it, and the object \<open>../../x\<close> of any bucket of \<open>/data\<close> is the file \<open>/x\<close>.
\<close>

theorem fullPath_confinement:
  assumes "clean_parts rs" and "''..'' \<notin> set (split_on CHR ''/'' bucket @ split_on CHR ''/'' object)"
    and "clean_parts [dir, b, x]"
  shows "fullPath (NewFS (root_of rs)) bucket object =
      root_of (rs @ filter (\<lambda>c. c \<noteq> [] \<and> c \<noteq> ''.'') (split_on CHR ''/'' bucket @ split_on CHR ''/'' object)) \<and>
    fullPath (NewFS (root_of [dir])) b (''../../'' @ x) = root_of [x]"
proof (rule conjI)
  show "fullPath (NewFS (root_of rs)) bucket object =
      root_of (rs @ filter (\<lambda>c. c \<noteq> [] \<and> c \<noteq> ''.'') (split_on CHR ''/'' bucket @ split_on CHR ''/'' object))"
    unfolding fullPath_components [OF assms(1)]
    using assms(2) by (simp add: clean_no_dots root_of_def)
  have one: "clean_parts [dir]" using assms(3) by (simp add: clean_parts_def)
  have "split_on CHR ''/'' (''../../'' @ x) = [''..'', ''..'', x]"
    using assms(3) split_on_append [of "CHR ''/''" "''..''" "''../'' @ x"]
      split_on_append [of "CHR ''/''" "''..''" x]
    by (simp add: clean_parts_def split_on_none)
  moreover have "split_on CHR ''/'' b = [b]"
    using assms(3) by (simp add: clean_parts_def split_on_none)
  ultimately show "fullPath (NewFS (root_of [dir])) b (''../../'' @ x) = root_of [x]"
    using assms(3) unfolding fullPath_components [OF one]
    by (simp add: clean_step_def clean_parts_def root_of_def)
qed

lemma fullPath_confinement_witness:
  "fullPath (NewFS ''/data'') ''v'' ''a/./b'' = ''/data/v/a/b'' \<and>
   fullPath (NewFS ''/data'') ''v'' ''../../passwd'' = ''/passwd''"
  using fullPath_confinement [of "[''data'']" "''v''" "''a/./b''" "''data''" "''v''" "''passwd''"]
  by (simp add: clean_parts_def root_of_def)

lemma send_chunks_collect:
  assumes "\<And>rest. \<exists>n. rd rest = Inr n"
  defines "send \<equiv> \<lambda>(msg :: GetSegmentResponse) sent. (sent @ [msg], None)"
  shows "\<exists>chunks. send_chunks send rd data sent =
      (sent @ map (\<lambda>c. \<lparr>gsr_Chunk = c, gsr_Eof = False\<rparr>) chunks @ [\<lparr>gsr_Chunk = [], gsr_Eof = True\<rparr>], None) \<and>
    concat chunks = data \<and> (\<forall>c \<in> set chunks. c \<noteq> [] \<and> length c \<le> 128 * 1024)"
proof (induction data arbitrary: sent rule: length_induct)
  case (1 data)
  have send [simp]: "send msg sent = (sent @ [msg], None)" for msg sent
    by (simp add: send_def)
  obtain n where n: "rd data = Inr n" using assms(1) by blast
  show ?case
  proof (cases "data = []")
    case True
    with n show ?thesis
      by (intro exI [of _ "[]"], subst send_chunks.simps) simp
  next
    case False
    let ?k = "read_size n data"
    have k: "0 < ?k" "?k \<le> 128 * 1024" "length (drop ?k data) < length data"
      using False by (auto simp: read_size_def)
    let ?msg = "\<lparr>gsr_Chunk = take ?k data, gsr_Eof = False\<rparr>"
    obtain chunks where "send_chunks send rd (drop ?k data) (sent @ [?msg]) =
        ((sent @ [?msg]) @ map (\<lambda>c. \<lparr>gsr_Chunk = c, gsr_Eof = False\<rparr>) chunks @ [\<lparr>gsr_Chunk = [], gsr_Eof = True\<rparr>], None)"
      "concat chunks = drop ?k data" "\<forall>c \<in> set chunks. c \<noteq> [] \<and> length c \<le> 128 * 1024"
      using 1 k(3) by blast
    with False n k show ?thesis
      by (intro exI [of _ "take ?k data # chunks"], subst send_chunks.simps) auto
  qed
qed

text \<open>
  C36: \<open>GetSegment\<close> streams the file as it is: whatever the sizes of the reads, on a client that
  accepts every message the chunks joined are the contents, no chunk is empty or longer than the
  buffer, and the last message, and only it, marks the end. The offset and length of the request
  play no part.
\<close>

theorem GetSegment_streams_file:
  assumes "FS_Get (ss_fs svc) (loc_Bucket loc) (loc_Object loc) (sw_files w) = Inr data"
    and "gs_Locator req = Some loc" and "\<And>rest. \<exists>n. rd rest = Inr n"
  shows "\<exists>chunks. GetSegment (\<lambda>msg sent. (sent @ [msg], None)) rd svc (Some req) w [] =
      (map (\<lambda>c. \<lparr>gsr_Chunk = c, gsr_Eof = False\<rparr>) chunks @ [\<lparr>gsr_Chunk = [], gsr_Eof = True\<rparr>], None) \<and>
    concat chunks = data \<and> (\<forall>c \<in> set chunks. c \<noteq> [] \<and> length c \<le> 128 * 1024)"
  using send_chunks_collect [OF assms(3), where data = data and sent = "[]"] by (simp add: GetSegment_def assms(1,2))

lemma GetSegment_streams_file_witness:
  "let w = sample_world\<lparr>sw_files := [fullPath (NewFS ''/data'') ''v'' ''s1'' \<mapsto> [1, 2, 3]]\<rparr>;
       req = \<lparr>gs_Locator = Some sample_loc, gs_Offset = 1, gs_Length = 1\<rparr> in
   \<exists>chunks. fst (GetSegment (\<lambda>msg sent. (sent @ [msg], None)) (\<lambda>rest. Inr 2)
       (sample_node NoopReplicationTransport) (Some req) w []) =
     map (\<lambda>c. \<lparr>gsr_Chunk = c, gsr_Eof = False\<rparr>) chunks @ [\<lparr>gsr_Chunk = [], gsr_Eof = True\<rparr>] \<and>
     concat chunks = [1, 2, 3]"
proof -
  let ?w = "sample_world\<lparr>sw_files := [fullPath (NewFS ''/data'') ''v'' ''s1'' \<mapsto> [1, 2, 3]]\<rparr>"
  let ?req = "\<lparr>gs_Locator = Some sample_loc, gs_Offset = 1, gs_Length = 1\<rparr>"
  let ?svc = "sample_node NoopReplicationTransport"
  have "FS_Get (ss_fs ?svc) (loc_Bucket sample_loc) (loc_Object sample_loc) (sw_files ?w) = Inr [1, 2, 3]"
    by (simp add: FS_Get_def sample_node_def sample_loc_def Let_def)
  from GetSegment_streams_file [OF this, of ?req "\<lambda>rest. Inr 2"] show ?thesis
    by (auto simp: Let_def)
qed

end
