(* ===== verification/RingWatch.thy ===== *)
theory RingWatch
  imports Storage
begin

text \<open>
  The pipeline from etcd to the rebalancer as a step relation: the goroutine of
  \<open>RingManager.Watch\<close> (\<open>internal/storage/manager.go\<close>) between the etcd watch channel and its own
  channel of eight events, and the loop of \<open>Rebalancer.Run\<close> (\<open>internal/storage/rebalance.go\<close>)
  behind it. Other clients commit transactions and this manager changes its members at any time
  between two steps; the context may be cancelled once.
\<close>

section \<open>Goroutines and their steps\<close>

text \<open>
  \<open>Sending e evts\<close> is the goroutine at its inner \<open>select\<close>, with the rest of the response still to
  be looked at; \<open>Stopped\<close> has closed the event channel.
\<close>

datatype watch_pc = Selecting | Sending RingEvent "WatchEvent list" | Stopped

datatype run_pc = Running | Ended "go_error option"

text \<open>\<open>rw_got\<close> is the history of the events that came out of the etcd channel.\<close>

record ring_watch =
  rw_client :: Client
  rw_wid :: i64
  rw_ch :: nat
  rw_done :: bool
  rw_mgr :: RingManager
  rw_pc :: watch_pc
  rw_events :: "RingEvent list"
  rw_run :: run_pc
  rw_plans :: "RebalancePlan list"
  rw_got :: "WatchEvent list"

definition events_cap :: nat where
  "events_cap = 8"

text \<open>The loop over the events of a response, up to the first that has something to send.\<close>

fun next_event :: "digest \<Rightarrow> token_sort \<Rightarrow> (string \<Rightarrow> ringState option) \<Rightarrow> WatchEvent list \<Rightarrow>
    RingManager \<Rightarrow> RingManager \<times> watch_pc" where
  "next_event sha1 srt unmarshal [] m = (m, Selecting)"
| "next_event sha1 srt unmarshal (evt # evts) m =
     (if ev_Key evt \<noteq> ringKey m then next_event sha1 srt unmarshal evts m
      else if ev_Type evt = EventTypeDelete then next_event sha1 srt unmarshal evts m
      else (case unmarshal (ev_Value evt) of
              None \<Rightarrow> next_event sha1 srt unmarshal evts m
            | Some state \<Rightarrow>
                (applyState sha1 srt state m,
                 Sending \<lparr>re_Version = rs_Version state, re_Assignments = rs_Tokens state\<rparr> evts)))"

definition goto_next :: "digest \<Rightarrow> token_sort \<Rightarrow> (string \<Rightarrow> ringState option) \<Rightarrow> WatchEvent list \<Rightarrow>
    ring_watch \<Rightarrow> ring_watch" where
  "goto_next sha1 srt unmarshal evts s =
     (case next_event sha1 srt unmarshal evts (rw_mgr s) of (m, pc) \<Rightarrow> s\<lparr>rw_mgr := m, rw_pc := pc\<rparr>)"

inductive rw_step :: "digest \<Rightarrow> token_sort \<Rightarrow> (ringState \<Rightarrow> string option) \<Rightarrow> (string \<Rightarrow> ringState option) \<Rightarrow>
    ring_watch \<Rightarrow> ring_watch \<Rightarrow> bool"
  for sha1 srt marshal unmarshal where
  commit: "Txn_Commit t (rw_client s) = (c, res) \<Longrightarrow> txn_supported t \<Longrightarrow>
    rw_step sha1 srt marshal unmarshal s (s\<lparr>rw_client := c\<rparr>)"
| upsert: "UpsertNode sha1 srt marshal now node (rw_mgr s) (rw_client s) = (m, c, res) \<Longrightarrow>
    rw_step sha1 srt marshal unmarshal s (s\<lparr>rw_mgr := m, rw_client := c\<rparr>)"
| remove: "Manager_RemoveNode sha1 srt marshal nid (rw_mgr s) (rw_client s) = (m, c, res) \<Longrightarrow>
    rw_step sha1 srt marshal unmarshal s (s\<lparr>rw_mgr := m, rw_client := c\<rparr>)"
| cancel: "rw_step sha1 srt marshal unmarshal s (s\<lparr>rw_done := True\<rparr>)"
| unsubscribe: "rw_done s \<Longrightarrow>
    rw_step sha1 srt marshal unmarshal s (s\<lparr>rw_client := removeWatcher (rw_wid s) (rw_client s)\<rparr>)"
| close: "rw_done s \<Longrightarrow> map_of (watchers (rw_client s)) (rw_wid s) = None \<Longrightarrow>
    \<not> closed (chans (rw_client s) ! rw_ch s) \<Longrightarrow>
    rw_step sha1 srt marshal unmarshal s (s\<lparr>rw_client := close_chan (rw_ch s) (rw_client s)\<rparr>)"
| receive: "rw_pc s = Selecting \<Longrightarrow> chan_recv (rw_ch s) (rw_client s) = Some (resp, c) \<Longrightarrow>
    rw_step sha1 srt marshal unmarshal s (goto_next sha1 srt unmarshal (wr_Events resp)
      (s\<lparr>rw_client := c, rw_got := rw_got s @ wr_Events resp\<rparr>))"
| closed: "rw_pc s = Selecting \<Longrightarrow> buf (chans (rw_client s) ! rw_ch s) = [] \<Longrightarrow>
    closed (chans (rw_client s) ! rw_ch s) \<Longrightarrow>
    rw_step sha1 srt marshal unmarshal s (s\<lparr>rw_pc := Stopped\<rparr>)"
| send: "rw_pc s = Sending e evts \<Longrightarrow> length (rw_events s) < events_cap \<Longrightarrow>
    rw_step sha1 srt marshal unmarshal s (goto_next sha1 srt unmarshal evts (s\<lparr>rw_events := rw_events s @ [e]\<rparr>))"
| stop: "rw_done s \<Longrightarrow> rw_pc s \<noteq> Stopped \<Longrightarrow> rw_step sha1 srt marshal unmarshal s (s\<lparr>rw_pc := Stopped\<rparr>)"
| execute: "rw_run s = Running \<Longrightarrow> rw_events s = e # es \<Longrightarrow>
    rw_step sha1 srt marshal unmarshal s (s\<lparr>rw_events := es, rw_plans := rw_plans s @ [event_plan e],
      rw_run := (case err of None \<Rightarrow> Running | Some x \<Rightarrow> Ended (Some x))\<rparr>)"
| run_closed: "rw_run s = Running \<Longrightarrow> rw_events s = [] \<Longrightarrow> rw_pc s = Stopped \<Longrightarrow>
    rw_step sha1 srt marshal unmarshal s (s\<lparr>rw_run := Ended None\<rparr>)"
| run_stop: "rw_run s = Running \<Longrightarrow> rw_done s \<Longrightarrow>
    rw_step sha1 srt marshal unmarshal s (s\<lparr>rw_run := Ended None\<rparr>)"

inductive_cases rw_stepE: "rw_step sha1 srt marshal unmarshal s t"

text \<open>The state when \<open>Watch\<close> has subscribed, on a manager and a client that work.\<close>

definition rw_start :: "digest \<Rightarrow> token_sort \<Rightarrow> ring_watch \<Rightarrow> bool" where
  "rw_start sha1 srt s \<longleftrightarrow> mgr_ok sha1 srt (rw_mgr s) \<and>
     (\<exists>c. client_ok c \<and> Client_Watch (rm_prefix (rw_mgr s)) c = (rw_client s, rw_wid s, rw_ch s)) \<and>
     \<not> rw_done s \<and> rw_pc s = Selecting \<and> rw_events s = [] \<and> rw_run s = Running \<and> rw_plans s = [] \<and> rw_got s = []"

section \<open>What the rebalancer is owed\<close>

definition event_of :: "(string \<Rightarrow> ringState option) \<Rightarrow> string \<Rightarrow> WatchEvent \<Rightarrow> RingEvent option" where
  "event_of unmarshal key evt =
     (if ev_Key evt \<noteq> key \<or> ev_Type evt = EventTypeDelete then None
      else map_option (\<lambda>st. \<lparr>re_Version = rs_Version st, re_Assignments = rs_Tokens st\<rparr>) (unmarshal (ev_Value evt)))"

definition ring_events :: "(string \<Rightarrow> ringState option) \<Rightarrow> string \<Rightarrow> WatchEvent list \<Rightarrow> RingEvent list" where
  "ring_events unmarshal key evts = List.map_filter (event_of unmarshal key) evts"

fun pending_events :: "(string \<Rightarrow> ringState option) \<Rightarrow> string \<Rightarrow> watch_pc \<Rightarrow> RingEvent list" where
  "pending_events unmarshal key (Sending e evts) = e # ring_events unmarshal key evts"
| "pending_events unmarshal key _ = []"

lemma ring_events_simps [simp]:
  "ring_events unmarshal key [] = []"
  "ring_events unmarshal key (evt # evts) =
     (case event_of unmarshal key evt of None \<Rightarrow> [] | Some e \<Rightarrow> [e]) @ ring_events unmarshal key evts"
  "ring_events unmarshal key (xs @ ys) = ring_events unmarshal key xs @ ring_events unmarshal key ys"
  by (simp_all add: ring_events_def List.map_filter_def split: option.split)

lemma next_event_pending:
  assumes "next_event sha1 srt unmarshal evts m = (m', pc)"
  shows "pending_events unmarshal (ringKey m) pc = ring_events unmarshal (ringKey m) evts" and "pc \<noteq> Stopped"
  using assms by (induction evts) (auto simp: event_of_def split: if_splits option.splits)

lemma next_event_ok:
  assumes "next_event sha1 srt unmarshal evts m = (m', pc)" and "mgr_ok sha1 srt m" and "decoder_ok unmarshal"
  shows "mgr_ok sha1 srt m' \<and> ringKey m' = ringKey m"
  using assms
proof (induction evts)
  case Nil
  then show ?case by simp
next
  case (Cons evt evts)
  have "mgr_ok sha1 srt (applyState sha1 srt st m) \<and> ringKey (applyState sha1 srt st m) = ringKey m"
    if "unmarshal (ev_Value evt) = Some st" for st
    using that Cons.prems applyState_ok [of st m sha1 srt] by (auto simp: decoder_ok_def mgr_ok_def)
  with Cons show ?case by (auto split: if_splits option.splits)
qed

lemma ringKey_persist: "persistLocked marshal m c = (m', c', res) \<Longrightarrow> ringKey m' = ringKey m"
  by (auto simp: persistLocked_def ringKey_def Let_def split: option.splits prod.splits sum.splits)

lemma ringKey_rebuild: "ringKey (rebuildLocked sha1 srt m) = ringKey m"
  by (simp add: rebuildLocked_def ringKey_def Let_def)

lemma ringKey_Upsert: "UpsertNode sha1 srt marshal now node m c = (m', c', res) \<Longrightarrow> ringKey m' = ringKey m"
  by (auto simp: UpsertNode_def Let_def ringKey_rebuild split: if_splits prod.splits option.splits
      dest!: ringKey_persist) (simp_all add: ringKey_def)

lemma ringKey_Remove: "Manager_RemoveNode sha1 srt marshal nid m c = (m', c', res) \<Longrightarrow> ringKey m' = ringKey m"
  by (auto simp: Manager_RemoveNode_def Let_def ringKey_rebuild split: if_splits prod.splits option.splits
      dest!: ringKey_persist) (simp_all add: ringKey_def)

section \<open>The invariant\<close>

definition rw_owed :: "(string \<Rightarrow> ringState option) \<Rightarrow> ring_watch \<Rightarrow> RebalancePlan list" where
  "rw_owed unmarshal s = map event_plan (ring_events unmarshal (ringKey (rw_mgr s)) (rw_got s))"

definition rw_inv :: "digest \<Rightarrow> token_sort \<Rightarrow> (string \<Rightarrow> ringState option) \<Rightarrow> ring_watch \<Rightarrow> bool" where
  "rw_inv sha1 srt unmarshal s \<longleftrightarrow> (decoder_ok unmarshal \<longrightarrow>
     mgr_ok sha1 srt (rw_mgr s) \<and> length (rw_events s) \<le> events_cap \<and>
     (\<exists>lost. rw_plans s @ map event_plan (rw_events s) @
        map event_plan (pending_events unmarshal (ringKey (rw_mgr s)) (rw_pc s)) @ lost = rw_owed unmarshal s \<and>
        (rw_pc s \<noteq> Stopped \<longrightarrow> lost = [])))"

lemma rw_inv_next:
  assumes "decoder_ok unmarshal" and "mgr_ok sha1 srt (rw_mgr s)" and "length (rw_events s) \<le> events_cap"
    and "rw_plans s @ map event_plan (rw_events s) @ map event_plan (ring_events unmarshal (ringKey (rw_mgr s)) evts) =
      rw_owed unmarshal s"
  shows "rw_inv sha1 srt unmarshal (goto_next sha1 srt unmarshal evts s)"
proof -
  obtain m pc where n: "next_event sha1 srt unmarshal evts (rw_mgr s) = (m, pc)"
    by (cases "next_event sha1 srt unmarshal evts (rw_mgr s)")
  from next_event_pending [OF n] next_event_ok [OF n assms(2,1)] show ?thesis
    using assms(3,4) by (simp add: rw_inv_def goto_next_def n rw_owed_def)
qed

lemma rw_inv_step:
  assumes "rw_inv sha1 srt unmarshal s" and "rw_step sha1 srt marshal unmarshal s t"
  shows "rw_inv sha1 srt unmarshal t"
proof (cases "decoder_ok unmarshal")
  case False
  then show ?thesis by (simp add: rw_inv_def)
next
  case dec: True
  with assms(1) obtain lost where ok: "mgr_ok sha1 srt (rw_mgr s)" "length (rw_events s) \<le> events_cap"
    and owed: "rw_plans s @ map event_plan (rw_events s) @
        map event_plan (pending_events unmarshal (ringKey (rw_mgr s)) (rw_pc s)) @ lost = rw_owed unmarshal s"
    and lost: "rw_pc s \<noteq> Stopped \<longrightarrow> lost = []"
    by (auto simp: rw_inv_def)
  show ?thesis using assms(2)
  proof cases
    case (upsert now node m c res)
    then have "mgr_ok sha1 srt m" using mgr_ok_Upsert [OF ok(1), of marshal now node "rw_client s"] by simp
    with upsert ok owed lost ringKey_Upsert [OF upsert(2)] show ?thesis
      by (auto simp: rw_inv_def rw_owed_def)
  next
    case (remove nid m c res)
    then have "mgr_ok sha1 srt m" using mgr_ok_Remove [OF ok(1), of marshal nid "rw_client s"] by simp
    with remove ok owed lost ringKey_Remove [OF remove(2)] show ?thesis
      by (auto simp: rw_inv_def rw_owed_def)
  next
    case (receive resp c)
    then show ?thesis using dec ok owed lost
      by (simp only: receive(1)) (rule rw_inv_next, simp_all add: rw_owed_def)
  next
    case (send e evts)
    then show ?thesis using dec ok owed lost
      by (simp only: send(1)) (rule rw_inv_next, simp_all add: rw_owed_def)
  next
    case stop
    with ok owed show ?thesis by (auto simp: rw_inv_def rw_owed_def)
  next
    case (execute e es err)
    with ok owed lost show ?thesis by (auto simp: rw_inv_def rw_owed_def)
  next
    case closed
    with ok owed lost show ?thesis by (auto simp: rw_inv_def rw_owed_def intro: exI [of _ "[]"])
  qed (use ok owed lost in \<open>auto simp: rw_inv_def rw_owed_def\<close>)
qed

lemma rw_inv_start: "rw_start sha1 srt s \<Longrightarrow> rw_inv sha1 srt unmarshal s"
  by (auto simp: rw_start_def rw_inv_def rw_owed_def)

interpretation ring_watch: invariant "rw_start sha1 srt" "rw_step sha1 srt marshal unmarshal"
  "rw_inv sha1 srt unmarshal" for sha1 srt marshal unmarshal
  by unfold_locales (auto intro: rw_inv_start rw_inv_step)


text \<open>
  C23: Nothing is lost, doubled or reordered between the etcd channel and the executor: however the
  goroutines, other clients and changes by this manager interleave, the plans executed so far,
  those of the buffered events and of the one being sent are the plans of the ring states that
  came out of the etcd channel, in order, and only a goroutine that has stopped leaves some of
  them behind. At most eight events are buffered, and the manager's ring always matches its members.
\<close>

theorem plans_in_order:
  assumes "reach (rw_start sha1 srt) (rw_step sha1 srt marshal unmarshal) s" and "decoder_ok unmarshal"
  shows "(\<exists>lost. rw_plans s @ map event_plan (rw_events s @ pending_events unmarshal (ringKey (rw_mgr s)) (rw_pc s)) @ lost =
        map event_plan (ring_events unmarshal (ringKey (rw_mgr s)) (rw_got s)) \<and> (rw_pc s \<noteq> Stopped \<longrightarrow> lost = [])) \<and>
    length (rw_events s) \<le> 8 \<and> mgr_ok sha1 srt (rw_mgr s)"
  using ring_watch.reach_inv [OF assms(1)] assms(2)
  by (simp add: rw_inv_def rw_owed_def events_cap_def)

text \<open>
  C37: When the rebalancer has ended on an error of its executor and its context lives on, the ring
  freezes behind it: with eight events unread and one being sent, no ring state leaves the etcd
  channel any more, whatever is committed, so the manager never again learns of a change.
\<close>

theorem abandoned_watch_blocks:
  assumes "(rw_step sha1 srt marshal unmarshal)\<^sup>*\<^sup>* s t" and "\<not> rw_done t"
    and "rw_pc s = Sending e evts" and "length (rw_events s) = 8" and "rw_run s = Ended err"
  shows "rw_pc t = Sending e evts \<and> rw_events t = rw_events s \<and> rw_plans t = rw_plans s \<and> rw_got t = rw_got s"
proof -
  have "\<not> rw_done t \<longrightarrow> rw_pc t = Sending e evts \<and> rw_events t = rw_events s \<and> rw_run t = Ended err \<and>
      rw_plans t = rw_plans s \<and> rw_got t = rw_got s"
    using assms(1)
  proof (induction rule: rtranclp_induct)
    case base
    with assms(3-5) show ?case by simp
  next
    case (step t u)
    from step.hyps(2) show ?case
    proof cases
      case (send e' evts')
      with step.IH assms(4) show ?thesis by (auto simp: events_cap_def goto_next_def split: prod.split)
    next
      case (receive resp c)
      with step.IH show ?thesis by (auto simp: goto_next_def split: prod.split)
    qed (use step.IH in auto)
  qed
  with assms(2) show ?thesis by blast
qed

section \<open>A watch that is abandoned\<close>

abbreviation (input) sample_rw_step :: "ring_watch \<Rightarrow> ring_watch \<Rightarrow> bool" where
  "sample_rw_step \<equiv> rw_step sum_digest (sort_key Hash) mgr_marshal mgr_unmarshal"

abbreviation (input) sample_rw_reach :: "ring_watch \<Rightarrow> bool" where
  "sample_rw_reach \<equiv> reach (rw_start sum_digest (sort_key Hash)) sample_rw_step"

text \<open>The goroutine waits at an empty channel, with \<open>n\<close> events unread.\<close>

definition waits :: "nat \<Rightarrow> run_pc \<Rightarrow> ring_watch \<Rightarrow> bool" where
  "waits n run s \<longleftrightarrow> \<not> rw_done s \<and> rw_pc s = Selecting \<and> length (rw_events s) = n \<and> rw_run s = run \<and>
     ringKey (rw_mgr s) = ''r/ring'' \<and> rw_ch s = 0 \<and> chans (rw_client s) = [\<lparr>buf = [], closed = False\<rparr>] \<and>
     watchers (rw_client s) = [(1, \<lparr>ws_prefix = ''r'', ws_ch = 0\<rparr>)]"

lemma ring_change:
  assumes "sample_rw_reach s" and "waits n run s"
  obtains t e where "sample_rw_reach t" and "waits n run (t\<lparr>rw_pc := Selecting\<rparr>)" and "rw_pc t = Sending e []"
    and "rw_events t = rw_events s" and "rw_plans t = rw_plans s"
proof -
  obtain c res where put: "Txn_Commit (Txn_Then [OpPut ''r/ring'' ''!''] Client_Txn) (rw_client s) = (c, res)"
    by (metis surj_pair)
  let ?evt = "\<lparr>ev_Type = EventTypePut, ev_Key = ''r/ring'', ev_Value = ''!'', ev_ModRevision = revision (rw_client s) + 1\<rparr>"
  let ?c = "c\<lparr>chans := [\<lparr>buf = [], closed = False\<rparr>]\<rparr>"
  let ?s = "s\<lparr>rw_client := c\<rparr>"
  have c: "chans c = [\<lparr>buf = [\<lparr>wr_Events = [?evt], wr_Revision = revision (rw_client s) + 1\<rparr>], closed = False\<rparr>]"
    "watchers c = [(1, \<lparr>ws_prefix = ''r'', ws_ch = 0\<rparr>)]"
    using put assms(2) by (auto simp: etcd_eval waits_def OpPut_def)
  have one: "sample_rw_reach ?s"
    using rw_step.commit [OF put single_put_supported] by (rule reach_step [OF assms(1)])
  have recv: "chan_recv (rw_ch ?s) (rw_client ?s) = Some (\<lparr>wr_Events = [?evt], wr_Revision = revision (rw_client s) + 1\<rparr>, ?c)"
    using assms(2) c by (simp add: chan_recv_def waits_def)
  have "rw_pc ?s = Selecting" using assms(2) by (simp add: waits_def)
  note rw_step.receive [where ?sha1.0 = sum_digest and srt = "sort_key Hash" and marshal = mgr_marshal and
      unmarshal = mgr_unmarshal and s = ?s, OF this recv]
  then have "sample_rw_step ?s (goto_next sum_digest (sort_key Hash) mgr_unmarshal [?evt]
      (?s\<lparr>rw_client := ?c, rw_got := rw_got s @ [?evt]\<rparr>))" by simp
  then have two: "sample_rw_reach (goto_next sum_digest (sort_key Hash) mgr_unmarshal [?evt]
      (?s\<lparr>rw_client := ?c, rw_got := rw_got s @ [?evt]\<rparr>))" by (rule reach_step [OF one])
  obtain st where st: "mgr_unmarshal ''!'' = Some st" by (simp add: mgr_unmarshal_def Let_def)
  then have "wf_map (rs_Nodes st)" using mgr_decoder_ok by (auto simp: decoder_ok_def)
  have key: "ringKey (applyState sum_digest (sort_key Hash) st (rw_mgr s)) = ''r/ring''"
    using assms(2) by (simp add: applyState_def ringKey_rebuild waits_def) (simp add: ringKey_def)
  show thesis
    by (rule that [OF two])
      (use assms(2) c st key in \<open>auto simp: goto_next_def waits_def\<close>)
qed


lemma ring_change_sent:
  assumes "sample_rw_reach s" and "waits n run s" and "n < 8"
  obtains t e where "sample_rw_reach t" and "waits (Suc n) run t" and "rw_events t = rw_events s @ [e]"
    and "rw_plans t = rw_plans s"
proof -
  obtain t e where t: "sample_rw_reach t" "waits n run (t\<lparr>rw_pc := Selecting\<rparr>)" "rw_pc t = Sending e []"
    "rw_events t = rw_events s" "rw_plans t = rw_plans s"
    by (rule ring_change [OF assms(1,2)])
  have room: "length (rw_events t) < events_cap" using t(2) assms(3) by (simp add: waits_def events_cap_def)
  have "sample_rw_step t (goto_next sum_digest (sort_key Hash) mgr_unmarshal [] (t\<lparr>rw_events := rw_events t @ [e]\<rparr>))"
    by (rule rw_step.send [OF t(3) room])
  then have "sample_rw_reach (goto_next sum_digest (sort_key Hash) mgr_unmarshal [] (t\<lparr>rw_events := rw_events t @ [e]\<rparr>))"
    by (rule reach_step [OF t(1)])
  then have "sample_rw_reach (t\<lparr>rw_events := rw_events t @ [e], rw_pc := Selecting\<rparr>)" by (simp add: goto_next_def)
  then show thesis
    by (rule that [of _ e]) (use t(2,4,5) in \<open>auto simp: waits_def\<close>)
qed

definition sample_rw :: ring_watch where
  "sample_rw = \<lparr>rw_client = fst (Client_Watch ''r'' etcd_New), rw_wid = 1, rw_ch = 0, rw_done = False,
     rw_mgr = mgr0, rw_pc = Selecting, rw_events = [], rw_run = Running, rw_plans = [], rw_got = []\<rparr>"

lemma sample_rw_start: "sample_rw_reach sample_rw" "waits 0 Running sample_rw"
proof -
  have "Client_Watch ''r'' etcd_New = (fst (Client_Watch ''r'' etcd_New), 1, 0)" by (simp add: etcd_eval)
  then have "rw_start sum_digest (sort_key Hash) sample_rw"
    using mgr0_ok client_ok_New by (auto simp: rw_start_def sample_rw_def mgr0_def)
  then show "sample_rw_reach sample_rw" by (rule reach_start)
  show "waits 0 Running sample_rw"
    by (simp add: waits_def sample_rw_def etcd_eval mgr0_def ringKey_def)
qed

abbreviation (input) failed_run :: run_pc where
  "failed_run \<equiv> Ended (Some (Err ''no migration''))"

lemma run_fails: "\<exists>s. sample_rw_reach s \<and> waits 0 failed_run s \<and> rw_plans s \<noteq> []"
proof -
  obtain t e where t: "sample_rw_reach t" "waits 1 Running t" "rw_events t = [e]"
    by (rule ring_change_sent [OF sample_rw_start]) (simp_all add: sample_rw_def)
  have "rw_run t = Running" using t(2) by (simp add: waits_def)
  note rw_step.execute [where ?sha1.0 = sum_digest and srt = "sort_key Hash" and marshal = mgr_marshal and
      unmarshal = mgr_unmarshal and err = "Some (Err ''no migration'')", OF this t(3)]
  then have "sample_rw_step t (t\<lparr>rw_events := [], rw_plans := rw_plans t @ [event_plan e], rw_run := failed_run\<rparr>)" by simp
  then have "sample_rw_reach (t\<lparr>rw_events := [], rw_plans := rw_plans t @ [event_plan e], rw_run := failed_run\<rparr>)"
    by (rule reach_step [OF t(1)])
  moreover have "waits 0 failed_run (t\<lparr>rw_events := [], rw_plans := rw_plans t @ [event_plan e], rw_run := failed_run\<rparr>)"
    using t(2) by (simp add: waits_def)
  ultimately show ?thesis by fastforce
qed

lemma events_fill: "n \<le> 8 \<Longrightarrow> \<exists>s. sample_rw_reach s \<and> waits n failed_run s"
proof (induction n)
  case 0
  with run_fails show ?case by blast
next
  case (Suc n)
  then obtain s where "sample_rw_reach s" "waits n failed_run s" by auto
  from ring_change_sent [OF this] Suc.prems show ?case by (metis Suc_le_lessD)
qed

lemma plans_in_order_witness:
  "\<exists>s. sample_rw_reach s \<and> rw_plans s \<noteq> [] \<and>
     rw_plans s = map event_plan (ring_events mgr_unmarshal ''r/ring'' (rw_got s))"
proof -
  obtain s where s: "sample_rw_reach s" "waits 0 failed_run s" "rw_plans s \<noteq> []" using run_fails by blast
  with plans_in_order [OF s(1) mgr_decoder_ok] show ?thesis by (auto simp: waits_def)
qed

lemma abandoned_watch_blocks_witness:
  "\<exists>s t e. sample_rw_reach s \<and> sample_rw_step\<^sup>*\<^sup>* s t \<and> rw_pc t = Sending e [] \<and>
     view (rw_client t) ''r/ring'' = Some ''!!'' \<and> rw_got t = rw_got s"
proof -
  obtain s0 where "sample_rw_reach s0" "waits 8 failed_run s0" using events_fill [of 8] by auto
  then obtain s e where s: "sample_rw_reach s" "waits 8 failed_run (s\<lparr>rw_pc := Selecting\<rparr>)" "rw_pc s = Sending e []"
    by (rule ring_change)
  obtain c res where put: "Txn_Commit (Txn_Then [OpPut ''r/ring'' ''!!''] Client_Txn) (rw_client s) = (c, res)"
    by (metis surj_pair)
  have "view c ''r/ring'' = Some ''!!''"
    using put s(2) by (auto simp: etcd_eval waits_def OpPut_def view_def)
  moreover have step: "sample_rw_step\<^sup>*\<^sup>* s (s\<lparr>rw_client := c\<rparr>)"
    using rw_step.commit [OF put single_put_supported] by (rule r_into_rtranclp)
  moreover have "rw_pc (s\<lparr>rw_client := c\<rparr>) = Sending e [] \<and> rw_got (s\<lparr>rw_client := c\<rparr>) = rw_got s"
    using abandoned_watch_blocks [OF step _ s(3)] s(2) by (simp add: waits_def)
  ultimately show ?thesis
    using s(1) by (intro exI [of _ s] exI [of _ "s\<lparr>rw_client := c\<rparr>"] exI [of _ e]) simp
qed

end
