(* ===== verification/Json.thy ===== *)
theory Json
  imports Prelude
begin

text \<open>
  The part of Go's \<open>encoding/json\<close> that the program's commands use: the text that \<open>Marshal\<close>
  writes, the values that \<open>Unmarshal\<close> and \<open>Decoder.Decode\<close> read, and the decoding of an object
  into a struct. Strings are bytes; those that are not valid UTF-8 are written and read as U+FFFD.
\<close>

section \<open>Values\<close>

text \<open>A number is its literal: the program prints and reads integers of several widths.\<close>

datatype json =
    JNull | JBool bool | JNum string | JStr string | JArr "json list" | JObj "(string \<times> json) list"

section \<open>UTF-8\<close>

definition in_range :: "nat \<times> nat \<Rightarrow> char \<Rightarrow> bool" where
  "in_range r c \<longleftrightarrow> fst r \<le> of_char c \<and> of_char c \<le> snd r"

definition trailing :: "(nat \<times> nat) list \<Rightarrow> string \<Rightarrow> nat option" where
  "trailing rs t = (if list_all2 in_range rs (take (length rs) t) then Some (Suc (length rs)) else None)"

text \<open>The length of the rune that starts a string, \<open>None\<close> when it is not valid.\<close>

definition rune_len :: "char \<Rightarrow> string \<Rightarrow> nat option" where
  "rune_len c t = (let x = of_char c :: nat; any = (0x80, 0xBF) in
     if x < 0x80 then Some 1
     else if 0xC2 \<le> x \<and> x \<le> 0xDF then trailing [any] t
     else if x = 0xE0 then trailing [(0xA0, 0xBF), any] t
     else if x = 0xED then trailing [(0x80, 0x9F), any] t
     else if 0xE1 \<le> x \<and> x \<le> 0xEF then trailing [any, any] t
     else if x = 0xF0 then trailing [(0x90, 0xBF), any, any] t
     else if 0xF1 \<le> x \<and> x \<le> 0xF3 then trailing [any, any, any] t
     else if x = 0xF4 then trailing [(0x80, 0x8F), any, any] t
     else None)"

definition encode_rune :: "nat \<Rightarrow> string" where
  "encode_rune r =
     (if r < 0x80 then [char_of r]
      else if r < 0x800 then [char_of (0xC0 + r div 64), char_of (0x80 + r mod 64)]
      else if r < 0x10000 then
        [char_of (0xE0 + r div 4096), char_of (0x80 + r div 64 mod 64), char_of (0x80 + r mod 64)]
      else [char_of (0xF0 + r div 262144), char_of (0x80 + r div 4096 mod 64),
            char_of (0x80 + r div 64 mod 64), char_of (0x80 + r mod 64)])"

function valid_utf8 :: "string \<Rightarrow> bool" where
  "valid_utf8 [] = True"
| "valid_utf8 (c # cs) = (case rune_len c cs of None \<Rightarrow> False | Some n \<Rightarrow> valid_utf8 (drop (n - 1) cs))"
  by pat_completeness auto
termination by (relation "measure length") (auto simp: less_Suc_eq_le)

section \<open>Printing\<close>

definition lower_hex :: "nat \<Rightarrow> char" where
  "lower_hex d = (if d < 10 then char_of (48 + d) else char_of (87 + d))"

definition escape_ascii :: "char \<Rightarrow> string" where
  "escape_ascii c = (let x = of_char c :: nat in
     if c = CHR 0x22 \<or> c = CHR 0x5C then [CHR 0x5C, c]
     else if c = CHR 0x0A then [CHR 0x5C, CHR ''n'']
     else if c = CHR 0x0D then [CHR 0x5C, CHR ''r'']
     else if c = CHR 0x09 then [CHR 0x5C, CHR ''t'']
     else if x < 32 \<or> c = CHR ''<'' \<or> c = CHR ''>'' \<or> c = CHR ''&''
       then [CHR 0x5C, CHR ''u'', CHR ''0'', CHR ''0'', lower_hex (x div 16), lower_hex (x mod 16)]
     else [c])"

text \<open>The line separators U+2028 and U+2029 are escaped too.\<close>

definition escape_rune :: "string \<Rightarrow> string" where
  "escape_rune r =
     (if r = [CHR 0xE2, CHR 0x80, CHR 0xA8] then CHR 0x5C # ''u2028''
      else if r = [CHR 0xE2, CHR 0x80, CHR 0xA9] then CHR 0x5C # ''u2029'' else r)"

function quote_runes :: "string \<Rightarrow> string" where
  "quote_runes [] = []"
| "quote_runes (c # cs) =
     (if of_char c < (128 :: nat) then escape_ascii c @ quote_runes cs
      else case rune_len c cs of
          None \<Rightarrow> (CHR 0x5C # ''ufffd'') @ quote_runes cs
        | Some n \<Rightarrow> escape_rune (c # take (n - 1) cs) @ quote_runes (drop (n - 1) cs))"
  by pat_completeness auto
termination by (relation "measure length") (auto simp: less_Suc_eq_le)

definition quote :: "string \<Rightarrow> string" where
  "quote s = CHR 0x22 # quote_runes s @ [CHR 0x22]"

fun json_print :: "json \<Rightarrow> string"
and json_elems :: "json list \<Rightarrow> string"
and json_members :: "(string \<times> json) list \<Rightarrow> string" where
  "json_print JNull = ''null''"
| "json_print (JBool b) = (if b then ''true'' else ''false'')"
| "json_print (JNum lit) = lit"
| "json_print (JStr s) = quote s"
| "json_print (JArr js) = ''['' @ json_elems js @ '']''"
| "json_print (JObj ms) = ''{'' @ json_members ms @ ''}''"
| "json_elems [] = []"
| "json_elems [j] = json_print j"
| "json_elems (j # js) = json_print j @ '','' @ json_elems js"
| "json_members [] = []"
| "json_members [(k, j)] = quote k @ '':'' @ json_print j"
| "json_members ((k, j) # ms) = quote k @ '':'' @ json_print j @ '','' @ json_members ms"

definition json_int :: "int \<Rightarrow> json" where
  "json_int i = JNum (print_int i)"

section \<open>Reading\<close>

definition is_ws :: "char \<Rightarrow> bool" where
  "is_ws c \<longleftrightarrow> of_char c \<in> {9, 10, 13, 32 :: nat}"

abbreviation (input) skip_ws :: "string \<Rightarrow> string" where
  "skip_ws \<equiv> dropWhile is_ws"

definition is_digit :: "char \<Rightarrow> bool" where
  "is_digit c \<longleftrightarrow> 48 \<le> (of_char c :: nat) \<and> of_char c \<le> (57 :: nat)"

definition hex_val :: "char \<Rightarrow> nat option" where
  "hex_val c = (let x = of_char c :: nat in
     if 48 \<le> x \<and> x \<le> 57 then Some (x - 48)
     else if 97 \<le> x \<and> x \<le> 102 then Some (x - 87)
     else if 65 \<le> x \<and> x \<le> 70 then Some (x - 55)
     else None)"

fun hex4 :: "string \<Rightarrow> nat option" where
  "hex4 (a # b # c # d # _) =
     (case (hex_val a, hex_val b, hex_val c, hex_val d) of
        (Some x, Some y, Some z, Some w) \<Rightarrow> Some (4096 * x + 256 * y + 16 * z + w)
      | _ \<Rightarrow> None)"
| "hex4 _ = None"

text \<open>The low surrogate that has to follow a high one, and the rune of the pair.\<close>

definition pair_rune :: "nat \<Rightarrow> string \<Rightarrow> nat option" where
  "pair_rune r es =
     (case es of
        b # u # fs \<Rightarrow>
          if b = CHR 0x5C \<and> u = CHR ''u'' then
            (case hex4 fs of
               Some r2 \<Rightarrow>
                 if r < 0xDC00 \<and> 0xDC00 \<le> r2 \<and> r2 < 0xE000
                 then Some (0x10000 + (r - 0xD800) * 1024 + (r2 - 0xDC00)) else None
             | None \<Rightarrow> None)
          else None
      | _ \<Rightarrow> None)"

definition simple_escape :: "char \<Rightarrow> char option" where
  "simple_escape e =
     (if e = CHR 0x22 \<or> e = CHR 0x5C \<or> e = CHR ''/'' then Some e
      else if e = CHR ''b'' then Some (CHR 0x08) else if e = CHR ''f'' then Some (CHR 0x0C)
      else if e = CHR ''n'' then Some (CHR 0x0A) else if e = CHR ''r'' then Some (CHR 0x0D)
      else if e = CHR ''t'' then Some (CHR 0x09) else None)"

definition fffd :: string where
  "fffd = [CHR 0xEF, CHR 0xBF, CHR 0xBD]"

text \<open>The string after an opening quote, and what follows its closing quote.\<close>

function unquote :: "string \<Rightarrow> (string \<times> string) option" where
  "unquote [] = None"
| "unquote (c # cs) =
     (if c = CHR 0x22 then Some ([], cs)
      else if c = CHR 0x5C then
        (case cs of
           [] \<Rightarrow> None
         | e # ds \<Rightarrow>
             if e = CHR ''u'' then
               (case hex4 ds of
                  None \<Rightarrow> None
                | Some r \<Rightarrow>
                    if 0xD800 \<le> r \<and> r < 0xE000 then
                      (case pair_rune r (drop 4 ds) of
                         Some r2 \<Rightarrow> map_option (apfst (append (encode_rune r2))) (unquote (drop 10 ds))
                       | None \<Rightarrow> map_option (apfst (append fffd)) (unquote (drop 4 ds)))
                    else map_option (apfst (append (encode_rune r))) (unquote (drop 4 ds)))
             else (case simple_escape e of
                 None \<Rightarrow> None
               | Some x \<Rightarrow> map_option (apfst (Cons x)) (unquote ds)))
      else if of_char c < (32 :: nat) then None
      else if of_char c < (128 :: nat) then map_option (apfst (Cons c)) (unquote cs)
      else case rune_len c cs of
          None \<Rightarrow> map_option (apfst (append fffd)) (unquote cs)
        | Some n \<Rightarrow> map_option (apfst (append (c # take (n - 1) cs))) (unquote (drop (n - 1) cs)))"
  by pat_completeness auto
termination by (relation "measure length") (auto simp: less_Suc_eq_le)

text \<open>
  A number literal and the rest: \<open>-?(0|[1-9][0-9]*)(\.[0-9]+)?([eE][+-]?[0-9]+)?\<close>.
\<close>

definition scan_digits :: "string \<Rightarrow> (string \<times> string) option" where
  "scan_digits s = (if takeWhile is_digit s = [] then None else Some (takeWhile is_digit s, dropWhile is_digit s))"

definition scan_int :: "string \<Rightarrow> (string \<times> string) option" where
  "scan_int s = (if take 1 s = ''0'' then Some (''0'', drop 1 s) else scan_digits s)"

definition scan_frac :: "string \<Rightarrow> (string \<times> string) option" where
  "scan_frac s =
     (if take 1 s = ''.'' then map_option (apfst (append ''.'')) (scan_digits (drop 1 s)) else Some ([], s))"

definition scan_exp :: "string \<Rightarrow> (string \<times> string) option" where
  "scan_exp s = (case s of
       e # t \<Rightarrow>
         if e = CHR ''e'' \<or> e = CHR ''E'' then
           (case t of
              g # u \<Rightarrow> if g = CHR ''+'' \<or> g = CHR ''-''
                then map_option (apfst (append [e, g])) (scan_digits u)
                else map_option (apfst (Cons e)) (scan_digits t)
            | [] \<Rightarrow> None)
         else Some ([], s)
     | [] \<Rightarrow> Some ([], s))"

definition scan_number :: "string \<Rightarrow> (string \<times> string) option" where
  "scan_number s =
     (let (sign, s) = (if take 1 s = ''-'' then (''-'', drop 1 s) else ([], s)) in
      case scan_int s of None \<Rightarrow> None | Some (i, s) \<Rightarrow>
      (case scan_frac s of None \<Rightarrow> None | Some (f, s) \<Rightarrow>
       (case scan_exp s of None \<Rightarrow> None | Some (e, s) \<Rightarrow> Some (sign @ i @ f @ e, s))))"

definition strip_prefix :: "string \<Rightarrow> string \<Rightarrow> string option" where
  "strip_prefix p s = (if take (length p) s = p then Some (drop (length p) s) else None)"

definition scan_literal :: "string \<Rightarrow> (json \<times> string) option" where
  "scan_literal s =
     (case strip_prefix ''null'' s of Some r \<Rightarrow> Some (JNull, r) | None \<Rightarrow>
     (case strip_prefix ''true'' s of Some r \<Rightarrow> Some (JBool True, r) | None \<Rightarrow>
     (case strip_prefix ''false'' s of Some r \<Rightarrow> Some (JBool False, r) | None \<Rightarrow>
       map_option (apfst JNum) (scan_number s))))"

text \<open>
  The first value of a text and what follows it. \<open>d\<close> bounds the nesting (10000 in Go). The fuel
  \<open>f\<close> bounds the recursion; two units for every byte are enough (\<open>parse_fuel\<close> below).
\<close>

fun parse_value :: "nat \<Rightarrow> nat \<Rightarrow> string \<Rightarrow> (json \<times> string) option"
and parse_elems :: "nat \<Rightarrow> nat \<Rightarrow> string \<Rightarrow> (json list \<times> string) option"
and parse_members :: "nat \<Rightarrow> nat \<Rightarrow> string \<Rightarrow> ((string \<times> json) list \<times> string) option" where
  "parse_value 0 d s = None"
| "parse_value (Suc f) d s =
     (case skip_ws s of
        [] \<Rightarrow> None
      | c # cs \<Rightarrow>
          if c = CHR ''{'' then
            (if d = 0 then None
             else if take 1 (skip_ws cs) = ''}'' then Some (JObj [], drop 1 (skip_ws cs))
             else map_option (apfst JObj) (parse_members f (d - 1) cs))
          else if c = CHR ''['' then
            (if d = 0 then None
             else if take 1 (skip_ws cs) = '']'' then Some (JArr [], drop 1 (skip_ws cs))
             else map_option (apfst JArr) (parse_elems f (d - 1) cs))
          else if c = CHR 0x22 then map_option (apfst JStr) (unquote cs)
          else scan_literal (c # cs))"
| "parse_elems 0 d s = None"
| "parse_elems (Suc f) d s =
     (case parse_value f d s of
        None \<Rightarrow> None
      | Some (v, r) \<Rightarrow>
          if take 1 (skip_ws r) = '','' then map_option (apfst (Cons v)) (parse_elems f d (drop 1 (skip_ws r)))
          else if take 1 (skip_ws r) = '']'' then Some ([v], drop 1 (skip_ws r))
          else None)"
| "parse_members 0 d s = None"
| "parse_members (Suc f) d s =
     (case skip_ws s of
        [] \<Rightarrow> None
      | c # cs \<Rightarrow>
          if c \<noteq> CHR 0x22 then None
          else (case unquote cs of
              None \<Rightarrow> None
            | Some (k, r) \<Rightarrow>
                if take 1 (skip_ws r) \<noteq> '':'' then None
                else (case parse_value f d (drop 1 (skip_ws r)) of
                    None \<Rightarrow> None
                  | Some (v, r) \<Rightarrow>
                      if take 1 (skip_ws r) = '',''
                      then map_option (apfst (Cons (k, v))) (parse_members f d (drop 1 (skip_ws r)))
                      else if take 1 (skip_ws r) = ''}'' then Some ([(k, v)], drop 1 (skip_ws r))
                      else None)))"

definition max_depth :: nat where
  "max_depth = 10000"

text \<open>\<open>Decoder.Decode\<close> reads the first value; \<open>Unmarshal\<close> refuses anything but space after it.\<close>

definition json_Decode :: "string \<Rightarrow> json option" where
  "json_Decode s = map_option fst (parse_value (2 * length s + 2) max_depth s)"

definition json_Unmarshal :: "string \<Rightarrow> json option" where
  "json_Unmarshal s =
     (case parse_value (2 * length s + 2) max_depth s of
        Some (v, r) \<Rightarrow> if skip_ws r = [] then Some v else None
      | None \<Rightarrow> None)"

section \<open>Strings come back\<close>

lemma trailing_append:
  assumes "trailing rs t = Some n"
  shows "n - 1 \<le> length t \<and> trailing rs (take (n - 1) t @ y) = Some n"
proof -
  have n: "n = Suc (length rs)" and all: "list_all2 in_range rs (take (length rs) t)"
    using assms by (auto simp: trailing_def split: if_splits)
  from list_all2_lengthD [OF all] have "length rs \<le> length t" by simp
  then show ?thesis using n all by (simp add: trailing_def)
qed

lemma rune_len_append:
  assumes "rune_len c t = Some n"
  shows "n - 1 \<le> length t \<and> rune_len c (take (n - 1) t @ y) = Some n"
  using assms trailing_append [of _ t n y]
  unfolding rune_len_def Let_def by (simp split: if_splits) 

lemma unquote_escape:
  assumes "of_char c < (128 :: nat)"
  shows "unquote (escape_ascii c @ s) = map_option (apfst (Cons c)) (unquote s)"
proof -
  let ?x = "of_char c :: nat"
  have c: "char_of ?x = c" by simp
  have hex: "hex_val (lower_hex d) = Some d" if "d < 16" for d
    using that by (auto simp: hex_val_def lower_hex_def of_char_of Let_def)
  have h: "hex4 (CHR ''0'' # CHR ''0'' # lower_hex (?x div 16) # lower_hex (?x mod 16) # s) = Some ?x"
    using assms hex [of "?x div 16"] hex [of "?x mod 16"] by (simp add: hex_val_def)
  consider "c = CHR 0x22 \<or> c = CHR 0x5C" | "c = CHR 0x0A" | "c = CHR 0x0D" | "c = CHR 0x09"
    | "c \<noteq> CHR 0x22" "c \<noteq> CHR 0x5C" "c \<noteq> CHR 0x0A" "c \<noteq> CHR 0x0D" "c \<noteq> CHR 0x09"
      "?x < 32 \<or> c = CHR ''<'' \<or> c = CHR ''>'' \<or> c = CHR ''&''"
    | "c \<noteq> CHR 0x22" "c \<noteq> CHR 0x5C" "c \<noteq> CHR 0x0A" "c \<noteq> CHR 0x0D" "c \<noteq> CHR 0x09"
      "\<not> (?x < 32 \<or> c = CHR ''<'' \<or> c = CHR ''>'' \<or> c = CHR ''&'')"
    by blast
  then show ?thesis
  proof cases
    case 5
    then have "escape_ascii c = [CHR 0x5C, CHR ''u'', CHR ''0'', CHR ''0'', lower_hex (?x div 16), lower_hex (?x mod 16)]"
      by (simp add: escape_ascii_def Let_def)
    moreover have "(@) [c] = (#) c" by auto
    ultimately show ?thesis using h assms by (simp add: encode_rune_def)
  next
    case 6
    then have "escape_ascii c = [c]" by (simp add: escape_ascii_def Let_def)
    with 6 assms show ?thesis by simp
  next
    case 1
    then show ?thesis by (auto simp: escape_ascii_def simple_escape_def)
  qed (simp_all add: escape_ascii_def simple_escape_def)
qed

lemma unquote_escape_rune:
  assumes "rune_len c cs = Some n" and "\<not> of_char c < (128 :: nat)"
  shows "unquote (escape_rune (c # take (n - 1) cs) @ s) =
    map_option (apfst (append (c # take (n - 1) cs))) (unquote s)"
proof -
  have runes: "encode_rune 8232 = [CHR 0xE2, CHR 0x80, CHR 0xA8]" "encode_rune 8233 = [CHR 0xE2, CHR 0x80, CHR 0xA9]"
    by (simp_all add: encode_rune_def char_of_eq_iff)
  note chunk = rune_len_append [OF assms(1), of s]
  have sep: "unquote (CHR 0x5C # ''u2028'' @ s) = map_option (apfst (append [CHR 0xE2, CHR 0x80, CHR 0xA8])) (unquote s)"
    "unquote (CHR 0x5C # ''u2029'' @ s) = map_option (apfst (append [CHR 0xE2, CHR 0x80, CHR 0xA9])) (unquote s)"
    using runes by (simp_all add: hex_val_def)
  have plain: "unquote ((c # take (n - 1) cs) @ s) = map_option (apfst (append (c # take (n - 1) cs))) (unquote s)"
    using chunk assms(2) by auto
  show ?thesis unfolding escape_rune_def using sep plain by (simp split: if_splits del: unquote.simps)
qed

lemma unquote_quote_runes:
  "valid_utf8 s \<Longrightarrow> unquote (quote_runes s @ CHR 0x22 # rest) = Some (s, rest)"
proof (induction s rule: quote_runes.induct)
  case 1
  then show ?case by simp
next
  case (2 c cs)
  show ?case
  proof (cases "of_char c < (128 :: nat)")
    case True
    then have "rune_len c cs = Some 1" by (simp add: rune_len_def)
    with 2 True show ?thesis by (simp add: unquote_escape del: unquote.simps)
  next
    case False
    with 2(4) obtain n where n: "rune_len c cs = Some n" and ok: "valid_utf8 (drop (n - 1) cs)"
      by (auto split: option.splits)
    with 2(3) [OF False n] show ?thesis
      using unquote_escape_rune [OF n False, of "quote_runes (drop (n - 1) cs) @ CHR 0x22 # rest"] False
      by (simp del: unquote.simps)
  qed
qed

section \<open>Numbers come back\<close>

definition int_lit :: "string \<Rightarrow> bool" where
  "int_lit lit = (let ds = (if take 1 lit = ''-'' then drop 1 lit else lit) in
     ds = ''0'' \<or> (ds \<noteq> [] \<and> list_all is_digit ds \<and> hd ds \<noteq> CHR ''0''))"

definition no_number :: "string \<Rightarrow> bool" where
  "no_number rest = (case rest of [] \<Rightarrow> True
     | c # _ \<Rightarrow> \<not> is_digit c \<and> c \<noteq> CHR ''.'' \<and> c \<noteq> CHR ''e'' \<and> c \<noteq> CHR ''E'')"

lemma is_digit_itoa: "list_all is_digit (itoa n)"
proof (induction n rule: itoa.induct)
  case (1 n)
  have "is_digit (digit_char d)" if "d < 10" for d
    using that by (simp add: is_digit_def of_char_digit)
  with 1 show ?case by (subst itoa.simps) auto
qed

lemma hd_itoa: "0 < n \<Longrightarrow> hd (itoa n) \<noteq> CHR ''0''"
proof (induction n rule: itoa.induct)
  case (1 n)
  have "digit_char d \<noteq> CHR ''0''" if "0 < d" "d < 10" for d
    using of_char_digit [of d] that by auto
  with 1 show ?case by (subst itoa.simps) (auto simp: itoa_nonempty)
qed

lemma int_lit_int: "json_int i = JNum lit \<Longrightarrow> int_lit lit"
proof -
  have nat: "itoa n = ''0'' \<or> (itoa n \<noteq> [] \<and> list_all is_digit (itoa n) \<and> hd (itoa n) \<noteq> CHR ''0'')" for n
  proof (cases "n = 0")
    case True
    then show ?thesis by (subst itoa.simps) (simp add: digit_char_def char_of_eq_iff)
  qed (simp add: is_digit_itoa hd_itoa itoa_nonempty)
  have pos: "itoa n = c # t \<Longrightarrow> c \<noteq> CHR ''-''" for n c t
    using is_digit_itoa [of n] by (auto simp: is_digit_def)
  show "json_int i = JNum lit \<Longrightarrow> int_lit lit"
    using nat [of "nat i"] nat [of "nat (- i)"] pos
    by (cases "itoa (nat i)") (auto simp: json_int_def print_int_def int_lit_def Let_def split: if_splits)
qed

lemma scan_rest:
  assumes "no_number rest"
  shows "scan_frac rest = Some ([], rest)" "scan_exp rest = Some ([], rest)"
    "list_all is_digit ds \<Longrightarrow> takeWhile is_digit (ds @ rest) = ds"
    "list_all is_digit ds \<Longrightarrow> dropWhile is_digit (ds @ rest) = rest"
proof -
  show "scan_frac rest = Some ([], rest)" "scan_exp rest = Some ([], rest)"
    using assms by (cases rest; simp add: no_number_def scan_frac_def scan_exp_def)+
  have "takeWhile is_digit rest = []" "dropWhile is_digit rest = rest"
    using assms by (cases rest; simp add: no_number_def)+
  then show "list_all is_digit ds \<Longrightarrow> takeWhile is_digit (ds @ rest) = ds"
    "list_all is_digit ds \<Longrightarrow> dropWhile is_digit (ds @ rest) = rest"
    by (induction ds) auto
qed

lemma scan_int_digits:
  assumes "no_number rest"
    and "ds = ''0'' \<or> (ds \<noteq> [] \<and> list_all is_digit ds \<and> hd ds \<noteq> CHR ''0'')"
  shows "scan_int (ds @ rest) = Some (ds, rest)"
proof -
  show ?thesis using assms(2) scan_rest(3,4) [OF assms(1), of ds]
    by (cases ds) (auto simp: scan_int_def scan_digits_def)
qed

lemma scan_number_lit:
  assumes "int_lit lit" and "no_number rest"
  shows "scan_number (lit @ rest) = Some (lit, rest)"
proof -
  define ds where "ds = (if take 1 lit = ''-'' then drop 1 lit else lit)"
  have ds: "ds = ''0'' \<or> (ds \<noteq> [] \<and> list_all is_digit ds \<and> hd ds \<noteq> CHR ''0'')"
    using assms(1) by (simp add: int_lit_def ds_def Let_def)
  then have "lit \<noteq> []" by (auto simp: ds_def split: if_splits)
  then show ?thesis
    using scan_int_digits [OF assms(2) ds] scan_rest(1,2) [OF assms(2)]
    by (cases lit) (auto simp: scan_number_def ds_def Let_def)
qed

section \<open>Texts come back\<close>

text \<open>What \<open>Marshal\<close> writes of its own: valid UTF-8, integers, and nesting within \<open>d\<close>.\<close>

fun json_ok :: "nat \<Rightarrow> json \<Rightarrow> bool" where
  "json_ok d JNull = True"
| "json_ok d (JBool b) = True"
| "json_ok d (JNum lit) = int_lit lit"
| "json_ok d (JStr s) = valid_utf8 s"
| "json_ok d (JArr js) = (d > 0 \<and> list_all (json_ok (d - 1)) js)"
| "json_ok d (JObj ms) = (d > 0 \<and> list_all (\<lambda>(k, j). valid_utf8 k \<and> json_ok (d - 1) j) ms)"

lemma unquote_quote: "valid_utf8 s \<Longrightarrow> unquote (quote_runes s @ CHR 0x22 # rest) = Some (s, rest)"
  by (rule unquote_quote_runes)

text \<open>The first byte of a value tells its kind and is no space.\<close>

definition first_byte :: "json \<Rightarrow> char \<Rightarrow> bool" where
  "first_byte j c = (case j of
     JNull \<Rightarrow> c = CHR ''n'' | JBool b \<Rightarrow> c = (if b then CHR ''t'' else CHR ''f'')
   | JNum _ \<Rightarrow> c = CHR ''-'' \<or> is_digit c | JStr _ \<Rightarrow> c = CHR 0x22
   | JArr _ \<Rightarrow> c = CHR ''['' | JObj _ \<Rightarrow> c = CHR ''{'')"

lemma json_print_first:
  assumes "json_ok d j"
  obtains c cs where "json_print j = c # cs" and "first_byte j c" and "\<not> is_ws c" and "c \<noteq> CHR '']''"
proof -
  have digit: "is_digit c \<Longrightarrow> \<not> is_ws c \<and> c \<noteq> CHR '']''" for c
    by (auto simp: is_digit_def is_ws_def)
  have "\<exists>c cs. json_print j = c # cs \<and> first_byte j c \<and> \<not> is_ws c \<and> c \<noteq> CHR '']''"
  proof (cases j)
    case (JNum lit)
    with assms have "int_lit lit" by simp
    then show ?thesis using digit
      by (cases lit) (auto simp: JNum int_lit_def first_byte_def Let_def is_ws_def is_digit_def split: if_splits)
  qed (auto simp: first_byte_def is_ws_def quote_def)
  with that show thesis by blast
qed

lemma scan_literal_print:
  "scan_literal (''null'' @ rest) = Some (JNull, rest)"
  "scan_literal (''true'' @ rest) = Some (JBool True, rest)"
  "scan_literal (''false'' @ rest) = Some (JBool False, rest)"
  "int_lit lit \<Longrightarrow> no_number rest \<Longrightarrow> scan_literal (lit @ rest) = Some (JNum lit, rest)"
proof -
  show "scan_literal (''null'' @ rest) = Some (JNull, rest)"
    "scan_literal (''true'' @ rest) = Some (JBool True, rest)"
    "scan_literal (''false'' @ rest) = Some (JBool False, rest)"
    by (simp_all add: scan_literal_def strip_prefix_def)
  assume lit: "int_lit lit" "no_number rest"
  obtain c cs where "lit = c # cs" and "c = CHR ''-'' \<or> is_digit c"
    using lit(1) by (cases lit) (auto simp: int_lit_def Let_def is_digit_def split: if_splits)
  then show "scan_literal (lit @ rest) = Some (JNum lit, rest)"
    using scan_number_lit [OF lit]
    by (auto simp: scan_literal_def strip_prefix_def is_digit_def)
qed

lemma json_elems_first:
  assumes "list_all (json_ok d) js" and "js \<noteq> []"
  shows "dropWhile is_ws (json_elems js @ rest) = json_elems js @ rest" and "take 1 (json_elems js @ rest) \<noteq> '']''"
proof -
  obtain j js' where js: "js = j # js'" using assms(2) by (cases js) auto
  then have "json_ok d j" using assms(1) by simp
  then obtain c cs where c: "json_print j = c # cs" "\<not> is_ws c" "c \<noteq> CHR '']''"
    by (rule json_print_first)
  then obtain t where "json_elems js @ rest = c # t" using js by (cases js') auto
  with c show "dropWhile is_ws (json_elems js @ rest) = json_elems js @ rest" "take 1 (json_elems js @ rest) \<noteq> '']''"
    by simp_all
qed

lemma json_members_first:
  assumes "ms \<noteq> []"
  shows "dropWhile is_ws (json_members ms @ rest) = json_members ms @ rest" and "take 1 (json_members ms @ rest) \<noteq> ''}''"
proof -
  obtain k j ms' where "ms = (k, j) # ms'" using assms by (cases ms) auto
  then obtain t where "json_members ms @ rest = CHR 0x22 # t" by (cases ms') (auto simp: quote_def)
  then show "dropWhile is_ws (json_members ms @ rest) = json_members ms @ rest" "take 1 (json_members ms @ rest) \<noteq> ''}''"
    by (simp_all add: is_ws_def)
qed

lemma json_roundtrip:
  "json_ok d j \<Longrightarrow> no_number rest \<Longrightarrow> 2 * length (json_print j) \<le> f \<Longrightarrow>
     parse_value f d (json_print j @ rest) = Some (j, rest)"
  "list_all (json_ok d) js \<Longrightarrow> js \<noteq> [] \<Longrightarrow> 2 * length (json_elems js) + 1 \<le> f \<Longrightarrow>
     parse_elems f d (json_elems js @ '']'' @ rest) = Some (js, rest)"
  "list_all (\<lambda>(k, j). valid_utf8 k \<and> json_ok d j) ms \<Longrightarrow> ms \<noteq> [] \<Longrightarrow>
     2 * length (json_members ms) + 1 \<le> f \<Longrightarrow>
     parse_members f d (json_members ms @ ''}'' @ rest) = Some (ms, rest)"
proof (induction j and js and ms arbitrary: d f rest and d f rest and d f rest
    rule: json_print_json_elems_json_members.induct)
  case 1
  then show ?case using scan_literal_print(1) [of rest] by (cases f) (simp_all add: is_ws_def)
next
  case (2 b)
  then show ?case using scan_literal_print(2,3) [of rest] by (cases f; cases b) (simp_all add: is_ws_def)
next
  case (3 lit)
  then obtain c cs where "lit = c # cs" "c = CHR ''-'' \<or> is_digit c"
    by (cases lit) (auto simp: int_lit_def Let_def is_digit_def split: if_splits)
  then have c: "lit = c # cs" and "\<not> is_ws c" "c \<noteq> CHR ''{''" "c \<noteq> CHR ''[''" "c \<noteq> CHR 0x22"
    by (auto simp: is_ws_def is_digit_def)
  moreover obtain f' where "f = Suc f'" using 3 c by (cases f) simp_all
  ultimately show ?case using 3 scan_literal_print(4) [of lit rest] by simp
next
  case (4 s)
  then show ?case using unquote_quote [of s rest] by (cases f) (simp_all add: quote_def is_ws_def)
next
  case (5 js)
  obtain f' where f: "f = Suc f'" using 5(4) by (cases f) simp_all
  show ?case
  proof (cases js)
    case Nil
    with 5 f show ?thesis by (simp add: is_ws_def)
  next
    case (Cons j js')
    then show ?thesis using 5 f json_elems_first [of "d - 1" js "CHR '']'' # rest"] by (simp add: is_ws_def)
  qed
next
  case (6 ms)
  obtain f' where f: "f = Suc f'" using 6(4) by (cases f) simp_all
  show ?case
  proof (cases ms)
    case Nil
    with 6 f show ?thesis by (simp add: is_ws_def)
  next
    case (Cons kj ms')
    then show ?thesis using 6 f json_members_first [of ms "CHR ''}'' # rest"] by (simp add: is_ws_def)
  qed
next
  case 7
  then show ?case by simp
next
  case (8 j)
  obtain f' where f: "f = Suc f'" using 8(4) by (cases f) simp_all
  have "no_number (CHR '']'' # rest)" by (simp add: no_number_def is_digit_def)
  with 8(1) [of d "CHR '']'' # rest" f'] 8(2-) f show ?case by (simp add: is_ws_def)
next
  case (9 j j' js)
  obtain f' where f: "f = Suc f'" using 9(5) by (cases f) simp_all
  have "no_number (CHR '','' # t)" for t by (simp add: no_number_def is_digit_def)
  with 9(1) [of d _ f'] 9(2) [of d f' rest] 9(3-) f show ?case by (simp add: is_ws_def)
next
  case 10
  then show ?case by simp
next
  case (11 k j)
  obtain f' where f: "f = Suc f'" using 11(4) by (cases f) simp_all
  have "no_number (CHR ''}'' # rest)" by (simp add: no_number_def is_digit_def)
  with 11(1) [of d "CHR ''}'' # rest" f'] 11(2-) f show ?case
    by (simp add: is_ws_def quote_def unquote_quote del: unquote.simps)
next
  case (12 k j kj ms)
  obtain f' where f: "f = Suc f'" using 12(5) by (cases f) simp_all
  have "no_number (CHR '','' # t)" for t by (simp add: no_number_def is_digit_def)
  with 12(1) [of d _ f'] 12(2) [of d f' rest] 12(3-) f show ?case
    by (simp add: is_ws_def quote_def unquote_quote del: unquote.simps)
qed

lemma json_Unmarshal_print: "json_ok max_depth j \<Longrightarrow> json_Unmarshal (json_print j) = Some j"
  using json_roundtrip(1) [of max_depth j "[]" "2 * length (json_print j) + 2"]
  by (simp add: json_Unmarshal_def no_number_def)

lemma json_Decode_print:
  "json_ok max_depth j \<Longrightarrow> no_number rest \<Longrightarrow> json_Decode (json_print j @ rest) = Some j"
  using json_roundtrip(1) [of max_depth j rest "2 * length (json_print j @ rest) + 2"]
  by (simp add: json_Decode_def)

section \<open>The fuel is enough\<close>

lemma unquote_shorter: "unquote s = Some (x, r) \<Longrightarrow> length r < length s"
proof (induction s arbitrary: x r rule: unquote.induct)
  case 1
  then show ?case by simp
next
  case (2 c cs)
  from 2 show ?case
    by (auto split: if_splits list.splits option.splits)
       (fastforce dest: less_le_trans)+
qed


lemma scan_digits_shorter: "scan_digits s = Some (x, r) \<Longrightarrow> length r < length s"
  by (cases s) (auto simp: scan_digits_def less_Suc_eq_le length_dropWhile_le split: if_splits)

lemma scan_number_shorter:
  assumes "scan_number s = Some (x, r)"
  shows "length r < length s"
proof -
  have i: "length r < length s" if "scan_int s = Some (x, r)" for s x r
    using that scan_digits_shorter [of s x r] by (cases s) (auto simp: scan_int_def split: if_splits)
  have f: "length r \<le> length s" if "scan_frac s = Some (x, r)" for s x r
    using that scan_digits_shorter [of "drop 1 s" _ r] by (fastforce simp: scan_frac_def split: if_splits)
  have e: "length r \<le> length s" if "scan_exp s = Some (x, r)" for s x r
    using that by (auto simp: scan_exp_def split: if_splits list.splits dest!: scan_digits_shorter)
  show ?thesis using assms
    by (fastforce simp: scan_number_def Let_def split: if_splits option.splits prod.splits dest!: i f e)
qed

lemma scan_literal_shorter: "scan_literal s = Some (v, r) \<Longrightarrow> length r < length s"
  by (cases s) (auto simp: scan_literal_def strip_prefix_def split: option.splits if_splits dest: scan_number_shorter)

lemma skip_ws_le: "length (skip_ws s) \<le> length s"
  by (rule length_dropWhile_le)

lemma skip_ws_Cons: "skip_ws s = c # cs \<Longrightarrow> length cs < length s"
  using skip_ws_le [of s] by simp

lemma skip_drop: "length (drop 1 (skip_ws s)) \<le> length s"
  using skip_ws_le [of s] by simp

lemma parse_shorter:
  "parse_value f d s = Some (v, r) \<Longrightarrow> length r < length s"
  "parse_elems f d s = Some (vs, r) \<Longrightarrow> length r < length s"
  "parse_members f d s = Some (ms, r) \<Longrightarrow> length r < length s"
proof (induction f d s and f d s and f d s arbitrary: v r and vs r and ms r
    rule: parse_value_parse_elems_parse_members.induct)
  case (2 f d s)
  obtain c cs where cs: "skip_ws s = c # cs"
    using 2(3) by (cases "skip_ws s") simp_all
  note shorter = skip_ws_Cons [OF cs]
  have "length (drop 1 (skip_ws cs)) < length s"
    using shorter skip_drop [of cs] by linarith
  moreover have "length r < length s" if "length r < length cs" using that shorter by linarith
  moreover have "length r < length s" if "length r < length (c # cs)" using that shorter by simp
  ultimately show ?case
    using 2 unfolding parse_value.simps(2) cs
    by (auto split: if_splits dest: unquote_shorter scan_literal_shorter) (use shorter in force)+
next
  case (4 f d s)
  then obtain v r1 where v: "parse_value f d s = Some (v, r1)"
    by (auto split: option.splits)
  have "length r1 < length s" by (rule 4(1) [OF v])
  with skip_drop [of r1] have "length (drop 1 (skip_ws r1)) < length s" by linarith
  then show ?case using 4 v by (fastforce split: if_splits)
next
  case (6 f d s)
  obtain c cs where cs: "skip_ws s = c # cs"
    using 6(3) by (cases "skip_ws s") simp_all
  then obtain k r1 where k: "c = CHR 0x22" "unquote cs = Some (k, r1)" "take 1 (skip_ws r1) = '':''"
    using 6(3) by (auto split: if_splits option.splits)
  then obtain v r2 where v: "parse_value f d (drop 1 (skip_ws r1)) = Some (v, r2)"
    using 6(3) cs by (auto split: if_splits option.splits)
  have "length r2 < length (drop 1 (skip_ws r1))"
    using 6(1) cs k v by simp
  then have "length (drop 1 (skip_ws r2)) < length s"
    using skip_drop [of r2] skip_drop [of r1] unquote_shorter [OF k(2)] skip_ws_Cons [OF cs] by linarith
  then show ?case using 6 cs k v by (fastforce split: if_splits)
qed simp_all


text \<open>More fuel changes no result, and two units for every byte suffice.\<close>

lemma parse_value_nonempty:
  assumes "parse_value f d s = Some x"
  obtains c cs where "skip_ws s = c # cs"
proof -
  have "parse_value f d s = None" if "skip_ws s = []" using that by (cases f) (simp_all del: dropWhile_eq_Nil_conv)
  with assms that show thesis by (cases "skip_ws s") auto
qed

lemma parse_value_Cons:
  assumes "skip_ws s = c # cs"
  shows "parse_value (Suc f) d s =
    (if c = CHR ''{'' then
       (if d = 0 then None
        else if take 1 (skip_ws cs) = ''}'' then Some (JObj [], drop 1 (skip_ws cs))
        else map_option (apfst JObj) (parse_members f (d - 1) cs))
     else if c = CHR ''['' then
       (if d = 0 then None
        else if take 1 (skip_ws cs) = '']'' then Some (JArr [], drop 1 (skip_ws cs))
        else map_option (apfst JArr) (parse_elems f (d - 1) cs))
     else if c = CHR 0x22 then map_option (apfst JStr) (unquote cs)
     else scan_literal (c # cs))"
  using assms by simp

text \<open>A value read with one amount of fuel is read with another that reads its parts.\<close>

lemma parse_value_fuel:
  assumes "parse_value (Suc f) d s = Some x" and cs: "skip_ws s = c # cs"
    and members: "\<And>z. c = CHR ''{'' \<Longrightarrow> d \<noteq> 0 \<Longrightarrow> take 1 (skip_ws cs) \<noteq> ''}'' \<Longrightarrow>
      parse_members f (d - 1) cs = Some z \<Longrightarrow> parse_members g (d - 1) cs = Some z"
    and elems: "\<And>y. c = CHR ''['' \<Longrightarrow> d \<noteq> 0 \<Longrightarrow> take 1 (skip_ws cs) \<noteq> '']'' \<Longrightarrow>
      parse_elems f (d - 1) cs = Some y \<Longrightarrow> parse_elems g (d - 1) cs = Some y"
  shows "parse_value (Suc g) d s = Some x"
proof -
  consider "c = CHR ''{''" "d \<noteq> 0" "take 1 (skip_ws cs) \<noteq> ''}''"
    | "c = CHR ''[''" "d \<noteq> 0" "take 1 (skip_ws cs) \<noteq> '']''"
    | "parse_value (Suc g) d s = parse_value (Suc f) d s"
    unfolding parse_value_Cons [OF cs] 
    by (cases "d = 0"; cases "take 1 (skip_ws cs) = ''}''"; cases "take 1 (skip_ws cs) = '']''";
        cases "c = CHR ''{''"; cases "c = CHR ''[''") simp_all
  then show ?thesis
  proof cases
    case 1
    with assms(1) obtain z where "parse_members f (d - 1) cs = Some z" and "x = apfst JObj z"
      unfolding parse_value_Cons [OF cs] by auto
    with members [OF 1] 1 show ?thesis unfolding parse_value_Cons [OF cs] by simp
  next
    case 2
    with assms(1) obtain y where "parse_elems f (d - 1) cs = Some y" and "x = apfst JArr y"
      unfolding parse_value_Cons [OF cs] by auto
    with elems [OF 2] 2 show ?thesis unfolding parse_value_Cons [OF cs] by simp
  qed (use assms(1) in simp)
qed

lemma parse_elems_value:
  "parse_value f d s = Some (v, r) \<Longrightarrow> parse_elems (Suc f) d s =
    (if take 1 (skip_ws r) = '','' then map_option (apfst (Cons v)) (parse_elems f d (drop 1 (skip_ws r)))
     else if take 1 (skip_ws r) = '']'' then Some ([v], drop 1 (skip_ws r)) else None)"
  by simp

lemma parse_elems_fuel:
  assumes "parse_elems (Suc f) d s = Some y"
    and v: "parse_value f d s = Some (v, r)" "parse_value g d s = Some (v, r)"
    and more: "\<And>y. take 1 (skip_ws r) = '','' \<Longrightarrow> parse_elems f d (drop 1 (skip_ws r)) = Some y \<Longrightarrow>
      parse_elems g d (drop 1 (skip_ws r)) = Some y"
  shows "parse_elems (Suc g) d s = Some y"
proof (cases "take 1 (skip_ws r) = '',''")
  case True
  with assms(1) obtain y' where "parse_elems f d (drop 1 (skip_ws r)) = Some y'" and "y = apfst (Cons v) y'"
    unfolding parse_elems_value [OF v(1)] by auto
  with more True show ?thesis unfolding parse_elems_value [OF v(2)] by simp
next
  case False
  with assms(1) show ?thesis unfolding parse_elems_value [OF v(1)] parse_elems_value [OF v(2)] by simp
qed

lemma parse_members_value:
  "skip_ws s = CHR 0x22 # cs \<Longrightarrow> unquote cs = Some (k, r1) \<Longrightarrow> take 1 (skip_ws r1) = '':'' \<Longrightarrow>
   parse_value f d (drop 1 (skip_ws r1)) = Some (v, r) \<Longrightarrow> parse_members (Suc f) d s =
    (if take 1 (skip_ws r) = '','' then map_option (apfst (Cons (k, v))) (parse_members f d (drop 1 (skip_ws r)))
     else if take 1 (skip_ws r) = ''}'' then Some ([(k, v)], drop 1 (skip_ws r)) else None)"
  by simp

lemma parse_members_parts:
  assumes "parse_members (Suc f) d s = Some z"
  obtains cs k r1 v r where "skip_ws s = CHR 0x22 # cs" "unquote cs = Some (k, r1)"
    "take 1 (skip_ws r1) = '':''" "parse_value f d (drop 1 (skip_ws r1)) = Some (v, r)"
  using assms by (auto split: list.splits if_splits option.splits)

lemma parse_members_fuel:
  assumes "parse_members (Suc f) d s = Some z"
    and parts: "skip_ws s = CHR 0x22 # cs" "unquote cs = Some (k, r1)" "take 1 (skip_ws r1) = '':''"
    and v: "parse_value f d (drop 1 (skip_ws r1)) = Some (v, r)" "parse_value g d (drop 1 (skip_ws r1)) = Some (v, r)"
    and more: "\<And>z. take 1 (skip_ws r) = '','' \<Longrightarrow> parse_members f d (drop 1 (skip_ws r)) = Some z \<Longrightarrow>
      parse_members g d (drop 1 (skip_ws r)) = Some z"
  shows "parse_members (Suc g) d s = Some z"
proof (cases "take 1 (skip_ws r) = '',''")
  case True
  with assms(1) obtain z' where "parse_members f d (drop 1 (skip_ws r)) = Some z'" and "z = apfst (Cons (k, v)) z'"
    unfolding parse_members_value [OF parts v(1)] by auto
  with more True show ?thesis unfolding parse_members_value [OF parts v(2)] by simp
next
  case False
  with assms(1) show ?thesis
    unfolding parse_members_value [OF parts v(1)] parse_members_value [OF parts v(2)] by simp
qed

lemma parse_mono:
  "parse_value f d s = Some x \<Longrightarrow> f \<le> g \<Longrightarrow> parse_value g d s = Some x"
  "parse_elems f d s = Some y \<Longrightarrow> f \<le> g \<Longrightarrow> parse_elems g d s = Some y"
  "parse_members f d s = Some z \<Longrightarrow> f \<le> g \<Longrightarrow> parse_members g d s = Some z"
proof (induction f d s and f d s and f d s arbitrary: x g and y g and z g
    rule: parse_value_parse_elems_parse_members.induct)
  case (2 f d s)
  obtain g' where g: "g = Suc g'" "f \<le> g'" using 2(4) by (cases g) simp_all
  obtain c cs where cs: "skip_ws s = c # cs" using 2(3) by (rule parse_value_nonempty)
  show ?case unfolding g
  proof (rule parse_value_fuel [OF 2(3) cs])
    show "parse_members g' (d - 1) cs = Some z" if "c = CHR ''{''" "d \<noteq> 0"
      "take 1 (skip_ws cs) \<noteq> ''}''" "parse_members f (d - 1) cs = Some z" for z
      by (rule 2(1) [OF cs that g(2)])
    show "parse_elems g' (d - 1) cs = Some y" if "c = CHR ''[''" "d \<noteq> 0"
      "take 1 (skip_ws cs) \<noteq> '']''" "parse_elems f (d - 1) cs = Some y" for y
      by (rule 2(2) [OF cs _ that g(2)]) (simp add: that(1))
  qed
next
  case (4 f d s)
  obtain g' where g: "g = Suc g'" "f \<le> g'" using 4(4) by (cases g) simp_all
  obtain v r where v: "parse_value f d s = Some (v, r)"
    using 4(3) by (auto split: option.splits)
  show ?case unfolding g
    by (rule parse_elems_fuel [OF 4(3) v 4(1) [OF v g(2)]]) (rule 4(2) [OF v refl _ _ g(2)])
next
  case (6 f d s)
  obtain g' where g: "g = Suc g'" "f \<le> g'" using 6(4) by (cases g) simp_all
  obtain cs k r1 v r where parts: "skip_ws s = CHR 0x22 # cs" "unquote cs = Some (k, r1)"
    "take 1 (skip_ws r1) = '':''" and v: "parse_value f d (drop 1 (skip_ws r1)) = Some (v, r)"
    using 6(3) by (rule parse_members_parts)
  have nots: "\<not> CHR 0x22 \<noteq> CHR 0x22" "\<not> take 1 (skip_ws r1) \<noteq> '':''" using parts by simp_all
  show ?case unfolding g
    by (rule parse_members_fuel [OF 6(3) parts v 6(1) [OF parts(1) nots(1) parts(2) refl nots(2) v g(2)]])
      (rule 6(2) [OF parts(1) nots(1) parts(2) refl nots(2) v refl _ _ g(2)])
qed simp_all

lemma parse_enough:
  "parse_value g d s = Some x \<Longrightarrow> 2 * length s + 2 \<le> f \<Longrightarrow> parse_value f d s = Some x"
  "parse_elems g d s = Some y \<Longrightarrow> 2 * length s + 3 \<le> f \<Longrightarrow> parse_elems f d s = Some y"
  "parse_members g d s = Some z \<Longrightarrow> 2 * length s + 3 \<le> f \<Longrightarrow> parse_members f d s = Some z"
proof (induction g d s and g d s and g d s arbitrary: x f and y f and z f
    rule: parse_value_parse_elems_parse_members.induct)
  case (2 g d s)
  obtain f' where f: "f = Suc f'" using 2(4) by (cases f) simp_all
  obtain c cs where cs: "skip_ws s = c # cs" using 2(3) by (rule parse_value_nonempty)
  from skip_ws_Cons [OF this] 2(4) f have enough: "2 * length cs + 3 \<le> f'" by simp
  show ?case unfolding f
  proof (rule parse_value_fuel [OF 2(3) cs])
    show "parse_members f' (d - 1) cs = Some z" if "c = CHR ''{''" "d \<noteq> 0"
      "take 1 (skip_ws cs) \<noteq> ''}''" "parse_members g (d - 1) cs = Some z" for z
      by (rule 2(1) [OF cs that enough])
    show "parse_elems f' (d - 1) cs = Some y" if "c = CHR ''[''" "d \<noteq> 0"
      "take 1 (skip_ws cs) \<noteq> '']''" "parse_elems g (d - 1) cs = Some y" for y
      by (rule 2(2) [OF cs _ that enough]) (simp add: that(1))
  qed
next
  case (4 g d s)
  obtain f' where f: "f = Suc f'" "2 * length s + 2 \<le> f'" using 4(4) by (cases f) simp_all
  obtain v r where v: "parse_value g d s = Some (v, r)"
    using 4(3) by (auto split: option.splits)
  have enough: "2 * length (drop 1 (skip_ws r)) + 3 \<le> f'"
    using f(2) parse_shorter(1) [OF v] skip_drop [of r] by linarith
  show ?case unfolding f
    by (rule parse_elems_fuel [OF 4(3) v 4(1) [OF v f(2)]]) (rule 4(2) [OF v refl _ _ enough])
next
  case (6 g d s)
  obtain f' where f: "f = Suc f'" "2 * length s + 2 \<le> f'" using 6(4) by (cases f) simp_all
  obtain cs k r1 v r where parts: "skip_ws s = CHR 0x22 # cs" "unquote cs = Some (k, r1)"
    "take 1 (skip_ws r1) = '':''" and v: "parse_value g d (drop 1 (skip_ws r1)) = Some (v, r)"
    using 6(3) by (rule parse_members_parts)
  have nots: "\<not> CHR 0x22 \<noteq> CHR 0x22" "\<not> take 1 (skip_ws r1) \<noteq> '':''" using parts by simp_all
  have r1: "length (drop 1 (skip_ws r1)) < length s"
    using skip_drop [of r1] unquote_shorter [OF parts(2)] skip_ws_Cons [OF parts(1)] by linarith
  then have first: "2 * length (drop 1 (skip_ws r1)) + 2 \<le> f'" using f(2) by linarith
  have enough: "2 * length (drop 1 (skip_ws r)) + 3 \<le> f'"
    using f(2) r1 parse_shorter(1) [OF v] skip_drop [of r] by linarith
  show ?case unfolding f
    by (rule parse_members_fuel [OF 6(3) parts v 6(1) [OF parts(1) nots(1) parts(2) refl nots(2) v first]])
      (rule 6(2) [OF parts(1) nots(1) parts(2) refl nots(2) v refl _ _ enough])
qed simp_all

lemma parse_fuel: "2 * length s + 2 \<le> f \<Longrightarrow> parse_value f d s = parse_value (2 * length s + 2) d s"
  by (cases "parse_value f d s") (metis option.exhaust parse_enough(1) le_refl)+

section \<open>Decoding into Go values\<close>

text \<open>
  A value decoded into a variable: the variable's new value, and whether its type fitted. A
  \<open>null\<close> leaves a string or a number as it is, and so does a value of another type, which is
  reported only after the rest has been decoded.
\<close>

definition json_string_into :: "json \<Rightarrow> string \<Rightarrow> string \<times> bool" where
  "json_string_into j cur = (case j of JStr s \<Rightarrow> (s, True) | JNull \<Rightarrow> (cur, True) | _ \<Rightarrow> (cur, False))"

definition digits_val :: "string \<Rightarrow> nat" where
  "digits_val ds = foldl (\<lambda>n c. 10 * n + (of_char c - 48)) 0 ds"

text \<open>\<open>strconv.ParseInt\<close> of a literal into an \<open>int\<close> of 64 bits.\<close>

definition parse_int64 :: "string \<Rightarrow> int option" where
  "parse_int64 lit =
     (let neg = (take 1 lit = ''-''); ds = (if neg then drop 1 lit else lit);
          n = (if neg then - int (digits_val ds) else int (digits_val ds))
      in if ds \<noteq> [] \<and> list_all is_digit ds \<and> - (2 ^ 63) \<le> n \<and> n < 2 ^ 63 then Some n else None)"

definition json_int_into :: "json \<Rightarrow> int \<Rightarrow> int \<times> bool" where
  "json_int_into j cur =
     (case j of
        JNum lit \<Rightarrow> (case parse_int64 lit of Some n \<Rightarrow> (n, True) | None \<Rightarrow> (cur, False))
      | JNull \<Rightarrow> (cur, True)
      | _ \<Rightarrow> (cur, False))"

text \<open>A slice of strings is decoded into a new one.\<close>

definition json_strings_into :: "json \<Rightarrow> string list \<Rightarrow> string list \<times> bool" where
  "json_strings_into j cur =
     (case j of
        JArr js \<Rightarrow> (map (\<lambda>j. fst (json_string_into j [])) js, list_all (\<lambda>j. snd (json_string_into j [])) js)
      | JNull \<Rightarrow> ([], True)
      | _ \<Rightarrow> (cur, False))"

text \<open>
  The member names of an object are matched with the fields without regard to case; the long s
  and the Kelvin sign fold to letters.
\<close>

fun fold_name :: "string \<Rightarrow> string" where
  "fold_name (a # b # c # cs) =
     (if a = CHR 0xC5 \<and> b = CHR 0xBF then CHR ''S'' # fold_name (c # cs)
      else if a = CHR 0xE2 \<and> b = CHR 0x84 \<and> c = CHR 0xAA then CHR ''K'' # fold_name cs
      else (if 97 \<le> (of_char a :: nat) \<and> of_char a \<le> (122 :: nat) then char_of (of_char a - 32 :: nat) else a)
        # fold_name (b # c # cs))"
| "fold_name [a, b] =
     (if a = CHR 0xC5 \<and> b = CHR 0xBF then ''S''
      else [if 97 \<le> (of_char a :: nat) \<and> of_char a \<le> (122 :: nat) then char_of (of_char a - 32 :: nat) else a,
            if 97 \<le> (of_char b :: nat) \<and> of_char b \<le> (122 :: nat) then char_of (of_char b - 32 :: nat) else b])"
| "fold_name [a] = [if 97 \<le> (of_char a :: nat) \<and> of_char a \<le> (122 :: nat) then char_of (of_char a - 32 :: nat) else a]"
| "fold_name [] = []"

definition names_field :: "string \<Rightarrow> string \<Rightarrow> bool" where
  "names_field field name \<longleftrightarrow> name = field \<or> fold_name name = fold_name field"

text \<open>An object decoded into a struct member by member; \<open>null\<close> leaves the struct as it is.\<close>

definition json_struct_into :: "(string \<Rightarrow> json \<Rightarrow> 's \<Rightarrow> 's \<times> bool) \<Rightarrow> json \<Rightarrow> 's \<Rightarrow> 's \<times> bool" where
  "json_struct_into set_field j cur =
     (case j of
        JObj ms \<Rightarrow> fold (\<lambda>(k, v) (s, ok). case set_field k v s of (s', ok') \<Rightarrow> (s', ok \<and> ok')) ms (cur, True)
      | JNull \<Rightarrow> (cur, True)
      | _ \<Rightarrow> (cur, False))"

text \<open>The integers the program prints are read back.\<close>

lemma digits_val_itoa: "digits_val (itoa n) = n"
proof (induction n rule: itoa.induct)
  case (1 n)
  then show ?case by (subst itoa.simps) (auto simp: digits_val_def of_char_digit)
qed

lemma json_int_into_int:
  assumes "- (2 ^ 63) \<le> i" and "i < 2 ^ 63"
  shows "json_int_into (json_int i) cur = (i, True)"
proof -
  have "take 1 (itoa n) \<noteq> ''-''" for n
    using is_digit_itoa [of n] by (cases "itoa n") (auto simp: is_digit_def)
  with assms show ?thesis
    by (auto simp: json_int_into_def json_int_def print_int_def parse_int64_def digits_val_itoa is_digit_itoa itoa_nonempty Let_def)
qed

end
