(* ===== verification/Http.thy ===== *)
theory Http
  imports Paths Json
begin

text \<open>
  What the program's commands use of \<open>net/http\<close>, \<open>net/url\<close>, \<open>strings\<close> and \<open>fmt\<close>: requests and
  responses, the request multiplexer, the parsing of URLs and queries, and the client that
  follows redirects. The network itself is an argument of the client: a function that takes an
  address and a request and gives a response, or none when the exchange fails.
\<close>

section \<open>Strings\<close>

definition TrimPrefix :: "string \<Rightarrow> string \<Rightarrow> string" where
  "TrimPrefix s p = (if take (length p) s = p then drop (length p) s else s)"

definition HasSuffix :: "string \<Rightarrow> string \<Rightarrow> bool" where
  "HasSuffix s q \<longleftrightarrow> length q \<le> length s \<and> drop (length s - length q) s = q"

text \<open>\<open>strings.Cut\<close> at a byte, and \<open>strings.SplitN(s, sep, 2)\<close>, which cuts once at most.\<close>

definition Cut :: "char \<Rightarrow> string \<Rightarrow> string \<times> string option" where
  "Cut c s = (let a = takeWhile (\<lambda>x. x \<noteq> c) s in
     (a, if length a = length s then None else Some (drop (Suc (length a)) s)))"

definition SplitN2 :: "char \<Rightarrow> string \<Rightarrow> string list" where
  "SplitN2 c s = (case Cut c s of (a, None) \<Rightarrow> [a] | (a, Some b) \<Rightarrow> [a, b])"

definition TrimRight :: "string \<Rightarrow> char \<Rightarrow> string" where
  "TrimRight s c = rev (dropWhile (\<lambda>x. x = c) (rev s))"

text \<open>The encodings of the white space of Unicode, which \<open>strings.TrimSpace\<close> and \<open>fmt\<close> skip.\<close>

definition unicode_spaces :: "string list" where
  "unicode_spaces = map (\<lambda>n. [char_of (n :: nat)]) [9, 10, 11, 12, 13, 32] @
     [[CHR 0xC2, CHR 0x85], [CHR 0xC2, CHR 0xA0], [CHR 0xE1, CHR 0x9A, CHR 0x80]] @
     map (\<lambda>n. [CHR 0xE2, CHR 0x80, char_of (n :: nat)]) ([0x80..<0x8B] @ [0xA8, 0xA9, 0xAF]) @
     [[CHR 0xE2, CHR 0x81, CHR 0x9F], [CHR 0xE3, CHR 0x80, CHR 0x80]]"

definition space_at :: "string list \<Rightarrow> string \<Rightarrow> nat" where
  "space_at spaces s =
     (case find (\<lambda>w. w \<noteq> [] \<and> take (length w) s = w) spaces of Some w \<Rightarrow> length w | None \<Rightarrow> 0)"

function skip_spaces :: "string list \<Rightarrow> string \<Rightarrow> string" where
  "skip_spaces spaces s =
     (if 0 < space_at spaces s \<and> s \<noteq> [] then skip_spaces spaces (drop (space_at spaces s) s) else s)"
  by pat_completeness auto
termination by (relation "measure (length \<circ> snd)") auto

declare skip_spaces.simps [simp del]

definition TrimSpace :: "string \<Rightarrow> string" where
  "TrimSpace s = rev (skip_spaces (map rev unicode_spaces) (rev (skip_spaces unicode_spaces s)))"

text \<open>
  \<open>fmt.Sscanf(s, "%d", &n)\<close>: space is skipped, but a newline is an error; then come a sign and
  decimal digits, as many as there are. What follows them is not looked at.
\<close>

definition Sscanf_d :: "string \<Rightarrow> int option" where
  "Sscanf_d s =
     (let t = skip_spaces (filter (\<lambda>w. w \<noteq> [CHR 0x0A]) unicode_spaces) s;
          sign = (if take 1 t \<in> {''+'', ''-''} then take 1 t else []);
          ds = takeWhile is_digit (drop (length sign) t)
      in if ds = [] then None else parse_int64 ((if sign = ''-'' then ''-'' else []) @ ds))"

section \<open>URLs\<close>

text \<open>\<open>unescape\<close> in a path and in a query: a \<open>%\<close> without two hex digits is an error.\<close>

fun unescape :: "bool \<Rightarrow> string \<Rightarrow> string option" where
  "unescape query [] = Some []"
| "unescape query (c # cs) =
     (if c = CHR ''%'' then
        (case cs of
           h # l # ds \<Rightarrow>
             (case (hex_val h, hex_val l) of
                (Some x, Some y) \<Rightarrow> map_option (Cons (char_of (16 * x + y))) (unescape query ds)
              | _ \<Rightarrow> None)
         | _ \<Rightarrow> None)
      else map_option (Cons (if query \<and> c = CHR ''+'' then CHR '' '' else c)) (unescape query cs))"

definition is_control :: "char \<Rightarrow> bool" where
  "is_control c \<longleftrightarrow> of_char c < (32 :: nat) \<or> c = CHR 0x7F"

text \<open>
  The rest of a URL after its scheme and authority: the path, unescaped, and the query, as it is.
  A fragment is dropped when it can be unescaped.
\<close>

definition url_rest :: "string \<Rightarrow> (string \<times> string) option" where
  "url_rest s =
     (case Cut CHR ''#'' s of (s, fragment) \<Rightarrow>
       if \<exists>c \<in> set s. is_control c then None
       else if (case fragment of None \<Rightarrow> False | Some f \<Rightarrow> unescape False f = None) then None
       else (case Cut CHR ''?'' s of (p, q) \<Rightarrow>
         map_option (\<lambda>path. (path, case q of None \<Rightarrow> [] | Some q \<Rightarrow> q)) (unescape False p)))"

text \<open>\<open>url.ParseQuery\<close>, whose errors \<open>URL.Query\<close> ignores: pairs that cannot be read are left out.\<close>

definition query_pair :: "string \<Rightarrow> (string \<times> string) option" where
  "query_pair s =
     (if CHR '';'' \<in> set s \<or> s = [] then None
      else (case Cut CHR ''='' s of (k, v) \<Rightarrow>
        (case (unescape True k, unescape True (case v of None \<Rightarrow> [] | Some v \<Rightarrow> v)) of
           (Some k, Some v) \<Rightarrow> Some (k, v)
         | _ \<Rightarrow> None)))"

definition ParseQuery :: "string \<Rightarrow> (string \<times> string) list" where
  "ParseQuery s = List.map_filter query_pair (split_on CHR ''&'' s)"

section \<open>Requests and responses\<close>

text \<open>\<open>req_BodyErr\<close>: reading the body fails after the bytes of \<open>req_Body\<close>.\<close>

record Request =
  req_Method :: string
  req_Path :: string
  req_RawQuery :: string
  req_Body :: string
  req_BodyErr :: bool

text \<open>A response; a redirect carries the path and the query it leads to.\<close>

record Response =
  resp_Status :: nat
  resp_Type :: string
  resp_Location :: "(string \<times> string) option"
  resp_Body :: string

definition Query_Get :: "Request \<Rightarrow> string \<Rightarrow> string" where
  "Query_Get r k = (case map_of (ParseQuery (req_RawQuery r)) k of None \<Rightarrow> [] | Some v \<Rightarrow> v)"

text \<open>The \<open>ResponseWriter\<close>: the first \<open>WriteHeader\<close> fixes the status, a write implies 200.\<close>

record ResponseWriter =
  wr_Status :: "nat option"
  wr_Type :: string
  wr_Body :: string

definition new_writer :: ResponseWriter where
  "new_writer = \<lparr>wr_Status = None, wr_Type = [], wr_Body = []\<rparr>"

definition set_type :: "string \<Rightarrow> ResponseWriter \<Rightarrow> ResponseWriter" where
  "set_type t w = (if wr_Status w = None then w\<lparr>wr_Type := t\<rparr> else w)"

definition WriteHeader :: "nat \<Rightarrow> ResponseWriter \<Rightarrow> ResponseWriter" where
  "WriteHeader code w = (if wr_Status w = None then w\<lparr>wr_Status := Some code\<rparr> else w)"

definition Write :: "string \<Rightarrow> ResponseWriter \<Rightarrow> ResponseWriter" where
  "Write s w = (WriteHeader 200 w)\<lparr>wr_Body := wr_Body w @ s\<rparr>"

definition finish_response :: "ResponseWriter \<Rightarrow> Response" where
  "finish_response w = \<lparr>resp_Status = (case wr_Status w of None \<Rightarrow> 200 | Some c \<Rightarrow> c),
     resp_Type = wr_Type w, resp_Location = None, resp_Body = wr_Body w\<rparr>"

definition http_Error :: "string \<Rightarrow> nat \<Rightarrow> ResponseWriter \<Rightarrow> ResponseWriter" where
  "http_Error msg code w =
     Write (msg @ [CHR 0x0A]) (WriteHeader code (set_type ''text/plain; charset=utf-8'' w))"

definition http_NotFound :: "ResponseWriter \<Rightarrow> ResponseWriter" where
  "http_NotFound = http_Error ''404 page not found'' 404"

text \<open>\<open>json.NewEncoder(w).Encode(v)\<close> ends the text with a newline.\<close>

definition Encode_json :: "json \<Rightarrow> ResponseWriter \<Rightarrow> ResponseWriter" where
  "Encode_json j = Write (json_print j @ [CHR 0x0A])"

definition json_response :: "nat \<Rightarrow> json \<Rightarrow> Response" where
  "json_response code j = \<lparr>resp_Status = code, resp_Type = ''application/json'', resp_Location = None,
     resp_Body = json_print j @ [CHR 0x0A]\<rparr>"

definition error_response :: "string \<Rightarrow> nat \<Rightarrow> Response" where
  "error_response msg code = \<lparr>resp_Status = code, resp_Type = ''text/plain; charset=utf-8'',
     resp_Location = None, resp_Body = msg @ [CHR 0x0A]\<rparr>"

lemma finish_error: "finish_response (http_Error msg code new_writer) = error_response msg code"
  by (simp add: finish_response_def http_Error_def Write_def WriteHeader_def set_type_def new_writer_def
      error_response_def)

lemma finish_json:
  "finish_response (Encode_json j (set_type ''application/json'' new_writer)) = json_response 200 j"
  "finish_response (Encode_json j (WriteHeader c (set_type ''application/json'' new_writer))) = json_response c j"
  by (simp_all add: finish_response_def Encode_json_def Write_def WriteHeader_def set_type_def new_writer_def
      json_response_def)

section \<open>The multiplexer\<close>

definition cleanPath :: "string \<Rightarrow> string" where
  "cleanPath p =
     (if p = [] then ''/''
      else
        let p = (if hd p \<noteq> CHR ''/'' then CHR ''/'' # p else p); np = filepath_Clean p
        in if last p = CHR ''/'' \<and> np \<noteq> ''/'' then np @ ''/'' else np)"

text \<open>
  A pattern that ends in a slash matches all paths below it, and the longest one wins; a path
  that lacks just that slash is redirected, and so is one that is not clean, unless the method
  is CONNECT.
\<close>

datatype 'h mux_result = Redirect string | Serve 'h | NoHandler

definition mux_match :: "(string \<times> 'h) list \<Rightarrow> string \<Rightarrow> 'h option" where
  "mux_match patterns path =
     (case map_of patterns path of
        Some h \<Rightarrow> Some h
      | None \<Rightarrow> map_option snd (find (\<lambda>(p, h). take (length p) path = p)
          (sort_key (\<lambda>(p, h). - int (length p)) (filter (\<lambda>(p, h). HasSuffix p ''/'') patterns))))"

definition mux_route :: "(string \<times> 'h) list \<Rightarrow> string \<Rightarrow> string \<Rightarrow> 'h mux_result" where
  "mux_route patterns verb path =
     (let path' = (if verb = ''CONNECT'' then path else cleanPath path);
          serve = (case mux_match patterns path of None \<Rightarrow> NoHandler | Some h \<Rightarrow> Serve h)
      in if map_of patterns path' = None \<and> map_of patterns (path' @ ''/'') \<noteq> None \<and> path' \<noteq> [] \<and> last path' \<noteq> CHR ''/''
         then Redirect (path' @ ''/'')
         else if path' \<noteq> path then Redirect path' else serve)"

definition redirect_response :: "string \<Rightarrow> string \<Rightarrow> Response" where
  "redirect_response path q = \<lparr>resp_Status = 301, resp_Type = [], resp_Location = Some (path, q), resp_Body = []\<rparr>"

definition serve_mux :: "(string \<times> (Request \<Rightarrow> 's \<Rightarrow> 's \<times> Response)) list \<Rightarrow> Request \<Rightarrow> 's \<Rightarrow> 's \<times> Response" where
  "serve_mux patterns r s =
     (case mux_route patterns (req_Method r) (req_Path r) of
        Redirect path \<Rightarrow> (s, redirect_response path (req_RawQuery r))
      | NoHandler \<Rightarrow> (s, error_response ''404 page not found'' 404)
      | Serve h \<Rightarrow> h r s)"

section \<open>The client\<close>

text \<open>
  \<open>Fetched None\<close> is an error of the exchange. \<open>BadURL\<close> is a text that is no URL: the program
  drops the error of \<open>NewRequest\<close> and hands the nil request to \<open>Do\<close>, which panics on it.
\<close>

datatype fetch_result = BadURL | Fetched "Response option"

type_synonym 'n network = "string \<Rightarrow> Request \<Rightarrow> 'n \<Rightarrow> 'n \<times> Response option"

text \<open>A space in the query breaks the request line, to which a server answers 400 by itself.\<close>

definition exchange :: "'n network \<Rightarrow> string \<Rightarrow> Request \<Rightarrow> 'n \<Rightarrow> 'n \<times> Response option" where
  "exchange net base r n =
     (if CHR '' '' \<in> set (req_RawQuery r) then (n, Some (error_response ''400 Bad Request'' 400))
      else net base r n)"

text \<open>Up to ten requests are made to follow redirects, all but the first a GET without a body.\<close>

fun follow :: "'n network \<Rightarrow> nat \<Rightarrow> string \<Rightarrow> Request \<Rightarrow> 'n \<Rightarrow> 'n \<times> Response option" where
  "follow net 0 base r n = (n, None)"
| "follow net (Suc k) base r n =
     (case exchange net base r n of
        (n, Some resp) \<Rightarrow>
          (case resp_Location resp of
             None \<Rightarrow> (n, Some resp)
           | Some (path, q) \<Rightarrow> follow net k base \<lparr>req_Method = ''GET'', req_Path = path,
               req_RawQuery = q, req_Body = [], req_BodyErr = False\<rparr> n)
      | (n, None) \<Rightarrow> (n, None))"

text \<open>
  \<open>DefaultClient.Do(NewRequest(method, base + rest, body))\<close> for a base address that is a scheme
  and an authority.
\<close>

definition fetch :: "'n network \<Rightarrow> string \<Rightarrow> string \<Rightarrow> string \<Rightarrow> string \<Rightarrow> 'n \<Rightarrow> 'n \<times> fetch_result" where
  "fetch net verb base rest body n =
     (case url_rest rest of
        None \<Rightarrow> (n, BadURL)
      | Some (path, q) \<Rightarrow>
          (case follow net 10 base \<lparr>req_Method = verb, req_Path = path, req_RawQuery = q,
                  req_Body = body, req_BodyErr = False\<rparr> n of
             (n, resp) \<Rightarrow> (n, Fetched resp)))"

section \<open>Cutting strings\<close>

lemma Cut_Some:
  assumes "Cut c t = (a, Some b)"
  shows "t = a @ [c] @ b \<and> c \<notin> set a"
proof -
  have a: "a = takeWhile (\<lambda>x. x \<noteq> c) t" and b: "b = drop (Suc (length a)) t" and len: "length a \<noteq> length t"
    using assms by (auto simp: Cut_def Let_def split: if_splits)
  have "dropWhile (\<lambda>x. x \<noteq> c) t \<noteq> []"
  proof
    assume "dropWhile (\<lambda>x. x \<noteq> c) t = []"
    then have "a = t" using takeWhile_dropWhile_id [of "\<lambda>x. x \<noteq> c" t] a by (metis append_Nil2)
    with len show False by simp
  qed
  then obtain d ds where ds: "dropWhile (\<lambda>x. x \<noteq> c) t = d # ds" by (cases "dropWhile (\<lambda>x. x \<noteq> c) t") auto
  then have "d = c" using hd_dropWhile [of "\<lambda>x. x \<noteq> c" t] by auto
  moreover have t: "t = a @ d # ds" using ds a takeWhile_dropWhile_id [of "\<lambda>x. x \<noteq> c" t] by simp
  moreover have "b = ds" unfolding b by (subst t) simp
  ultimately show ?thesis using a by (auto dest: set_takeWhileD)
qed

lemma Cut_at: "c \<notin> set a \<Longrightarrow> Cut c (a @ c # b) = (a, Some b)"
proof -
  assume "c \<notin> set a"
  then have "takeWhile (\<lambda>x. x \<noteq> c) (a @ c # b) = a" by (induction a) auto
  then show ?thesis by (simp add: Cut_def Let_def)
qed

lemma Cut_none: "c \<notin> set s \<Longrightarrow> Cut c s = (s, None)"
proof -
  assume "c \<notin> set s"
  then have "takeWhile (\<lambda>x. x \<noteq> c) s = s" by (induction s) auto
  then show ?thesis by (simp only: Cut_def Let_def simp_thms if_True)
qed

section \<open>What the multiplexer lets through\<close>

lemma mux_match_in: "mux_match patterns path = Some h \<Longrightarrow> \<exists>p. (p, h) \<in> set patterns"
proof (cases "map_of patterns path")
  case None
  assume "mux_match patterns path = Some h"
  with None obtain p where found: "find (\<lambda>(p, h). take (length p) path = p)
      (sort_key (\<lambda>(p, h). - int (length p)) (filter (\<lambda>(p, h). HasSuffix p ''/'') patterns)) = Some (p, h)"
    by (auto simp: mux_match_def)
  then have "(p, h) \<in> set (sort_key (\<lambda>(p, h). - int (length p)) (filter (\<lambda>(p, h). HasSuffix p ''/'') patterns))"
    by (metis (no_types, lifting) find_Some_iff nth_mem)
  then show ?thesis by auto
next
  case (Some h')
  assume "mux_match patterns path = Some h"
  with Some show ?thesis by (auto simp: mux_match_def dest: map_of_SomeD)
qed

text \<open>
  A request is answered without a handler, or by one of the handlers; then its path is clean,
  unless its method is CONNECT.
\<close>

lemma serve_mux_cases:
  obtains (answered) resp where "\<And>s. serve_mux patterns r s = (s, resp)"
  | (handled) p h where "(p, h) \<in> set patterns" and "\<And>s. serve_mux patterns r s = h r s"
      and "req_Method r = ''CONNECT'' \<or> cleanPath (req_Path r) = req_Path r"
proof (cases "mux_route patterns (req_Method r) (req_Path r)")
  case (Redirect path)
  then show thesis by (intro answered [of "redirect_response path (req_RawQuery r)"]) (simp add: serve_mux_def)
next
  case (Serve h)
  then have found: "mux_match patterns (req_Path r) = Some h"
    and clean: "req_Method r = ''CONNECT'' \<or> cleanPath (req_Path r) = req_Path r"
    by (auto simp: mux_route_def Let_def split: if_splits option.splits)
  obtain p where "(p, h) \<in> set patterns" using mux_match_in [OF found] by blast
  moreover have "serve_mux patterns r s = h r s" for s using Serve by (simp add: serve_mux_def)
  ultimately show thesis using clean by (rule handled)
next
  case NoHandler
  then show thesis by (intro answered [of "error_response ''404 page not found'' 404"]) (simp add: serve_mux_def)
qed

lemma split_on_parts: "w \<in> set (split_on c s) \<Longrightarrow> c \<notin> set w"
  by (induction s arbitrary: w) (auto split: if_splits list.splits)

lemma clean_foldl_parts:
  "\<forall>w \<in> set ws. CHR ''/'' \<notin> set w \<Longrightarrow>
   \<forall>w \<in> set out. w \<noteq> [] \<and> w \<noteq> ''.'' \<and> w \<noteq> ''..'' \<and> CHR ''/'' \<notin> set w \<Longrightarrow>
   w \<in> set (foldl (clean_step True) out ws) \<Longrightarrow>
   w \<noteq> [] \<and> w \<noteq> ''.'' \<and> w \<noteq> ''..'' \<and> CHR ''/'' \<notin> set w"
proof (induction ws arbitrary: out)
  case Nil
  then show ?case by simp
next
  case (Cons v ws)
  have "\<forall>w \<in> set (clean_step True out v). w \<noteq> [] \<and> w \<noteq> ''.'' \<and> w \<noteq> ''..'' \<and> CHR ''/'' \<notin> set w"
    using Cons.prems(1,2) by (auto simp: clean_step_def dest: in_set_butlastD)
  with Cons.IH [of "clean_step True out v"] Cons.prems(1,3) show ?case by simp
qed

text \<open>The components of a clean path name no directory but their own.\<close>

lemma cleanPath_parts:
  assumes "cleanPath p = p" and "w \<in> set (split_on CHR ''/'' p)"
  shows "w \<noteq> ''.'' \<and> w \<noteq> ''..''"
proof -
  define p' where "p' = (if p = [] \<or> hd p \<noteq> CHR ''/'' then CHR ''/'' # p else p)"
  define comps where "comps = foldl (clean_step True) [] (split_on CHR ''/'' p')"
  have p': "p' \<noteq> []" "hd p' = CHR ''/''" by (auto simp: p'_def)
  have np: "filepath_Clean p' = CHR ''/'' # join_with ''/'' comps"
    using p' by (simp add: filepath_Clean_def comps_def Let_def)
  have "p = CHR ''/'' # join_with ''/'' comps \<or> p = CHR ''/'' # join_with ''/'' comps @ ''/'' \<or> p = ''/''"
    using assms(1) np by (auto simp: cleanPath_def p'_def Let_def split: if_splits)
  moreover have parts: "\<forall>w \<in> set comps. w \<noteq> [] \<and> w \<noteq> ''.'' \<and> w \<noteq> ''..'' \<and> CHR ''/'' \<notin> set w"
  proof
    fix w assume "w \<in> set comps"
    then show "w \<noteq> [] \<and> w \<noteq> ''.'' \<and> w \<noteq> ''..'' \<and> CHR ''/'' \<notin> set w"
      unfolding comps_def by (rule clean_foldl_parts [rotated 2]) (auto dest: split_on_parts)
  qed
  moreover have "split_on CHR ''/'' (join_with ''/'' comps) = (if comps = [] then [[]] else comps)"
    using split_on_join [of comps "CHR ''/''"] parts by simp
  moreover have "split_on CHR ''/'' (x @ ''/'') = split_on CHR ''/'' x @ [[]]" for x
    using split_on_append [of "CHR ''/''" x "[]"] by simp
  ultimately show ?thesis using assms(2) by (auto split: if_splits)
qed

end
