(* ===== verification/MetadataServer.thy ===== *)
theory MetadataServer
  imports MetadataService Chash Http
begin

text \<open>
  The metadata front end, \<open>cmd/metadata/main.go\<close>: an HTTP server over a consistent-hash ring and
  the metadata service. It registers videos, chooses the replicas of a segment and records them,
  and answers where a segment is. Handlers are functions of the request and the \<open>World\<close>; the
  ring does not change after start-up.
\<close>

section \<open>Start-up\<close>

record metadata_server =
  ms_ring :: Ring
  ms_svc :: Service

definition loadNodesFromEnv :: "string \<Rightarrow> string list" where
  "loadNodesFromEnv env =
     (let raw = (if env = [] then ''http://localhost:8081,http://localhost:8083'' else env)
      in filter (\<lambda>s. s \<noteq> []) (map TrimSpace (split_on CHR '','' raw)))"

text \<open>The store, its one pool and the etcd client are those with number 0 of an empty world.\<close>

definition server_cfg :: ServiceConfig where
  "server_cfg = \<lparr>cfg_WritePool = Some 0, cfg_ReadPool = Some 0, cfg_Etcd = Some 0,
     cfg_KeyPrefix = ''segments/'', cfg_MaxRetries = 0\<rparr>"

definition newServer :: "(string \<Rightarrow> byte list) \<Rightarrow> (Token list \<Rightarrow> Token list) \<Rightarrow> string \<Rightarrow> svc_error + metadata_server" where
  "newServer sha1 srt env =
     (let ring = foldl (Ring_AddNode sha1 srt) (NewRing 128) (loadNodesFromEnv env)
      in case NewService server_cfg of
           Inl e \<Rightarrow> Inl e
         | Inr svc \<Rightarrow> Inr \<lparr>ms_ring = ring, ms_svc = svc\<rparr>)"

section \<open>Texts\<close>

fun pgx_message :: "pgx_error \<Rightarrow> string" where
  "pgx_message ErrSerialization = ''pgxsim: serialization failure''"
| "pgx_message ErrReadOnly = ''pgxsim: transaction is read-only''"
| "pgx_message OnlySerializable = ''pgxsim: only serializable isolation supported''"
| "pgx_message TransactionClosed = ''pgxsim: transaction closed''"

text \<open>The text of an error; the encoder's own errors do not occur for the items of this server.\<close>

fun svc_message :: "svc_error \<Rightarrow> string" where
  "svc_message WritePoolRequired = ''metadata: write pool is required''"
| "svc_message EtcdRequired = ''metadata: etcd client is required''"
| "svc_message ItemRequired = ''metadata: item is required''"
| "svc_message KeyRequired = ''metadata: key is required''"
| "svc_message (MissingKey k) = ''metadata: missing key '' @ k"
| "svc_message (VersionMismatch k) = ''metadata: version mismatch for '' @ k"
| "svc_message (NotFound k) = ''metadata: key '' @ k @ '' not found''"
| "svc_message (DeleteLost k) = ''metadata: delete lost for '' @ k"
| "svc_message (EtcdConflict k) = ''metadata: etcd revision conflict for '' @ k"
| "svc_message (RetryBudget n) = ''metadata: exceeded retry budget ('' @ itoa (nat n) @ '')''"
| "svc_message MarshalFailed = ''json: unsupported value''"
| "svc_message (PgxError e) = pgx_message e"
| "svc_message (EtcdError e) = etcd_message e"

text \<open>\<open>json.Marshal\<close> of an item, whose tags leave out what is empty; map keys are sorted.\<close>

definition item_json :: "MetadataItem \<Rightarrow> json" where
  "item_json i = JObj
     ((if item_Key i = [] then [] else [(''key'', JStr (item_Key i))]) @
      (if item_Value i = [] then [] else [(''value'', JStr (item_Value i))]) @
      (if item_Attributes i = [] then []
       else [(''attributes'', JObj (map (\<lambda>(k, v). (k, JStr v)) (sort_key fst (item_Attributes i))))]) @
      (if item_Version i = 0 then [] else [(''version'', json_int (sint (item_Version i)))]))"

definition json_Marshal_item :: "MetadataItem \<Rightarrow> string option" where
  "json_Marshal_item i = Some (json_print (item_json i))"

text \<open>A \<open>map[string]any\<close> is written with its keys in order.\<close>

definition segment_json :: "string \<Rightarrow> string \<Rightarrow> int \<Rightarrow> string list \<Rightarrow> json" where
  "segment_json video rend idx replicas = JObj
     [(''idx'', json_int idx), (''rend'', JStr rend), (''replicas'', JArr (map JStr replicas)),
      (''video'', JStr video)]"

definition segmentKey :: "string \<Rightarrow> string \<Rightarrow> int \<Rightarrow> string" where
  "segmentKey video rend idx =
     ''segment/'' @ video @ ''/'' @ rend @ ''/'' @ print_int idx"

section \<open>Handlers\<close>

definition create_id :: "string \<Rightarrow> string" where
  "create_id body =
     (case json_Decode body of
        None \<Rightarrow> []
      | Some j \<Rightarrow> fst (json_struct_into (\<lambda>k v q.
          if names_field ''id'' k then json_string_into v q else (q, True)) j []))"

definition handleCreateVideo :: "metadata_server \<Rightarrow> Request \<Rightarrow> World \<Rightarrow> World \<times> Response" where
  "handleCreateVideo s r w =
     (if req_Method r \<noteq> ''POST'' then (w, error_response ''Method Not Allowed'' 405)
      else
        let q = create_id (req_Body r) in
        if q = [] then (w, error_response ''missing id'' 400)
        else
          let item = \<lparr>item_Key = ''video/'' @ q,
                item_Value = [CHR ''{'', CHR 0x22] @ ''status'' @ [CHR 0x22, CHR '':'', CHR 0x22] @
                  ''ingesting'' @ [CHR 0x22, CHR ''}''],
                item_Attributes = [], item_Version = 0\<rparr>
          in (case PutMetadata json_Marshal_item (ms_svc s) (Some \<lparr>put_Item = Some item,
                     put_ExpectedVersion = 0, put_ExpectedEtcdRevision = - 1\<rparr>) w of
                (w, Inl e) \<Rightarrow> (w, error_response (''store video: '' @ svc_message e) 500)
              | (w, Inr _) \<Rightarrow>
                  (w, json_response 200 (JObj [(''id'', JStr q), (''status'', JStr ''ingesting'')]))))"

text \<open>
  Both segment handlers start alike: the path is the video followed by \<open>want\<close>, and the query
  names the rendition and an index. The index is used both as it was written and as a number.
\<close>

definition segment_params :: "string \<Rightarrow> Request \<Rightarrow> string + string \<times> string \<times> string \<times> int" where
  "segment_params want r =
     (let p = TrimPrefix (req_Path r) ''/videos/''; parts = SplitN2 CHR ''/'' p in
      if length parts \<noteq> 2 \<or> parts ! 0 = [] \<or> parts ! 1 \<noteq> want then Inl ''bad path''
      else
        let vid = parts ! 0; rend = Query_Get r ''rend''; idxStr = Query_Get r ''idx'' in
        if vid = [] \<or> rend = [] \<or> idxStr = [] then Inl ''need id,rend,idx''
        else (case Sscanf_d idxStr of
                None \<Rightarrow> Inl ''bad idx''
              | Some idx \<Rightarrow> Inr (vid, rend, idxStr, idx)))"

definition place_segment :: "(string \<Rightarrow> byte list) \<Rightarrow> metadata_server \<Rightarrow> string \<Rightarrow> string \<Rightarrow> string \<Rightarrow> string list" where
  "place_segment sha1 s video rend idxStr =
     Ring_Lookup sha1 (ms_ring s) (video @ ''|'' @ rend @ ''|'' @ idxStr) 2"

definition handlePutSegment :: "(string \<Rightarrow> byte list) \<Rightarrow> metadata_server \<Rightarrow> Request \<Rightarrow> World \<Rightarrow> World \<times> Response" where
  "handlePutSegment sha1 s r w =
     (case segment_params ''segments'' r of
        Inl msg \<Rightarrow> (w, error_response msg 400)
      | Inr (vid, rend, idxStr, idx) \<Rightarrow>
          let replicas = place_segment sha1 s vid rend idxStr in
          if length replicas = 0 then (w, error_response ''no storage nodes'' 503)
          else
            let payload = json_print (segment_json vid rend idx replicas);
                item = \<lparr>item_Key = segmentKey vid rend idx, item_Value = payload,
                        item_Attributes = [], item_Version = 0\<rparr>;
                put = (\<lambda>expected. PutMetadata json_Marshal_item (ms_svc s) (Some \<lparr>put_Item = Some item,
                         put_ExpectedVersion = expected, put_ExpectedEtcdRevision = - 1\<rparr>) w)
            in (case (case GetMetadata (ms_svc s) (Some \<lparr>get_Key = item_Key item\<rparr>) w of
                        Inr existing \<Rightarrow> put (item_Version (getr_Item existing))
                      | Inl _ \<Rightarrow> put 0) of
                  (w, Inl e) \<Rightarrow> (w, error_response (''store segment: '' @ svc_message e) 500)
                | (w, Inr _) \<Rightarrow> (w, json_response 200 (segment_json vid rend idx replicas))))"

text \<open>What is read back of a stored segment.\<close>

record segment_info =
  si_Video :: string
  si_Rend :: string
  si_Idx :: int
  si_Replicas :: "string list"

definition set_info :: "string \<Rightarrow> json \<Rightarrow> segment_info \<Rightarrow> segment_info \<times> bool" where
  "set_info k v i =
     (if names_field ''video'' k then apfst (\<lambda>x. i\<lparr>si_Video := x\<rparr>) (json_string_into v (si_Video i))
      else if names_field ''rend'' k then apfst (\<lambda>x. i\<lparr>si_Rend := x\<rparr>) (json_string_into v (si_Rend i))
      else if names_field ''idx'' k then apfst (\<lambda>x. i\<lparr>si_Idx := x\<rparr>) (json_int_into v (si_Idx i))
      else if names_field ''replicas'' k then apfst (\<lambda>x. i\<lparr>si_Replicas := x\<rparr>) (json_strings_into v (si_Replicas i))
      else (i, True))"

definition no_info :: segment_info where
  "no_info = \<lparr>si_Video = [], si_Rend = [], si_Idx = 0, si_Replicas = []\<rparr>"

definition read_info :: "json \<Rightarrow> segment_info \<times> bool" where
  "read_info j = json_struct_into set_info j no_info"

definition handleGetLocations :: "metadata_server \<Rightarrow> Request \<Rightarrow> World \<Rightarrow> World \<times> Response" where
  "handleGetLocations s r w =
     (case segment_params ''segments/loc'' r of
        Inl msg \<Rightarrow> (w, error_response msg 400)
      | Inr (vid, rend, idxStr, idx) \<Rightarrow>
          (case GetMetadata (ms_svc s) (Some \<lparr>get_Key = segmentKey vid rend idx\<rparr>) w of
             Inl _ \<Rightarrow> (w, error_response ''not found'' 404)
           | Inr resp \<Rightarrow>
               let info = (case json_Unmarshal (item_Value (getr_Item resp)) of
                     None \<Rightarrow> no_info | Some j \<Rightarrow> fst (read_info j))
               in if length (si_Replicas info) = 0 then (w, error_response ''not found'' 404)
                  else (w, json_response 200 (segment_json (si_Video info) (si_Rend info) (si_Idx info)
                    (si_Replicas info)))))"

definition routeVideo :: "(string \<Rightarrow> byte list) \<Rightarrow> metadata_server \<Rightarrow> Request \<Rightarrow> World \<Rightarrow> World \<times> Response" where
  "routeVideo sha1 s r w =
     (if HasSuffix (req_Path r) ''/segments'' \<and> req_Method r = ''POST'' then handlePutSegment sha1 s r w
      else if HasSuffix (req_Path r) ''/segments/loc'' \<and> req_Method r = ''GET'' then handleGetLocations s r w
      else (w, error_response ''404 page not found'' 404))"

definition text_response :: "string \<Rightarrow> Response" where
  "text_response msg = \<lparr>resp_Status = 200, resp_Type = [], resp_Location = None, resp_Body = msg\<rparr>"

definition metadata_main :: "(string \<Rightarrow> byte list) \<Rightarrow> metadata_server \<Rightarrow> Request \<Rightarrow> World \<Rightarrow> World \<times> Response" where
  "metadata_main sha1 s = serve_mux
     [(''/healthz'', \<lambda>r w. (w, text_response ''ok'')),
      (''/videos'', handleCreateVideo s),
      (''/videos/'', routeVideo sha1 s),
      (''/'', \<lambda>r w. (w, text_response ''<h1>TritonTube Metadata gRPC</h1>''))]"

section \<open>The service as the server uses it\<close>

definition server_ok :: "metadata_server \<Rightarrow> bool" where
  "server_ok s \<longleftrightarrow> maxRetries (ms_svc s) > 0 \<and> readPool (ms_svc s) = writePool (ms_svc s)"

lemma newServer_ok: "newServer sha1 srt env = Inr s \<Longrightarrow> server_ok s"
  by (auto simp: newServer_def server_cfg_def NewService_def server_ok_def)

text \<open>A put that expects the version it read, or none, and any etcd revision, succeeds.\<close>

lemma put_unguarded:
  assumes "world_ok w" and "maxRetries svc > 0" and "item_Key item = k" and "k \<noteq> []"
    and "item_Attributes item = []"
    and "expected = 0 \<or> (\<exists>r. pg w (writePool svc) k = Some r \<and> expected = rec_Version r)"
  obtains w' resp where
    "PutMetadata json_Marshal_item svc (Some \<lparr>put_Item = Some item, put_ExpectedVersion = expected,
       put_ExpectedEtcdRevision = - 1\<rparr>) w = (w', Inr resp)"
    and "world_ok w'"
    and "pg w' = (pg w)(writePool svc := (pg w (writePool svc))
      (k \<mapsto> put_record item (pg w (writePool svc) k)))"
    and "kvs w' (svc_etcd svc) = (kvs w (svc_etcd svc))(etcdKey svc k \<mapsto>
      json_print (item_json (item\<lparr>item_Version := next_version (pg w (writePool svc) k)\<rparr>)))"
proof -
  let ?req = "\<lparr>put_Item = Some item, put_ExpectedVersion = expected, put_ExpectedEtcdRevision = - 1\<rparr>"
  have key: "put_Item ?req = Some item" "item_Key item \<noteq> []" "wf_map (item_Attributes item)"
    using assms(3-5) by simp_all
  obtain w' res where put: "PutMetadata json_Marshal_item svc (Some ?req) w = (w', res)" and ok: "world_ok w'"
    and res: "put_result json_Marshal_item svc item (put_ExpectedVersion ?req)
      (put_ExpectedEtcdRevision ?req) w w' res"
    by (rule PutMetadata_result [OF assms(1,2) key])
  have "version_check (MissingKey k) (VersionMismatch k) expected (pg w (writePool svc) k) = None"
    using assms(6) by (auto simp: version_check_def split: option.split)
  with res assms(3) obtain resp where "res = Inr resp"
    and "pg w' = (pg w)(writePool svc := (pg w (writePool svc))(k \<mapsto> put_record item (pg w (writePool svc) k)))"
    and "kvs w' (svc_etcd svc) = (kvs w (svc_etcd svc))(etcdKey svc k \<mapsto>
      json_print (item_json (item\<lparr>item_Version := next_version (pg w (writePool svc) k)\<rparr>)))"
    by (auto simp: put_result_def json_Marshal_item_def guard_holds_def Let_def)
  with put ok show thesis by (blast intro: that)
qed

section \<open>Texts come back\<close>

lemma digits_range: "parse_int64 lit = Some n \<Longrightarrow> - (2 ^ 63) \<le> n \<and> n < 2 ^ 63"
  by (auto simp: parse_int64_def Let_def split: if_splits)

lemma Sscanf_d_range: "Sscanf_d s = Some n \<Longrightarrow> - (2 ^ 63) \<le> n \<and> n < 2 ^ 63"
  by (auto simp: Sscanf_d_def Let_def split: if_splits dest: digits_range)

lemma segment_fields:
  "names_field ''video'' ''video''" "names_field ''rend'' ''rend''" "names_field ''idx'' ''idx''"
  "names_field ''replicas'' ''replicas''"
  "\<not> names_field ''video'' ''rend''" "\<not> names_field ''video'' ''idx''" "\<not> names_field ''rend'' ''idx''"
  "\<not> names_field ''video'' ''replicas''" "\<not> names_field ''rend'' ''replicas''" "\<not> names_field ''idx'' ''replicas''"
  by code_simp+

lemma read_segment_json:
  assumes "- (2 ^ 63) \<le> idx" and "idx < 2 ^ 63"
  shows "read_info (segment_json video rend idx replicas) =
    (\<lparr>si_Video = video, si_Rend = rend, si_Idx = idx, si_Replicas = replicas\<rparr>, True)"
  using json_int_into_int [OF assms]
  by (simp add: read_info_def segment_json_def json_struct_into_def set_info_def segment_fields no_info_def
      json_string_into_def json_strings_into_def comp_def list_all_iff)

lemma segment_json_ok:
  assumes "valid_utf8 video" and "valid_utf8 rend" and "\<forall>n \<in> set replicas. valid_utf8 n"
  shows "json_ok max_depth (segment_json video rend idx replicas)"
proof -
  have "valid_utf8 ''video''" "valid_utf8 ''rend''" "valid_utf8 ''idx''" "valid_utf8 ''replicas''"
    by code_simp+
  moreover obtain lit where lit: "json_int idx = JNum lit" by (simp add: json_int_def)
  ultimately show ?thesis
    using assms int_lit_int [OF lit] by (simp add: segment_json_def max_depth_def lit list_all_iff)
qed

section \<open>Keys of segments\<close>

lemma itoa_plain: "c \<in> set (itoa n) \<Longrightarrow> c \<noteq> CHR ''/'' \<and> c \<noteq> CHR ''-''"
  using is_digit_itoa [of n] by (auto simp: list_all_iff is_digit_def)

lemma print_int_no_slash: "CHR ''/'' \<notin> set (print_int i)"
  using itoa_plain by (auto simp: print_int_def)

lemma print_int_inj: "print_int i = print_int j \<Longrightarrow> i = j"
proof -
  have "itoa m \<noteq> CHR ''-'' # t" for m t using itoa_plain [of "CHR ''-''" m] by auto
  then show "print_int i = print_int j \<Longrightarrow> i = j"
    by (auto simp: print_int_def split: if_splits dest!: itoa_inj) (metis)+
qed

lemma segmentKey_eq:
  assumes "CHR ''/'' \<notin> set v" and "CHR ''/'' \<notin> set v'" and "segmentKey v rend idx = segmentKey v' rend' idx'"
  shows "v = v' \<and> rend = rend' \<and> idx = idx'"
proof -
  have "v @ CHR ''/'' # (rend @ ''/'' @ print_int idx) = v' @ CHR ''/'' # (rend' @ ''/'' @ print_int idx')"
    using assms(3) by (simp add: segmentKey_def)
  moreover have "takeWhile (\<lambda>c. c \<noteq> CHR ''/'') (a @ CHR ''/'' # b) = a" if "CHR ''/'' \<notin> set a" for a b
    using that by (induction a) auto
  ultimately have v: "v = v'" using assms(1,2) by metis
  with assms(3) have "rend @ CHR ''/'' # print_int idx = rend' @ CHR ''/'' # print_int idx'"
    by (simp add: segmentKey_def)
  from split_at_last [OF this print_int_no_slash print_int_no_slash] v print_int_inj show ?thesis by blast
qed

text \<open>
  Two segments never share a record: for video ids without a slash, which are the only ones the
  handlers accept, the key tells video, rendition and index apart, even where renditions contain
  slashes; and no segment has the key of a video.
\<close>

theorem segmentKey_injective:
  assumes "CHR ''/'' \<notin> set v" and "CHR ''/'' \<notin> set v'"
  shows "(segmentKey v rend idx = segmentKey v' rend' idx' \<longleftrightarrow> v = v' \<and> rend = rend' \<and> idx = idx') \<and>
    segmentKey v rend idx \<noteq> ''video/'' @ x"
  using segmentKey_eq [OF assms] by (auto simp: segmentKey_def)

lemma segmentKey_injective_witness:
  "segmentKey ''v'' ''a/b'' 1 \<noteq> segmentKey ''v'' ''a'' 1 \<and> segmentKey ''v'' ''a/b'' 1 \<noteq> ''video/v''"
  using segmentKey_injective [of "''v''" "''v''" "''a/b''" 1 "''a''" 1 "''v''"] by simp

section \<open>Registering a segment\<close>

lemma segment_params_key:
  assumes "segment_params want r = Inr (v, rend, idxStr, idx)"
  shows "CHR ''/'' \<notin> set v" "v \<noteq> []" "rend \<noteq> []" "Sscanf_d idxStr = Some idx"
proof -
  have first: "CHR ''/'' \<notin> set (SplitN2 CHR ''/'' p ! 0)" for p
    by (auto simp: SplitN2_def Cut_def Let_def split: option.splits dest: set_takeWhileD)
  show "CHR ''/'' \<notin> set v" "v \<noteq> []" "rend \<noteq> []" "Sscanf_d idxStr = Some idx"
    using assms first by (auto simp: segment_params_def Let_def split: if_splits option.splits)
qed

lemma place_segment_nodes: "set (place_segment sha1 s v rend idxStr) \<subseteq> ring_nodes (ms_ring s)"
  unfolding place_segment_def by (rule ring.place_members)

lemma place_segment_empty: "place_segment sha1 s v rend idxStr = [] \<longleftrightarrow> ring_nodes (ms_ring s) = {}"
  unfolding place_segment_def by (simp add: ring.place_Nil_iff)

definition segment_item :: "string \<Rightarrow> string \<Rightarrow> int \<Rightarrow> string list \<Rightarrow> MetadataItem" where
  "segment_item v rend idx replicas = \<lparr>item_Key = segmentKey v rend idx,
     item_Value = json_print (segment_json v rend idx replicas), item_Attributes = [], item_Version = 0\<rparr>"

lemma put_segment_stores:
  fixes sha1 :: "string \<Rightarrow> byte list"
  assumes "world_ok w" and "server_ok s" and "ring_nodes (ms_ring s) \<noteq> {}"
    and params: "segment_params ''segments'' r = Inr (v, rend, idxStr, idx)"
  defines "reps \<equiv> place_segment sha1 s v rend idxStr" and "k \<equiv> segmentKey v rend idx"
    and "old \<equiv> pg w (writePool (ms_svc s)) (segmentKey v rend idx)"
  obtains w' where "handlePutSegment sha1 s r w = (w', json_response 200 (segment_json v rend idx reps))"
    and "world_ok w'"
    and "pg w' = (pg w)(writePool (ms_svc s) := (pg w (writePool (ms_svc s)))
      (k \<mapsto> put_record (segment_item v rend idx reps) old))"
    and "kvs w' (svc_etcd (ms_svc s)) = (kvs w (svc_etcd (ms_svc s)))(etcdKey (ms_svc s) k \<mapsto>
      json_print (item_json ((segment_item v rend idx reps)\<lparr>item_Version := next_version old\<rparr>)))"
proof -
  let ?svc = "ms_svc s" and ?item = "segment_item v rend idx reps"
  have pools: "readPool ?svc = writePool ?svc" "maxRetries ?svc > 0"
    using assms(2) by (simp_all add: server_ok_def)
  have k: "k \<noteq> []" by (simp add: k_def segmentKey_def)
  define expected where "expected = (case old of None \<Rightarrow> 0 | Some r \<Rightarrow> rec_Version r)"
  have old: "pg w (writePool ?svc) k = old" by (simp add: old_def k_def)
  have exp: "expected = 0 \<or> (\<exists>r. pg w (writePool ?svc) k = Some r \<and> expected = rec_Version r)"
    by (simp add: old expected_def split: option.split)
  obtain w' resp where put: "PutMetadata json_Marshal_item ?svc (Some \<lparr>put_Item = Some ?item,
        put_ExpectedVersion = expected, put_ExpectedEtcdRevision = - 1\<rparr>) w = (w', Inr resp)"
    and w': "world_ok w'" "pg w' = (pg w)(writePool ?svc := (pg w (writePool ?svc))(k \<mapsto> put_record ?item old))"
      "kvs w' (svc_etcd ?svc) = (kvs w (svc_etcd ?svc))(etcdKey ?svc k \<mapsto>
        json_print (item_json (?item\<lparr>item_Version := next_version old\<rparr>)))"
    by (rule put_unguarded [where item = ?item and k = k, OF assms(1) pools(2) _ k _ exp, unfolded old])
      (simp_all add: segment_item_def k_def)
  have get: "GetMetadata ?svc (Some \<lparr>get_Key = k\<rparr>) w =
      (case old of None \<Rightarrow> Inl (NotFound k) | Some r \<Rightarrow> Inr \<lparr>getr_Item = recordToItem r\<rparr>)"
    using GetMetadata_value [OF assms(1), of "\<lparr>get_Key = k\<rparr>" ?svc] k pools(1) old
    by (cases old) simp_all
  have "reps \<noteq> []" using assms(3) by (simp add: reps_def place_segment_empty)
  then have "handlePutSegment sha1 s r w = (w', json_response 200 (segment_json v rend idx reps))"
    using put get
    by (cases old) (simp_all add: handlePutSegment_def params expected_def segment_item_def
        recordToItem_def Let_def reps_def k_def)
  then show thesis using w' by (rule that)
qed

lemma put_segment_rejects:
  "segment_params ''segments'' r = Inl msg \<Longrightarrow> handlePutSegment sha1 s r w = (w, error_response msg 400)"
  "segment_params ''segments'' r = Inr q \<Longrightarrow> ring_nodes (ms_ring s) = {} \<Longrightarrow>
     handlePutSegment sha1 s r w = (w, error_response ''no storage nodes'' 503)"
  using place_segment_empty [of sha1 s]
  by (auto simp: handlePutSegment_def Let_def split: prod.split)

text \<open>
  C21: What a request to register a segment does, in every case: malformed requests get 400 and an
  empty ring 503, and change nothing; every other request succeeds, whatever was registered
  before, and stores the segment with the replicas of its ring key as the next version of its
  record, in the store and, encoded, in etcd.
\<close>

theorem handlePutSegment_spec:
  assumes "world_ok w" and "server_ok s"
  shows "case segment_params ''segments'' r of
      Inl msg \<Rightarrow> handlePutSegment sha1 s r w = (w, error_response msg 400)
    | Inr (v, rend, idxStr, idx) \<Rightarrow>
        (let replicas = place_segment sha1 s v rend idxStr; k = segmentKey v rend idx;
             item = segment_item v rend idx replicas; old = pg w (writePool (ms_svc s)) k
         in if ring_nodes (ms_ring s) = {}
            then handlePutSegment sha1 s r w = (w, error_response ''no storage nodes'' 503)
            else \<exists>w'. handlePutSegment sha1 s r w = (w', json_response 200 (segment_json v rend idx replicas)) \<and>
              pg w' = (pg w)(writePool (ms_svc s) := (pg w (writePool (ms_svc s)))(k \<mapsto> put_record item old)) \<and>
              kvs w' (svc_etcd (ms_svc s)) = (kvs w (svc_etcd (ms_svc s)))(etcdKey (ms_svc s) k \<mapsto>
                json_print (item_json (item\<lparr>item_Version := next_version old\<rparr>))))"
proof (cases "segment_params ''segments'' r")
  case (Inl msg)
  then show ?thesis by (simp add: put_segment_rejects)
next
  case (Inr q)
  obtain v rend idxStr idx where q: "q = (v, rend, idxStr, idx)" by (cases q)
  show ?thesis
  proof (cases "ring_nodes (ms_ring s) = {}")
    case True
    with Inr q show ?thesis by (simp add: put_segment_rejects Let_def)
  next
    case False
    with Inr q show ?thesis
      using put_segment_stores [OF assms False, of r v rend idxStr idx sha1] by (simp add: Let_def) blast
  qed
qed

text \<open>A small server: three nodes on a ring with one token each, and a digest that is the length.\<close>

definition sample_sha :: "string \<Rightarrow> byte list" where
  "sample_sha s = [0, 0, 0, 0, 0, 0, 0, of_nat (length s)]"

definition sample_ms :: metadata_server where
  "sample_ms = \<lparr>ms_ring = \<lparr>vnodes = 1, tokens =
       [\<lparr>Hash = 4, Node = ''n1''\<rparr>, \<lparr>Hash = 7, Node = ''n2''\<rparr>, \<lparr>Hash = 9, Node = ''n3''\<rparr>]\<rparr>,
     ms_svc = \<lparr>writePool = 0, readPool = 0, svc_etcd = 0, maxRetries = 5, keyPrefix = ''segments/''\<rparr>\<rparr>"

definition segment_request :: "string \<Rightarrow> string \<Rightarrow> string \<Rightarrow> Request" where
  "segment_request verb path q = \<lparr>req_Method = verb, req_Path = path, req_RawQuery = q, req_Body = [], req_BodyErr = False\<rparr>"

lemma sample_ms_ok: "server_ok sample_ms" and sample_ms_nodes: "ring_nodes (ms_ring sample_ms) = {''n1'', ''n2'', ''n3''}"
  by (auto simp: server_ok_def sample_ms_def ring_nodes_def)

lemma sample_params:
  "segment_params ''segments'' (segment_request ''POST'' ''/videos/v/segments'' ''rend=hd&idx=1'') =
     Inr (''v'', ''hd'', ''1'', 1)"
  "segment_params ''segments'' (segment_request ''POST'' ''/videos/v/segments'' ''rend=hd&idx=00001'') =
     Inr (''v'', ''hd'', ''00001'', 1)"
  "segment_params ''segments/loc'' (segment_request ''GET'' ''/videos/v/segments/loc'' ''rend=hd&idx=1'') =
     Inr (''v'', ''hd'', ''1'', 1)"
  "segment_params ''segments'' (segment_request ''POST'' ''/videos/v/segments'' ''rend=hd&idx=x'') = Inl ''bad idx''"
  by code_simp+


lemma sample_place:
  "place_segment sample_sha sample_ms ''v'' ''hd'' ''1'' = [''n2'', ''n3'']"
  "place_segment sample_sha sample_ms ''v'' ''hd'' ''00001'' = [''n1'', ''n2'']"
  by code_simp+

lemma handlePutSegment_spec_witness:
  "(\<exists>w'. handlePutSegment sample_sha sample_ms
      (segment_request ''POST'' ''/videos/v/segments'' ''rend=hd&idx=1'') empty_world =
      (w', json_response 200 (segment_json ''v'' ''hd'' 1 [''n2'', ''n3'']))) \<and>
   handlePutSegment sample_sha sample_ms
      (segment_request ''POST'' ''/videos/v/segments'' ''rend=hd&idx=x'') empty_world =
      (empty_world, error_response ''bad idx'' 400)"
  using handlePutSegment_spec [OF empty_world_ok sample_ms_ok, of sample_sha
      "segment_request ''POST'' ''/videos/v/segments'' ''rend=hd&idx=1''"]
    handlePutSegment_spec [OF empty_world_ok sample_ms_ok, of sample_sha
      "segment_request ''POST'' ''/videos/v/segments'' ''rend=hd&idx=x''"]
  by (auto simp: sample_params sample_place sample_ms_nodes Let_def)

section \<open>Looking a segment up\<close>

lemma locations_value:
  assumes "world_ok w" and "server_ok s" and "segment_params ''segments/loc'' r = Inr (v, rend, idxStr, idx)"
  shows "handleGetLocations s r w = (w,
    (case pg w (writePool (ms_svc s)) (segmentKey v rend idx) of
       None \<Rightarrow> error_response ''not found'' 404
     | Some rc \<Rightarrow>
         let info = (case json_Unmarshal (rec_Value rc) of None \<Rightarrow> no_info | Some j \<Rightarrow> fst (read_info j))
         in if si_Replicas info = [] then error_response ''not found'' 404
            else json_response 200 (segment_json (si_Video info) (si_Rend info) (si_Idx info) (si_Replicas info))))"
proof -
  have "segmentKey v rend idx \<noteq> []" by (simp add: segmentKey_def)
  then show ?thesis
    using assms(2,3) GetMetadata_value [OF assms(1), of "\<lparr>get_Key = segmentKey v rend idx\<rparr>" "ms_svc s"]
    by (cases "pg w (writePool (ms_svc s)) (segmentKey v rend idx)")
      (simp_all add: handleGetLocations_def server_ok_def recordToItem_def Let_def)
qed

lemma locations_stored:
  assumes "world_ok w" and "server_ok s" and "segment_params ''segments/loc'' r = Inr (v, rend, idxStr, idx)"
    and "pg w (writePool (ms_svc s)) (segmentKey v rend idx) =
      Some (put_record (segment_item v rend idx replicas) old)"
    and "valid_utf8 v" and "valid_utf8 rend" and "\<forall>n \<in> set replicas. valid_utf8 n" and "replicas \<noteq> []"
  shows "handleGetLocations s r w = (w, json_response 200 (segment_json v rend idx replicas))"
proof -
  have "json_Unmarshal (json_print (segment_json v rend idx replicas)) = Some (segment_json v rend idx replicas)"
    by (rule json_Unmarshal_print [OF segment_json_ok [OF assms(5-7)]])
  moreover have "Sscanf_d idxStr = Some idx" using segment_params_key [OF assms(3)] by simp
  ultimately show ?thesis
    using assms(8) Sscanf_d_range [of idxStr idx] unfolding locations_value [OF assms(1-3)] assms(4)
    by (simp add: put_record_def segment_item_def read_segment_json)
qed

lemma put_then_locations:
  assumes "world_ok w" and "server_ok s"
    and put: "segment_params ''segments'' r = Inr (v, rend, idxStr, idx)"
      "handlePutSegment sha1 s r w = (w', resp)" "resp_Status resp = 200"
    and get: "segment_params ''segments/loc'' r' = Inr (v, rend, idxStr', idx)"
    and utf8: "valid_utf8 v" "valid_utf8 rend" "\<forall>n \<in> ring_nodes (ms_ring s). valid_utf8 n"
  shows "world_ok w' \<and> resp = json_response 200 (segment_json v rend idx (place_segment sha1 s v rend idxStr)) \<and>
    handleGetLocations s r' w' = (w', resp)"
proof -
  let ?reps = "place_segment sha1 s v rend idxStr"
  have nodes: "ring_nodes (ms_ring s) \<noteq> {}"
    using put put_segment_rejects(2) [OF put(1), of s sha1 w] by (auto simp: error_response_def)
  obtain w1 where w1: "handlePutSegment sha1 s r w = (w1, json_response 200 (segment_json v rend idx ?reps))"
    "world_ok w1" "pg w1 = (pg w)(writePool (ms_svc s) := (pg w (writePool (ms_svc s)))
      (segmentKey v rend idx \<mapsto> put_record (segment_item v rend idx ?reps)
        (pg w (writePool (ms_svc s)) (segmentKey v rend idx))))"
    by (rule put_segment_stores [OF assms(1,2) nodes put(1), of sha1]) blast
  have w': "w' = w1" and resp: "resp = json_response 200 (segment_json v rend idx ?reps)"
    using w1(1) put(2) by simp_all
  have "\<forall>n \<in> set ?reps. valid_utf8 n" using utf8(3) place_segment_nodes by blast
  moreover have "?reps \<noteq> []" using nodes by (simp add: place_segment_empty)
  ultimately show ?thesis
    using w1(2,3) resp locations_stored [OF w1(2) assms(2) get, of ?reps] utf8(1,2) unfolding w' by simp
qed

text \<open>
  C8: What was registered is what is found: after a segment has been registered with status 200, the
  request for its locations answers with the very response of the registration, replicas
  included, through the JSON text in the store; the locations of every other segment stay what
  they were. (Names are valid UTF-8: JSON replaces other bytes.)
\<close>

theorem locations_after_put:
  assumes "world_ok w" and "server_ok s"
    and "segment_params ''segments'' r = Inr (v, rend, idxStr, idx)"
    and "handlePutSegment sha1 s r w = (w', resp)" and "resp_Status resp = 200"
    and "valid_utf8 v" and "valid_utf8 rend" and "\<forall>n \<in> ring_nodes (ms_ring s). valid_utf8 n"
  shows "(\<forall>r' idxStr'. segment_params ''segments/loc'' r' = Inr (v, rend, idxStr', idx) \<longrightarrow>
       handleGetLocations s r' w' = (w', resp)) \<and>
    (\<forall>r' v' rend' idxStr' idx'. segment_params ''segments/loc'' r' = Inr (v', rend', idxStr', idx') \<longrightarrow>
       (v', rend', idx') \<noteq> (v, rend, idx) \<longrightarrow>
       snd (handleGetLocations s r' w') = snd (handleGetLocations s r' w))"
proof (intro conjI allI impI)
  fix r' idxStr' assume "segment_params ''segments/loc'' r' = Inr (v, rend, idxStr', idx)"
  from put_then_locations [OF assms(1-5) this assms(6-8)]
  show "handleGetLocations s r' w' = (w', resp)" by blast
next
  fix r' v' rend' idxStr' idx'
  assume get: "segment_params ''segments/loc'' r' = Inr (v', rend', idxStr', idx')"
    and other: "(v', rend', idx') \<noteq> (v, rend, idx)"
  have nodes: "ring_nodes (ms_ring s) \<noteq> {}"
    using assms(4,5) put_segment_rejects(2) [OF assms(3), of s sha1 w] by (auto simp: error_response_def)
  have "segmentKey v' rend' idx' \<noteq> segmentKey v rend idx"
    using segmentKey_eq [of v' v rend' idx' rend idx] segment_params_key(1) [OF get]
      segment_params_key(1) [OF assms(3)] other by blast
  moreover obtain w1 x old where "handlePutSegment sha1 s r w = (w1, x)" "world_ok w1"
    "pg w1 = (pg w)(writePool (ms_svc s) := (pg w (writePool (ms_svc s)))(segmentKey v rend idx \<mapsto> old))"
    by (rule put_segment_stores [OF assms(1,2) nodes assms(3), of sha1]) blast
  ultimately have "pg w' (writePool (ms_svc s)) (segmentKey v' rend' idx') =
      pg w (writePool (ms_svc s)) (segmentKey v' rend' idx')" and "world_ok w'"
    using assms(4) by auto
  then show "snd (handleGetLocations s r' w') = snd (handleGetLocations s r' w)"
    using locations_value [OF assms(1,2) get] locations_value [OF _ assms(2) get, of w'] by simp
qed

abbreviation (input) sample_put_req :: "string \<Rightarrow> Request" where
  "sample_put_req idx \<equiv> segment_request ''POST'' ''/videos/v/segments'' (''rend=hd&idx='' @ idx)"

abbreviation (input) sample_loc_req :: Request where
  "sample_loc_req \<equiv> segment_request ''GET'' ''/videos/v/segments/loc'' ''rend=hd&idx=1''"

lemma sample_utf8: "valid_utf8 ''v''" "valid_utf8 ''hd''" "\<forall>n \<in> ring_nodes (ms_ring sample_ms). valid_utf8 n"
proof -
  show "valid_utf8 ''v''" "valid_utf8 ''hd''" by code_simp+
  have "valid_utf8 ''n1''" "valid_utf8 ''n2''" "valid_utf8 ''n3''" by code_simp+
  then show "\<forall>n \<in> ring_nodes (ms_ring sample_ms). valid_utf8 n" by (simp add: sample_ms_nodes)
qed

lemma sample_registered:
  assumes "world_ok w"
  obtains w' where "handlePutSegment sample_sha sample_ms (sample_put_req ''1'') w =
      (w', json_response 200 (segment_json ''v'' ''hd'' 1 [''n2'', ''n3'']))" and "world_ok w'"
  using put_segment_stores [OF assms sample_ms_ok _ sample_params(1), of sample_sha thesis]
  by (simp add: sample_ms_nodes sample_place)

lemma sample_registered2:
  assumes "world_ok w"
  obtains w' where "handlePutSegment sample_sha sample_ms (sample_put_req ''00001'') w =
      (w', json_response 200 (segment_json ''v'' ''hd'' 1 [''n1'', ''n2'']))" and "world_ok w'"
  using put_segment_stores [OF assms sample_ms_ok _ sample_params(2), of sample_sha thesis]
  by (simp add: sample_ms_nodes sample_place)

lemma locations_after_put_witness:
  "\<exists>w'. handlePutSegment sample_sha sample_ms (sample_put_req ''1'') empty_world =
      (w', json_response 200 (segment_json ''v'' ''hd'' 1 [''n2'', ''n3''])) \<and>
    handleGetLocations sample_ms sample_loc_req w' =
      (w', json_response 200 (segment_json ''v'' ''hd'' 1 [''n2'', ''n3'']))"
proof -
  obtain w' where put: "handlePutSegment sample_sha sample_ms (sample_put_req ''1'') empty_world =
      (w', json_response 200 (segment_json ''v'' ''hd'' 1 [''n2'', ''n3'']))"
    by (rule sample_registered [OF empty_world_ok])
  have params: "segment_params ''segments'' (sample_put_req ''1'') = Inr (''v'', ''hd'', ''1'', 1)"
    using sample_params(1) by simp
  from locations_after_put [OF empty_world_ok sample_ms_ok params put _ sample_utf8] put sample_params(3)
  show ?thesis by (auto simp: json_response_def)
qed

text \<open>
  The index is read as a number for the record but as text for the placement: when a segment is
  registered as \<open>idxStr\<close> and then under another text of the same number (\<open>1\<close> and \<open>00001\<close>, or
  \<open>1x\<close>), the one record both share names only the replicas of the second text, also when the
  first text is looked up.
\<close>

theorem index_text_shadows:
  assumes "world_ok w" and "server_ok s"
    and "segment_params ''segments'' r = Inr (v, rend, idxStr, idx)"
    and "handlePutSegment sha1 s r w = (w', resp)" and "resp_Status resp = 200"
    and "segment_params ''segments'' r2 = Inr (v, rend, idxStr2, idx)"
    and "handlePutSegment sha1 s r2 w' = (w2, resp2)" and "resp_Status resp2 = 200"
    and "segment_params ''segments/loc'' r' = Inr (v, rend, idxStr, idx)"
    and "valid_utf8 v" and "valid_utf8 rend" and "\<forall>n \<in> ring_nodes (ms_ring s). valid_utf8 n"
  shows "handleGetLocations s r' w' =
      (w', json_response 200 (segment_json v rend idx (place_segment sha1 s v rend idxStr))) \<and>
    handleGetLocations s r' w2 =
      (w2, json_response 200 (segment_json v rend idx (place_segment sha1 s v rend idxStr2)))"
proof -
  note one = put_then_locations [OF assms(1-5,9-12)]
  then have "world_ok w'" by blast
  note two = put_then_locations [OF this assms(2,6-8,9-12)]
  from one two show ?thesis by simp
qed


lemma index_text_shadows_witness:
  "\<exists>w1 w2. handlePutSegment sample_sha sample_ms (sample_put_req ''1'') empty_world =
      (w1, json_response 200 (segment_json ''v'' ''hd'' 1 [''n2'', ''n3''])) \<and>
    handleGetLocations sample_ms sample_loc_req w1 =
      (w1, json_response 200 (segment_json ''v'' ''hd'' 1 [''n2'', ''n3''])) \<and>
    handlePutSegment sample_sha sample_ms (sample_put_req ''00001'') w1 =
      (w2, json_response 200 (segment_json ''v'' ''hd'' 1 [''n1'', ''n2''])) \<and>
    handleGetLocations sample_ms sample_loc_req w2 =
      (w2, json_response 200 (segment_json ''v'' ''hd'' 1 [''n1'', ''n2'']))"
proof -
  obtain w1 where put: "handlePutSegment sample_sha sample_ms (sample_put_req ''1'') empty_world =
      (w1, json_response 200 (segment_json ''v'' ''hd'' 1 [''n2'', ''n3'']))" and ok: "world_ok w1"
    by (rule sample_registered [OF empty_world_ok])
  obtain w2 where put2: "handlePutSegment sample_sha sample_ms (sample_put_req ''00001'') w1 =
      (w2, json_response 200 (segment_json ''v'' ''hd'' 1 [''n1'', ''n2'']))"
    by (rule sample_registered2 [OF ok])
  have params: "segment_params ''segments'' (sample_put_req ''1'') = Inr (''v'', ''hd'', ''1'', 1)"
    "segment_params ''segments'' (sample_put_req ''00001'') = Inr (''v'', ''hd'', ''00001'', 1)"
    using sample_params(1,2) by simp_all
  from index_text_shadows [OF empty_world_ok sample_ms_ok params(1) put _ params(2) put2 _ sample_params(3) sample_utf8]
    put put2 show ?thesis by (simp add: json_response_def sample_place)
qed

end
