(* ===== verification/Web.thy ===== *)
theory Web
  imports MetadataServer
begin

text \<open>
  The web front end, \<open>cmd/web/main.go\<close>: uploads of segments, which it registers with the metadata
  server and puts on the replicas named there until a write quorum can be counted, and views of
  segments, which try the replicas in order. The network is the function \<open>net\<close> over a state \<open>'n\<close>
  (see Http); a handler whose client is handed a nil request panics and sends no response.
\<close>

section \<open>Configuration\<close>

definition web_base :: "string \<Rightarrow> string" where
  "web_base env = (if env = [] then ''http://localhost:8082'' else env)"

definition Atoi :: "string \<Rightarrow> int option" where
  "Atoi s = parse_int64 (if take 1 s = ''+'' \<and> take 1 (drop 1 s) \<noteq> ''-'' then drop 1 s else s)"

definition web_writeW :: "string \<Rightarrow> int" where
  "web_writeW env =
     (if env \<noteq> [] then (case Atoi env of Some n \<Rightarrow> if n > 0 then n else 1 | None \<Rightarrow> 1) else 1)"

section \<open>Uploads\<close>

record putResult =
  pr_Base :: string
  pr_Status :: nat
  pr_Size :: int
  pr_SHA256 :: string

text \<open>
  The \<open>size\<close> of a storage node's answer is decoded as a \<open>float64\<close>: integers within \<open>2^53\<close> are
  exact, and \<open>floats\<close> gives the value of the other literals.
\<close>

definition answer_size :: "(string \<Rightarrow> int) \<Rightarrow> json option \<Rightarrow> int" where
  "answer_size floats m =
     (case m of
        Some (JObj ms) \<Rightarrow> (case map_of (rev ms) ''size'' of
            Some (JNum lit) \<Rightarrow> (case parse_int64 lit of
                Some n \<Rightarrow> if \<bar>n\<bar> \<le> 2 ^ 53 then n else floats lit
              | None \<Rightarrow> floats lit)
          | _ \<Rightarrow> 0)
      | _ \<Rightarrow> 0)"

definition answer_sha256 :: "json option \<Rightarrow> string" where
  "answer_sha256 m =
     (case m of
        Some (JObj ms) \<Rightarrow> (case map_of (rev ms) ''sha256'' of Some (JStr s) \<Rightarrow> s | _ \<Rightarrow> [])
      | _ \<Rightarrow> [])"

definition put_result_of :: "(string \<Rightarrow> int) \<Rightarrow> string \<Rightarrow> Response option \<Rightarrow> putResult" where
  "put_result_of floats base resp =
     (case resp of
        None \<Rightarrow> \<lparr>pr_Base = base, pr_Status = 0, pr_Size = 0, pr_SHA256 = []\<rparr>
      | Some resp \<Rightarrow>
          if resp_Status resp = 201 then
            let m = json_Decode (resp_Body resp)
            in \<lparr>pr_Base = base, pr_Status = 201, pr_Size = answer_size floats m, pr_SHA256 = answer_sha256 m\<rparr>
          else \<lparr>pr_Base = base, pr_Status = resp_Status resp, pr_Size = 0, pr_SHA256 = []\<rparr>)"

text \<open>The loop over the replicas; \<open>None\<close> is a panic.\<close>

fun put_replicas :: "(string \<Rightarrow> int) \<Rightarrow> 'n network \<Rightarrow> string \<Rightarrow> string \<Rightarrow> string list \<Rightarrow> 'n \<Rightarrow>
    'n \<times> putResult list option" where
  "put_replicas floats net objectPath data [] n = (n, Some [])"
| "put_replicas floats net objectPath data (base # bases) n =
     (case fetch net ''PUT'' (TrimRight base CHR ''/'') (''/blob/videos/'' @ objectPath) data n of
        (n, BadURL) \<Rightarrow> (n, None)
      | (n, Fetched resp) \<Rightarrow>
          (case put_replicas floats net objectPath data bases n of
             (n, results) \<Rightarrow> (n, map_option (Cons (put_result_of floats base resp)) results)))"

definition successes :: "putResult list \<Rightarrow> nat" where
  "successes results = length (filter (\<lambda>r. pr_Status r = 201) results)"

definition result_json :: "putResult \<Rightarrow> json" where
  "result_json r = JObj [(''base'', JStr (pr_Base r)), (''status'', json_int (int (pr_Status r))),
     (''size'', json_int (pr_Size r)), (''sha256'', JStr (pr_SHA256 r))]"

definition upload_response :: "int \<Rightarrow> string \<Rightarrow> putResult list \<Rightarrow> Response" where
  "upload_response W objectPath results =
     (let success = successes results in
      if int success \<ge> W then
        json_response 201 (JObj [(''W'', json_int W), (''object'', JStr (''videos/'' @ objectPath)),
          (''ok'', JBool True), (''results'', JArr (map result_json results)), (''written'', json_int (int success))])
      else
        json_response 502 (JObj [(''W'', json_int W), (''ok'', JBool False),
          (''results'', JArr (map result_json results)), (''written'', json_int (int success))]))"

definition handle_upload :: "(string \<Rightarrow> int) \<Rightarrow> 'n network \<Rightarrow> string \<Rightarrow> int \<Rightarrow> Request \<Rightarrow> 'n \<Rightarrow> 'n \<times> Response option" where
  "handle_upload floats net metadataBase W r n =
     (if req_Method r \<noteq> ''POST'' then (n, Some (error_response ''Method not allowed'' 405))
      else
        let vid = Query_Get r ''id''; rend = Query_Get r ''rend''; idx = Query_Get r ''idx'' in
        if vid = [] \<or> rend = [] \<or> idx = [] then (n, Some (error_response ''Missing id or rend'' 400))
        else
          (case fetch net ''POST'' metadataBase
                  (''/videos/'' @ vid @ ''/segments?rend='' @ rend @ ''&idx='' @ idx) [] n of
             (n, BadURL) \<Rightarrow> (n, None)
           | (n, Fetched None) \<Rightarrow> (n, Some (error_response ''Failed to create segment'' 503))
           | (n, Fetched (Some respCreate)) \<Rightarrow>
               if resp_Status respCreate \<noteq> 200 then (n, Some (error_response ''Failed to create segment'' 503))
               else
                 (case map_option read_info (json_Decode (resp_Body respCreate)) of
                    Some (loc, True) \<Rightarrow>
                      if length (si_Replicas loc) = 0 then (n, Some (error_response ''No replicas available'' 503))
                      else if req_BodyErr r then (n, Some (error_response ''Failed to read segment'' 503))
                      else
                        let objectPath = vid @ ''/'' @ rend @ ''/'' @ idx in
                        (case put_replicas floats net objectPath (req_Body r) (si_Replicas loc) n of
                           (n, results) \<Rightarrow> (n, map_option (upload_response W objectPath) results))
                  | _ \<Rightarrow> (n, Some (error_response ''Failed to decode metadata'' 503)))))"

section \<open>Views\<close>

fun get_replicas :: "'n network \<Rightarrow> string \<Rightarrow> string list \<Rightarrow> 'n \<Rightarrow> 'n \<times> Response option" where
  "get_replicas net objectPath [] n = (n, Some (error_response ''all replicas failed'' 502))"
| "get_replicas net objectPath (base # bases) n =
     (case fetch net ''GET'' (TrimRight base CHR ''/'') (''/blob/videos/'' @ objectPath) [] n of
        (n, BadURL) \<Rightarrow> (n, None)
      | (n, Fetched None) \<Rightarrow> get_replicas net objectPath bases n
      | (n, Fetched (Some resp)) \<Rightarrow>
          if resp_Status resp \<noteq> 200 then get_replicas net objectPath bases n
          else (n, Some (text_response (resp_Body resp))))"

definition handle_view :: "'n network \<Rightarrow> string \<Rightarrow> Request \<Rightarrow> 'n \<Rightarrow> 'n \<times> Response option" where
  "handle_view net metadataBase r n =
     (let parts = split_on CHR ''/'' (TrimPrefix (req_Path r) ''/v/'') in
      if length parts \<noteq> 3 \<or> parts ! 0 = [] \<or> parts ! 1 = [] \<or> parts ! 2 = []
      then (n, Some (error_response ''bad path, want /v/{id}/{rend}/{idx}'' 400))
      else
        let vid = parts ! 0; rend = parts ! 1; idx = parts ! 2 in
        (case fetch net ''GET'' metadataBase
                (''/videos/'' @ vid @ ''/segments/loc?rend='' @ rend @ ''&idx='' @ idx) [] n of
           (n, BadURL) \<Rightarrow> (n, None)
         | (n, Fetched None) \<Rightarrow> (n, Some (error_response ''metadata error'' 502))
         | (n, Fetched (Some resp)) \<Rightarrow>
             if resp_Status resp \<noteq> 200 then (n, Some (error_response ''metadata error'' 502))
             else
               (case map_option read_info (json_Decode (resp_Body resp)) of
                  Some (loc, True) \<Rightarrow>
                    if length (si_Replicas loc) = 0 then (n, Some (error_response ''404 page not found'' 404))
                    else get_replicas net (vid @ ''/'' @ rend @ ''/'' @ idx) (si_Replicas loc) n
                | _ \<Rightarrow> (n, Some (error_response ''decode'' 502)))))"

section \<open>The server\<close>

text \<open>The multiplexer for handlers that may panic.\<close>

definition web_main :: "(string \<Rightarrow> int) \<Rightarrow> 'n network \<Rightarrow> string \<Rightarrow> string \<Rightarrow> Request \<Rightarrow> 'n \<Rightarrow> 'n \<times> Response option" where
  "web_main floats net base_env w_env r n =
     (case mux_route
        [(''/healthz'', \<lambda>r n. (n, Some (text_response ''OK''))),
         (''/upload'', handle_upload floats net (web_base base_env) (web_writeW w_env)),
         (''/v/'', handle_view net (web_base base_env)),
         (''/'', \<lambda>r n. (n, Some (text_response ''<h1>TritonTube Web</h1><p>Hello!</p>'')))]
        (req_Method r) (req_Path r) of
        Redirect path \<Rightarrow> (n, Some (redirect_response path (req_RawQuery r)))
      | NoHandler \<Rightarrow> (n, Some (error_response ''404 page not found'' 404))
      | Serve h \<Rightarrow> h r n)"

section \<open>Ids that are no URL\<close>

lemma unescape_none:
  assumes "unescape query v = None"
  shows "unescape query (v @ CHR ''/'' # t) = None"
  using assms
proof (induction query v rule: unescape.induct)
  case (2 query c cs)
  have slash: "hex_val (CHR ''/'') = None" by code_simp
  show ?case
  proof (cases "c = CHR ''%''")
    case False
    with 2 show ?thesis by simp
  next
    case True
    show ?thesis
    proof (cases cs)
      case Nil
      with True slash show ?thesis by (cases t) simp_all
    next
      case cs: (Cons h tl)
      show ?thesis
      proof (cases tl)
        case Nil
        with True cs slash show ?thesis by (simp split: option.split)
      next
        case (Cons l ds)
        with True cs 2 show ?thesis
          by (cases "hex_val h"; cases "hex_val l") simp_all
      qed
    qed
  qed
qed simp

lemma unescape_prefix: "CHR ''%'' \<notin> set p \<Longrightarrow> unescape query v = None \<Longrightarrow> unescape query (p @ v) = None"
  by (induction p) auto

lemma url_rest_malformed:
  assumes "CHR ''#'' \<notin> set p" and "CHR ''?'' \<notin> set p" and "unescape False p = None"
  shows "url_rest (p @ CHR ''?'' # q) = None"
proof -
  have "fst (Cut CHR ''#'' (p @ CHR ''?'' # q)) = p @ CHR ''?'' # takeWhile (\<lambda>x. x \<noteq> CHR ''#'') q"
    using assms(1) by (simp add: Cut_def Let_def takeWhile_append)
  then obtain fragment where "Cut CHR ''#'' (p @ CHR ''?'' # q) = (p @ CHR ''?'' # takeWhile (\<lambda>x. x \<noteq> CHR ''#'') q, fragment)"
    by (metis prod.collapse)
  then show ?thesis using assms(2,3) by (simp add: url_rest_def Cut_at)
qed

lemma fetch_malformed:
  assumes "CHR ''#'' \<notin> set v" and "CHR ''?'' \<notin> set v" and "unescape False v = None"
    and "CHR ''#'' \<notin> set want" and "CHR ''?'' \<notin> set want"
  shows "fetch net verb base (''/videos/'' @ v @ CHR ''/'' # want @ CHR ''?'' # q) body n = (n, BadURL)"
proof -
  let ?p = "''/videos/'' @ v @ CHR ''/'' # want"
  have "unescape False ?p = None"
    by (rule unescape_prefix [OF _ unescape_none [OF assms(3)]]) simp
  then have "url_rest (?p @ CHR ''?'' # q) = None" using assms by (intro url_rest_malformed) simp_all
  then show ?thesis by (simp add: fetch_def)
qed

text \<open>
  C40: A video id with a percent sign that begins no escape, and without the characters that end
  the path of a URL (\<open>#\<close> and \<open>?\<close>), makes both handlers panic: the error of
  \<open>NewRequestWithContext\<close> is dropped and the nil request given to the client, so the user gets no
  response at all, where the handlers mean to answer 503 and 502.
\<close>

theorem malformed_id_panics:
  assumes "CHR ''#'' \<notin> set v" and "CHR ''?'' \<notin> set v" and "unescape False v = None"
    and "req_Method r = ''POST''" and "Query_Get r ''id'' = v" and "Query_Get r ''rend'' \<noteq> []" and "Query_Get r ''idx'' \<noteq> []"
    and "split_on CHR ''/'' (TrimPrefix (req_Path g) ''/v/'') = [v, rend, idx]" and "rend \<noteq> []" and "idx \<noteq> []"
  shows "handle_upload floats net base W r n = (n, None) \<and> handle_view net base g n = (n, None)"
proof -
  have v: "v \<noteq> []" using assms(3) by auto
  have words: "CHR ''#'' \<notin> set ''segments''" "CHR ''?'' \<notin> set ''segments''"
    "CHR ''#'' \<notin> set ''segments/loc''" "CHR ''?'' \<notin> set ''segments/loc''" by simp_all
  note bad = fetch_malformed [OF assms(1-3)]
  have "fetch net ''POST'' base (''/videos/'' @ v @ ''/segments?rend='' @ a @ ''&idx='' @ b) [] n = (n, BadURL)" for a b
    using bad [OF words(1,2), of net "''POST''" base "''rend='' @ a @ ''&idx='' @ b" "[]" n] by simp
  moreover have "fetch net ''GET'' base (''/videos/'' @ v @ ''/segments/loc?rend='' @ a @ ''&idx='' @ b) [] n = (n, BadURL)" for a b
    using bad [OF words(3,4), of net "''GET''" base "''rend='' @ a @ ''&idx='' @ b" "[]" n] by simp
  ultimately show ?thesis
    unfolding handle_upload_def handle_view_def assms(5,8) Let_def using assms(4,6,7,9,10) v by simp
qed

lemma malformed_id_panics_witness:
  "web_main (\<lambda>x. 0) (\<lambda>base r n. (n, None)) [] [] \<lparr>req_Method = ''POST'', req_Path = ''/upload'',
     req_RawQuery = ''id=%25zz&rend=hd&idx=1'', req_Body = [], req_BodyErr = False\<rparr> (0 :: nat) = (0, None)"
proof -
  let ?r = "\<lparr>req_Method = ''POST'', req_Path = ''/upload'', req_RawQuery = ''id=%25zz&rend=hd&idx=1'',
     req_Body = [], req_BodyErr = False\<rparr>"
  let ?g = "\<lparr>req_Method = ''GET'', req_Path = ''/v/%zz/hd/1'', req_RawQuery = [], req_Body = [], req_BodyErr = False\<rparr>"
  have q: "Query_Get ?r ''id'' = ''%zz''" "Query_Get ?r ''rend'' \<noteq> []" "Query_Get ?r ''idx'' \<noteq> []"
    "unescape False ''%zz'' = None" "split_on CHR ''/'' (TrimPrefix (req_Path ?g) ''/v/'') = [''%zz'', ''hd'', ''1'']"
    by code_simp+
  have "cleanPath ''/upload'' = ''/upload''" by code_simp
  with malformed_id_panics [where net = "\<lambda>base r n. (n :: nat, None)", OF _ _ q(4) _ q(1-3) q(5)] show ?thesis
    by (simp add: web_main_def mux_route_def mux_match_def Let_def)
qed

end
