(* ===== verification/StorageServer.thy ===== *)
theory StorageServer
  imports Storage Http
begin

text \<open>
  The storage front end, \<open>cmd/storage/main.go\<close>, which serves the file store over HTTP, and the
  start-up of the administration tool, \<open>cmd/storage-admin/main.go\<close>. A handler is a function of
  the request and the files; which system calls of a \<open>PUT\<close> fail is an argument.
\<close>

section \<open>Bytes and strings\<close>

definition bytes_of :: "string \<Rightarrow> byte list" where
  "bytes_of s = map of_char s"

definition string_of :: "byte list \<Rightarrow> string" where
  "string_of bs = map (\<lambda>b. char_of (unat b)) bs"

lemma string_of_bytes [simp]: "string_of (bytes_of s) = s"
proof -
  have "char_of (unat (of_char c :: byte)) = c" for c
  proof -
    have "(of_char c :: byte) = of_nat (of_char c)" by (rule of_nat_of_char [symmetric])
    then have "unat (of_char c :: byte) = of_char c mod 256" by (simp only: unat_of_nat) simp
    then show ?thesis by simp
  qed
  then show ?thesis by (simp add: string_of_def bytes_of_def comp_def)
qed

lemma length_bytes_of [simp]: "length (bytes_of s) = length s"
  by (simp add: bytes_of_def)

section \<open>The blob handler\<close>

text \<open>A request body that breaks off fails the copy after the bytes that came.\<close>

definition body_faults :: "Request \<Rightarrow> fs_faults \<Rightarrow> fs_faults" where
  "body_faults r ft =
     (if req_BodyErr r \<and> f_copy ft = None
      then ft\<lparr>f_copy := Some (Err ''unexpected EOF''), f_copied := length (req_Body r)\<rparr> else ft)"

definition blob_json :: "string \<Rightarrow> string \<Rightarrow> string \<Rightarrow> i64 \<Rightarrow> json" where
  "blob_json bucket object checksum n = JObj
     [(''bucket'', JStr bucket), (''object'', JStr object), (''sha256'', JStr checksum), (''size'', json_int (sint n))]"

definition blob_names :: "string \<Rightarrow> (string \<times> string) option" where
  "blob_names path =
     (let trim = TrimPrefix path ''/blob/''; parts = SplitN2 CHR ''/'' trim in
      if length parts \<noteq> 2 \<or> parts ! 0 = [] \<or> parts ! 1 = [] then None
      else Some (parts ! 0, parts ! 1))"

text \<open>
  The type of the response to a \<open>GET\<close> is empty, where \<open>net/http\<close> guesses one from the first bytes
  of the body; nothing in the program reads it.
\<close>

definition handle_blob :: "(byte list \<Rightarrow> byte list) \<Rightarrow> fs_faults \<Rightarrow> FS \<Rightarrow> Request \<Rightarrow> files \<Rightarrow> files \<times> Response" where
  "handle_blob sha256 ft f r m =
     (case blob_names (req_Path r) of
        None \<Rightarrow> (m, error_response ''Invalid path'' 400)
      | Some (bucket, object) \<Rightarrow>
          if req_Method r = ''PUT'' then
            (case FS_Put sha256 (body_faults r ft) f bucket object (bytes_of (req_Body r)) m of
               (m, n, checksum, Some err) \<Rightarrow> (m, error_response (Error err) 500)
             | (m, n, checksum, None) \<Rightarrow>
                 (m, finish_response (Encode_json (blob_json bucket object checksum n)
                   (WriteHeader 200 (WriteHeader 201 (set_type ''application/json'' new_writer))))))
          else if req_Method r = ''GET'' then
            (case FS_Get f bucket object m of
               Inl _ \<Rightarrow> (m, error_response ''404 page not found'' 404)
             | Inr data \<Rightarrow> (m, finish_response (Write (string_of data) new_writer)))
          else (m, error_response ''Unsupported method'' 405))"

definition plain_response :: "string \<Rightarrow> Response" where
  "plain_response msg = \<lparr>resp_Status = 200, resp_Type = [], resp_Location = None, resp_Body = msg\<rparr>"

definition storage_main :: "(byte list \<Rightarrow> byte list) \<Rightarrow> fs_faults \<Rightarrow> FS \<Rightarrow> Request \<Rightarrow> files \<Rightarrow> files \<times> Response" where
  "storage_main sha256 ft f = serve_mux
     [(''/healthz'', \<lambda>r m. (m, plain_response ''OK'')),
      (''/blob/'', handle_blob sha256 ft f),
      (''/'', \<lambda>r m. (m, plain_response ''<h1>TritonTube Storage</h1>''))]"

text \<open>The file store of the command, from its two environment variables.\<close>

definition storage_fs :: "string \<Rightarrow> string \<Rightarrow> FS" where
  "storage_fs port_env dir_env =
     (let port = (if port_env = [] then ''8081'' else port_env)
      in NewFS (if dir_env = [] then ''./data-'' @ port else dir_env))"

lemma superfluous_header:
  "finish_response (Encode_json j (WriteHeader 200 (WriteHeader 201 (set_type t new_writer)))) =
   finish_response (Encode_json j (WriteHeader 201 (set_type t new_writer)))"
  by (simp add: WriteHeader_def set_type_def new_writer_def)

lemma handle_put:
  assumes "blob_names (req_Path r) = Some (bucket, object)" and "req_Method r = ''PUT''"
  shows "handle_blob sha256 ft f r m =
    (case FS_Put sha256 (body_faults r ft) f bucket object (bytes_of (req_Body r)) m of
       (m, n, checksum, err) \<Rightarrow> (m, case err of Some e \<Rightarrow> error_response (Error e) 500
         | None \<Rightarrow> json_response 201 (blob_json bucket object checksum n)))"
  using assms by (simp add: handle_blob_def superfluous_header finish_json split: option.split prod.split)

lemma handle_get:
  assumes "blob_names (req_Path r) = Some (bucket, object)" and "req_Method r = ''GET''"
  shows "handle_blob sha256 ft f r m = (m, case FS_Get f bucket object m of
       Inl _ \<Rightarrow> error_response ''404 page not found'' 404
     | Inr data \<Rightarrow> plain_response (string_of data))"
  using assms by (simp add: handle_blob_def finish_response_def Write_def WriteHeader_def new_writer_def
      plain_response_def split: sum.split)

section \<open>Put and get\<close>

text \<open>
  A blob put over HTTP is got back: a \<open>PUT\<close> whose body arrives whole and whose system calls
  succeed answers 201 with the size and the checksum of the body, and a \<open>GET\<close> of the same path
  then answers with the body; every blob stored under another path than this blob's and its
  temporary file's is got as before.
\<close>

theorem blob_put_get:
  assumes "blob_names (req_Path r) = Some (bucket, object)" and "req_Method r = ''PUT''"
    and "no_faults ft" and "\<not> req_BodyErr r"
  shows "\<exists>m'. handle_blob sha256 ft f r m = (m', json_response 201 (blob_json bucket object
      (hex_encode (sha256 (bytes_of (req_Body r)))) (of_nat (length (req_Body r))))) \<and>
    (\<forall>g. req_Path g = req_Path r \<and> req_Method g = ''GET'' \<longrightarrow>
       handle_blob sha256 ft f g m' = (m', plain_response (req_Body r))) \<and>
    (\<forall>g b' o'. blob_names (req_Path g) = Some (b', o') \<and> req_Method g = ''GET'' \<and>
       fullPath f b' o' \<notin> {fullPath f bucket object, fullPath f bucket object @ ''.tmp''} \<longrightarrow>
       snd (handle_blob sha256 ft f g m') = snd (handle_blob sha256 ft f g m))"
proof -
  let ?m = "m(fullPath f bucket object \<mapsto> bytes_of (req_Body r), fullPath f bucket object @ ''.tmp'' := None)"
  have ok: "no_faults (body_faults r ft)" using assms(3,4) by (simp add: body_faults_def)
  have "handle_blob sha256 ft f r m = (?m, json_response 201 (blob_json bucket object
      (hex_encode (sha256 (bytes_of (req_Body r)))) (of_nat (length (req_Body r)))))"
    unfolding handle_put [OF assms(1,2)] by (simp add: FS_Put_ok [OF ok])
  moreover have "handle_blob sha256 ft f g ?m = (?m, plain_response (req_Body r))"
    if "req_Path g = req_Path r" "req_Method g = ''GET''" for g
    using handle_get [of g bucket object sha256 ft f ?m] that assms(1) by (simp add: Put_then_Get)
  moreover have "snd (handle_blob sha256 ft f g ?m) = snd (handle_blob sha256 ft f g m)"
    if "blob_names (req_Path g) = Some (b', o')" "req_Method g = ''GET''"
      "fullPath f b' o' \<notin> {fullPath f bucket object, fullPath f bucket object @ ''.tmp''}" for g b' o'
    using handle_get [OF that(1,2), of sha256 ft f] that(3) by (simp add: FS_Get_def Let_def)
  ultimately show ?thesis by blast
qed

definition blob_request :: "string \<Rightarrow> string \<Rightarrow> string \<Rightarrow> bool \<Rightarrow> Request" where
  "blob_request verb path body broken =
     \<lparr>req_Method = verb, req_Path = path, req_RawQuery = [], req_Body = body, req_BodyErr = broken\<rparr>"

lemma sample_blob: "blob_names (req_Path (blob_request verb ''/blob/v/a'' body broken)) = Some (''v'', ''a'')"
  unfolding blob_request_def Request.simps by code_simp

lemma fault_free_ok: "no_faults fault_free"
  by (simp add: no_faults_def fault_free_def)

lemma blob_put_get_witness:
  "\<exists>m'. handle_blob (\<lambda>bs. bs) fault_free (NewFS ''/data'') (blob_request ''PUT'' ''/blob/v/a'' ''xy'' False) Map.empty =
      (m', json_response 201 (blob_json ''v'' ''a'' ''7879'' 2)) \<and>
    handle_blob (\<lambda>bs. bs) fault_free (NewFS ''/data'') (blob_request ''GET'' ''/blob/v/a'' [] False) m' =
      (m', plain_response ''xy'')"
proof -
  have hex: "hex_encode (bytes_of ''xy'') = ''7879''" by code_simp
  from blob_put_get [OF sample_blob [of "''PUT''" "''xy''" False] _ fault_free_ok, of "\<lambda>bs. bs" "NewFS ''/data''" Map.empty]
  show ?thesis by (auto simp: blob_request_def hex)
qed

text \<open>
  A \<open>PUT\<close> whose body breaks off, or whose copy fails, is answered 201 Created, with size 0 and
  an empty checksum, although nothing is stored: \<open>FS.Put\<close> reports no error for it. A \<open>GET\<close> still
  answers as before the request.
\<close>

theorem broken_put_created:
  assumes "blob_names (req_Path r) = Some (bucket, object)" and "req_Method r = ''PUT''"
    and "req_BodyErr r" and "f_mkdir ft = None" and "f_create ft = None"
    and "req_Path g = req_Path r" and "req_Method g = ''GET''"
  shows "case handle_blob sha256 ft f r m of (m', resp) \<Rightarrow>
      resp = json_response 201 (blob_json bucket object [] 0) \<and>
      snd (handle_blob sha256 ft f g m') = snd (handle_blob sha256 ft f g m)"
proof -
  obtain m' n checksum err where put: "FS_Put sha256 (body_faults r ft) f bucket object (bytes_of (req_Body r)) m = (m', n, checksum, err)"
    by (metis prod_cases4)
  have faults: "f_mkdir (body_faults r ft) = None" "f_create (body_faults r ft) = None" "f_copy (body_faults r ft) \<noteq> None"
    using assms(3-5) by (auto simp: body_faults_def)
  then have res: "n = 0" "checksum = []" "err = None"
    using put by (auto simp: FS_Put_def Let_def)
  have "\<not> no_faults (body_faults r ft)" using faults(3) by (simp add: no_faults_def)
  from FS_Put_fault [OF this put] have "FS_Get f bucket object m' = FS_Get f bucket object m"
    by (simp add: FS_Get_def Let_def)
  then show ?thesis
    using handle_get [of g bucket object sha256 ft f] assms(1,6,7)
    by (simp add: handle_put [OF assms(1,2)] put res)
qed

lemma broken_put_created_witness:
  "case handle_blob (\<lambda>bs. bs) fault_free (NewFS ''/data'') (blob_request ''PUT'' ''/blob/v/a'' ''x'' True) Map.empty of
     (m', resp) \<Rightarrow> resp = json_response 201 (blob_json ''v'' ''a'' [] 0) \<and>
       snd (handle_blob (\<lambda>bs. bs) fault_free (NewFS ''/data'') (blob_request ''GET'' ''/blob/v/a'' [] False) m') =
         error_response ''404 page not found'' 404"
proof -
  have "snd (handle_blob (\<lambda>bs. bs) fault_free (NewFS ''/data'') (blob_request ''GET'' ''/blob/v/a'' [] False) Map.empty) =
      error_response ''404 page not found'' 404"
    using handle_get [OF sample_blob [of "''GET''" "[]" False]] by (simp add: blob_request_def FS_Get_def Let_def)
  with broken_put_created [OF sample_blob [of "''PUT''" "''x''" True], of fault_free
      "blob_request ''GET'' ''/blob/v/a'' [] False" "\<lambda>bs. bs" "NewFS ''/data''" Map.empty]
  show ?thesis by (simp add: blob_request_def fault_free_def split: prod.splits)
qed

section \<open>What requests can reach\<close>

lemma FS_Put_changes:
  assumes "FS_Put sha256 ft f bucket object r m = (m', n, checksum, err)"
    and "p \<noteq> fullPath f bucket object" and "p \<noteq> fullPath f bucket object @ ''.tmp''"
  shows "m' p = m p"
proof (cases "no_faults ft")
  case True
  with assms show ?thesis by (auto simp: FS_Put_ok)
next
  case False
  with FS_Put_fault [OF False assms(1)] assms(3) show ?thesis by blast
qed

lemma FS_Put_result: "snd (FS_Put sha256 ft f bucket object r m) = snd (FS_Put sha256 ft f bucket object r m2)"
  by (simp add: FS_Put_def Let_def split: option.split)

text \<open>The files below a root directory: the root and at least one more component, none of them a dot.\<close>

definition below :: "string list \<Rightarrow> string \<Rightarrow> bool" where
  "below rs p \<longleftrightarrow> (\<exists>cs. cs \<noteq> [] \<and> clean_parts (rs @ cs) \<and> p = root_of (rs @ cs))"

lemma join_with_last:
  "xs \<noteq> [] \<Longrightarrow> join_with s xs @ t = join_with s (butlast xs @ [last xs @ t])"
  by (induction s xs rule: join_with.induct) auto

lemma below_tmp:
  assumes "below rs p"
  shows "below rs (p @ ''.tmp'')"
proof -
  obtain cs where cs: "cs \<noteq> []" "clean_parts (rs @ cs)" "p = root_of (rs @ cs)"
    using assms by (auto simp: below_def)
  let ?cs = "butlast cs @ [last cs @ ''.tmp'']"
  have "join_with ''/'' (rs @ cs) @ ''.tmp'' = join_with ''/'' (rs @ ?cs)"
    using cs(1) by (simp add: join_with_last butlast_append)
  then have "p @ ''.tmp'' = root_of (rs @ ?cs)" using cs(3) by (simp add: root_of_def)
  moreover have "last cs \<noteq> []" "CHR ''/'' \<notin> set (last cs)"
    using cs(1,2) by (auto simp: clean_parts_def)
  moreover have "\<And>w. w \<in> set (butlast cs) \<Longrightarrow> w \<in> set cs" by (rule in_set_butlastD)
  ultimately show ?thesis
    using cs(2) unfolding below_def clean_parts_def
    by (intro exI [of _ ?cs]) (auto simp: append_eq_Cons_conv)
qed

lemma blob_path:
  assumes "blob_names p = Some (bucket, object)" and "cleanPath p = p"
  shows "p = ''/blob/'' @ bucket @ ''/'' @ object" and "bucket \<noteq> []" and "CHR ''/'' \<notin> set bucket"
proof -
  have "\<exists>t. cleanPath p = CHR ''/'' # t"
    by (auto simp: cleanPath_def filepath_Clean_def Let_def)
  then have "p \<noteq> []" and hd: "hd p = CHR ''/''" using assms(2) by (metis list.distinct(1), metis list.sel(1))
  have trim: "Cut CHR ''/'' (TrimPrefix p ''/blob/'') = (bucket, Some object)"
    and ne: "bucket \<noteq> []"
    using assms(1) by (auto simp: blob_names_def SplitN2_def Let_def split: if_splits option.splits prod.splits)
  from Cut_Some [OF trim] have t: "TrimPrefix p ''/blob/'' = bucket @ ''/'' @ object" "CHR ''/'' \<notin> set bucket" by simp_all
  show "bucket \<noteq> []" "CHR ''/'' \<notin> set bucket" by (rule ne, rule t(2))
  have six: "length ''/blob/'' = 6" by simp
  show "p = ''/blob/'' @ bucket @ ''/'' @ object"
  proof (cases "take 6 p = ''/blob/''")
    case True
    have "TrimPrefix p ''/blob/'' = drop 6 p" unfolding TrimPrefix_def six using True by simp
    then have "drop 6 p = bucket @ ''/'' @ object" using t(1) by simp
    with True show ?thesis by (metis append_take_drop_id)
  next
    case False
    have "TrimPrefix p ''/blob/'' = p" unfolding TrimPrefix_def six using False by simp
    with t ne hd \<open>p \<noteq> []\<close> show ?thesis by (cases bucket) auto
  qed
qed

lemma blob_below:
  assumes "blob_names p = Some (bucket, object)" and "cleanPath p = p" and "clean_parts rs"
  shows "below rs (fullPath (NewFS (root_of rs)) bucket object)"
proof -
  note path = blob_path [OF assms(1,2)]
  have split: "split_on CHR ''/'' p = [[], ''blob'', bucket] @ split_on CHR ''/'' object"
    using path(1,3) split_on_append [of "CHR ''/''" "[]" "''blob/'' @ bucket @ ''/'' @ object"]
      split_on_append [of "CHR ''/''" "''blob''" "bucket @ ''/'' @ object"]
      split_on_append [of "CHR ''/''" bucket object]
    by (simp add: split_on_none)
  let ?cs = "filter (\<lambda>c. c \<noteq> [] \<and> c \<noteq> ''.'') (bucket # split_on CHR ''/'' object)"
  have dots: "w \<noteq> ''.'' \<and> w \<noteq> ''..''" if "w \<in> set (bucket # split_on CHR ''/'' object)" for w
    using cleanPath_parts [OF assms(2), of w] that split by auto
  have nodots: "''..'' \<notin> set (split_on CHR ''/'' bucket @ split_on CHR ''/'' object)"
    using dots path(3) by (auto simp: split_on_none)
  have full: "fullPath (NewFS (root_of rs)) bucket object = root_of (rs @ ?cs)"
    by (subst fullPath_components [OF assms(3)], subst clean_no_dots [OF nodots])
      (simp add: root_of_def split_on_none [OF path(3)])
  have "bucket \<in> set ?cs" using dots [of bucket] path(2) by simp
  then have "?cs \<noteq> []" by (metis empty_iff empty_set)
  moreover have "clean_parts (rs @ ?cs)"
    using assms(3) dots path(3) split_on_parts by (fastforce simp: clean_parts_def)
  ultimately show ?thesis unfolding below_def using full by blast
qed

lemma storage_main_cases:
  obtains (answered) resp where "\<And>m. storage_main sha256 ft f r m = (m, resp)"
  | (blob) bucket object where "\<And>m. storage_main sha256 ft f r m = handle_blob sha256 ft f r m"
      and "blob_names (req_Path r) = Some (bucket, object)"
      and "req_Method r = ''CONNECT'' \<or> cleanPath (req_Path r) = req_Path r"
proof -
  let ?pats = "[(''/healthz'', \<lambda>r m. (m, plain_response ''OK'')), (''/blob/'', handle_blob sha256 ft f),
      (''/'', \<lambda>r m. (m, plain_response ''<h1>TritonTube Storage</h1>''))]"
  have main: "storage_main sha256 ft f r = serve_mux ?pats r" by (simp add: storage_main_def)
  show thesis
  proof (cases rule: serve_mux_cases [of ?pats r])
    case 1: (answered resp')
    with main show thesis by (intro answered [of resp']) simp
  next
    case (handled p h)
    then consider "h = handle_blob sha256 ft f" | x where "h = (\<lambda>r m. (m, x))" by auto
    then show thesis
    proof cases
      case 1
      with handled main have eq: "storage_main sha256 ft f r m = handle_blob sha256 ft f r m" for m by simp
      show thesis
      proof (cases "blob_names (req_Path r)")
        case None
        then have "handle_blob sha256 ft f r m = (m, error_response ''Invalid path'' 400)" for m
          by (simp add: handle_blob_def)
        with eq show thesis by (intro answered [of "error_response ''Invalid path'' 400"]) simp
      next
        case (Some q)
        then obtain bucket object where "blob_names (req_Path r) = Some (bucket, object)" by (cases q) simp
        from eq this handled(3) show thesis by (rule blob)
      qed
    next
      case (2 x)
      with handled main show thesis by (intro answered [of x]) simp
    qed
  qed
qed

lemma blob_stays_below:
  assumes "clean_parts rs" and "blob_names (req_Path r) = Some (bucket, object)"
    and "req_Method r = ''CONNECT'' \<or> cleanPath (req_Path r) = req_Path r"
    and "handle_blob sha256 ft (NewFS (root_of rs)) r m = (m', resp)"
  shows "(\<forall>p. m' p \<noteq> m p \<longrightarrow> below rs p) \<and>
    (\<forall>m2. (\<forall>p. below rs p \<longrightarrow> m2 p = m p) \<longrightarrow> snd (handle_blob sha256 ft (NewFS (root_of rs)) r m2) = resp)"
proof -
  let ?f = "NewFS (root_of rs)"
  consider "req_Method r = ''PUT''" | "req_Method r = ''GET''" | "req_Method r \<noteq> ''PUT''" "req_Method r \<noteq> ''GET''" by blast
  then show ?thesis
  proof cases
    case 1
    then have clean: "cleanPath (req_Path r) = req_Path r" using assms(3) by auto
    note path = blob_below [OF assms(2) clean assms(1)] below_tmp [OF blob_below [OF assms(2) clean assms(1)]]
    note put = handle_put [OF assms(2) 1, of sha256 ft ?f]
    obtain m1 n checksum err where step: "FS_Put sha256 (body_faults r ft) ?f bucket object (bytes_of (req_Body r)) m =
        (m1, n, checksum, err)" by (metis prod_cases4)
    have "m' = m1" using step assms(4) by (simp add: put)
    with FS_Put_changes [OF step] path have "\<forall>p. m' p \<noteq> m p \<longrightarrow> below rs p" by metis
    moreover have "snd (handle_blob sha256 ft ?f r m2) = snd (handle_blob sha256 ft ?f r m)" for m2
      using FS_Put_result [of sha256 "body_faults r ft" ?f bucket object "bytes_of (req_Body r)" m m2]
      unfolding put by (auto split: prod.split)
    ultimately show ?thesis using assms(4) by (metis snd_conv)
  next
    case 2
    then have clean: "cleanPath (req_Path r) = req_Path r" using assms(3) by auto
    note get = handle_get [OF assms(2) 2, of sha256 ft ?f]
    have same: "snd (handle_blob sha256 ft ?f r m2) = snd (handle_blob sha256 ft ?f r m)"
      if "\<forall>p. below rs p \<longrightarrow> m2 p = m p" for m2
    proof -
      have "m2 (fullPath ?f bucket object) = m (fullPath ?f bucket object)"
        using that blob_below [OF assms(2) clean assms(1)] by blast
      then show ?thesis by (simp add: get FS_Get_def Let_def)
    qed
    have "m' = m" using assms(4) by (simp add: get)
    moreover have "resp = snd (handle_blob sha256 ft ?f r m)" by (simp only: assms(4) snd_conv)
    ultimately show ?thesis using same by blast
  next
    case 3
    with assms(2,4) show ?thesis by (auto simp: handle_blob_def)
  qed
qed

text \<open>
  C20: No HTTP request reaches a file outside the data directory: whatever the path of a request
  and whichever system calls fail, serving it changes only files below the root, and its response
  depends only on files below the root. The file store itself does not see to this (see
  \<open>Storage.fullPath_confinement\<close>): the multiplexer answers paths with dots by a redirect.
\<close>

theorem requests_stay_below_root:
  assumes "clean_parts rs" and "storage_main sha256 ft (NewFS (root_of rs)) r m = (m', resp)"
  shows "(\<forall>p. m' p \<noteq> m p \<longrightarrow> below rs p) \<and>
    (\<forall>m2. (\<forall>p. below rs p \<longrightarrow> m2 p = m p) \<longrightarrow>
       snd (storage_main sha256 ft (NewFS (root_of rs)) r m2) = resp)"
proof (cases rule: storage_main_cases [of sha256 ft "NewFS (root_of rs)" r])
  case (answered resp')
  with assms(2) show ?thesis by auto
next
  case 2: (blob bucket object)
  have "handle_blob sha256 ft (NewFS (root_of rs)) r m = (m', resp)" using assms(2) 2(1) by metis
  from blob_stays_below [OF assms(1) 2(2,3) this] show ?thesis unfolding 2(1) .
qed

lemma requests_stay_below_root_witness:
  "let (m', resp) = storage_main (\<lambda>bs. bs) fault_free (NewFS ''/data'')
       (blob_request ''PUT'' ''/blob/v/../../../etc/passwd'' ''x'' False) Map.empty
   in m' ''/etc/passwd'' = None"
proof -
  have rs: "clean_parts [''data'']" "root_of [''data''] = ''/data''"
    by (simp_all add: clean_parts_def root_of_def)
  obtain m' resp where main: "storage_main (\<lambda>bs. bs) fault_free (NewFS ''/data'')
      (blob_request ''PUT'' ''/blob/v/../../../etc/passwd'' ''x'' False) Map.empty = (m', resp)" by (metis surj_pair)
  have outside: "\<not> below [''data''] ''/etc/passwd''"
  proof
    assume "below [''data''] ''/etc/passwd''"
    then obtain c cs where "''/etc/passwd'' = root_of ([''data''] @ c # cs)"
      unfolding below_def by (metis neq_Nil_conv)
    then show False by (simp add: root_of_def)
  qed
  from requests_stay_below_root [OF rs(1), unfolded rs(2), OF main]
  have "\<forall>p. m' p \<noteq> Map.empty p \<longrightarrow> below [''data''] p" by (rule conjunct1)
  then have "m' ''/etc/passwd'' = None" using outside by (cases "m' ''/etc/passwd''") auto
  with main show ?thesis by simp
qed

section \<open>The administration tool\<close>

text \<open>
  \<open>storage-admin\<close> makes an etcd client of its own, stores a ring state read from a file under the
  manager's key when one is given, and starts a manager on it: \<open>Inl\<close> is a fatal error. \<open>state\<close> is
  the result of reading the file, if a path was given.
\<close>

definition managerRingKey :: "string \<Rightarrow> string" where
  "managerRingKey pfx = (if pfx = [] then ''/storage/cluster'' else pfx) @ ''/ring''"

datatype admin_error = ReadFailed | PreloadFailed etcd_error | ManagerFailed mgr_error | RebalanceFailed go_error

definition admin_start :: "digest \<Rightarrow> token_sort \<Rightarrow> (string \<Rightarrow> ringState option) \<Rightarrow> string \<Rightarrow>
    string option option \<Rightarrow> admin_error + RingManager \<times> Client" where
  "admin_start sha1 srt unmarshal pfx state =
     (case (case state of
              None \<Rightarrow> Inr etcd_New
            | Some None \<Rightarrow> Inl ReadFailed
            | Some (Some text) \<Rightarrow> (case Client_Put (managerRingKey pfx) text etcd_New of
                  (c, Inl e) \<Rightarrow> Inl (PreloadFailed e)
                | (c, Inr _) \<Rightarrow> Inr c)) of
        Inl e \<Rightarrow> Inl e
      | Inr c \<Rightarrow>
          (case NewRingManager sha1 srt unmarshal \<lparr>rmc_Etcd = Some c, rmc_Prefix = pfx, rmc_VirtualNodes = 0\<rparr> of
             Inl e \<Rightarrow> Inl (ManagerFailed e)
           | Inr m \<Rightarrow> Inr (m, c)))"

text \<open>
  Then it prints a plan for each event of the ring until the events end: \<open>encode\<close> is the printing of
  a plan, which may fail. An error counts only when no signal has cancelled the context.
\<close>

definition admin_main :: "digest \<Rightarrow> token_sort \<Rightarrow> (string \<Rightarrow> ringState option) \<Rightarrow>
    (RebalancePlan \<Rightarrow> go_error option) \<Rightarrow> bool \<Rightarrow> string \<Rightarrow> int \<Rightarrow> string option option \<Rightarrow> RingEvent list \<Rightarrow>
    admin_error + RebalancePlan list" where
  "admin_main sha1 srt unmarshal encode cancelled pfx deadline state evts =
     (case admin_start sha1 srt unmarshal pfx state of
        Inl e \<Rightarrow> Inl e
      | Inr (manager, c) \<Rightarrow>
          (case Rebalancer_Run (Some manager) (Some (\<lambda>deadline plan. encode plan)) deadline evts of
             (plans, None) \<Rightarrow> Inr plans
           | (plans, Some err) \<Rightarrow> if cancelled then Inr plans else Inl (RebalanceFailed err)))"

text \<open>
  The ring state that the administration tool preloads is the one its manager starts from,
  under every prefix, the default one included: when the file decodes, the manager has the nodes
  and the version of the file; when it does not, the tool stops.
\<close>

theorem admin_preload:
  "case unmarshal text of
     None \<Rightarrow> \<exists>e. admin_start sha1 srt unmarshal pfx (Some (Some text)) = Inl (ManagerFailed e)
   | Some st \<Rightarrow> \<exists>m c. admin_start sha1 srt unmarshal pfx (Some (Some text)) = Inr (m, c) \<and>
       rs_Nodes (rm_state m) = rs_Nodes st \<and> rs_Version (rm_state m) = rs_Version st"
proof -
  let ?pfx = "if pfx = [] then ''/storage/cluster'' else pfx"
  obtain c where put: "Client_Put (managerRingKey pfx) text etcd_New = (c, Inr \<lparr>Succeeded = True, Revision = revision c\<rparr>)"
    and "client_ok c" "view c = (view etcd_New)(managerRingKey pfx \<mapsto> text)"
    by (rule Client_Put_ok [OF client_ok_New])
  then have stored: "view c (?pfx @ ''/ring'') = Some text"
    by (simp add: managerRingKey_def)
  define m where "m st = (\<lparr>rm_ring = None, rm_state = st, rm_prefix = ?pfx, rm_vnodes = 128,
    rm_lastRevision = mod_rev c (?pfx @ ''/ring'')\<rparr>)" for st
  have new: "NewRingManager sha1 srt unmarshal \<lparr>rmc_Etcd = Some c, rmc_Prefix = pfx, rmc_VirtualNodes = 0\<rparr> =
      (case unmarshal text of None \<Rightarrow> Inl DecodeFailed | Some st \<Rightarrow> Inr (rebuildLocked sha1 srt (m st)))"
    using stored by (cases "pfx = []"; cases "unmarshal text") (simp_all add: NewRingManager_def bootstrap_eq ringKey_def m_def)
  show ?thesis
    by (cases "unmarshal text") (simp_all add: admin_start_def put new rebuildLocked_def m_def Let_def)
qed

end
