(* ===== verification/Cluster.thy ===== *)
theory Cluster
  imports Web StorageServer
begin

text \<open>
  The commands together: a web server whose network leads to one metadata server and to storage
  servers, each reached under its base address. A storage server is down or up, and when it is up
  the system calls of a \<open>PUT\<close> may fail, as the argument \<open>st\<close> says. The commands' own code is that
  of the theories imported here; this theory only delivers their messages.
\<close>

section \<open>The deployment\<close>

record cluster_config =
  cc_metadata :: string
  cc_server :: metadata_server
  cc_nodes :: "string \<rightharpoonup> FS"

record cluster =
  cl_world :: World
  cl_files :: "string \<Rightarrow> files"

definition cluster_net :: "(string \<Rightarrow> byte list) \<Rightarrow> (byte list \<Rightarrow> byte list) \<Rightarrow> cluster_config \<Rightarrow>
    (string \<Rightarrow> fs_faults option) \<Rightarrow> cluster network" where
  "cluster_net sha1 sha256 cfg st base r n =
     (if base = cc_metadata cfg then
        (case metadata_main sha1 (cc_server cfg) r (cl_world n) of
           (w, resp) \<Rightarrow> (n\<lparr>cl_world := w\<rparr>, Some resp))
      else
        (case (cc_nodes cfg base, st base) of
           (Some f, Some ft) \<Rightarrow>
             (case storage_main sha256 ft f r (cl_files n base) of
                (m, resp) \<Rightarrow> (n\<lparr>cl_files := (cl_files n)(base := m)\<rparr>, Some resp))
         | _ \<Rightarrow> (n, None)))"

section \<open>Names that need no escaping\<close>

definition plain_char :: "char \<Rightarrow> bool" where
  "plain_char c \<longleftrightarrow> is_digit c \<or> (65 \<le> (of_char c :: nat) \<and> of_char c \<le> (90 :: nat)) \<or>
     (97 \<le> (of_char c :: nat) \<and> of_char c \<le> (122 :: nat)) \<or> c \<in> {CHR ''-'', CHR ''_'', CHR ''.'', CHR ''~''}"

definition plain :: "string \<Rightarrow> bool" where
  "plain s \<longleftrightarrow> s \<noteq> [] \<and> s \<noteq> ''.'' \<and> s \<noteq> ''..'' \<and> list_all plain_char s"

lemma plain_char_not:
  assumes "plain_char c"
  shows "c \<notin> {CHR ''/'', CHR ''%'', CHR ''#'', CHR ''?'', CHR ''&'', CHR ''='', CHR ''+'', CHR '';'', CHR '' ''}"
    and "\<not> is_control c" and "of_char c < (128 :: nat)"
  using assms by (auto simp: plain_char_def is_digit_def is_control_def)

lemma plain_not_in:
  assumes "plain s" and "c \<in> {CHR ''/'', CHR ''%'', CHR ''#'', CHR ''?'', CHR ''&'', CHR ''='', CHR ''+'', CHR '';'', CHR '' ''}"
  shows "c \<notin> set s"
  using assms plain_char_not(1) by (auto simp: plain_def list_all_iff)

lemma plain_no_control: "plain s \<Longrightarrow> c \<in> set s \<Longrightarrow> \<not> is_control c"
  using plain_char_not(2) by (auto simp: plain_def list_all_iff)

lemma plain_utf8: "plain s \<Longrightarrow> valid_utf8 s"
proof -
  have "list_all plain_char s \<Longrightarrow> valid_utf8 s"
    using plain_char_not(3) by (induction s) (auto simp: rune_len_def)
  then show "plain s \<Longrightarrow> valid_utf8 s" by (simp add: plain_def)
qed

lemma plain_part: "plain s \<Longrightarrow> s \<noteq> [] \<and> s \<noteq> ''.'' \<and> s \<noteq> ''..'' \<and> CHR ''/'' \<notin> set s"
  using plain_not_in [of s "CHR ''/''"] by (simp add: plain_def)

lemma unescape_id: "CHR ''%'' \<notin> set s \<Longrightarrow> CHR ''+'' \<notin> set s \<or> \<not> query \<Longrightarrow> unescape query s = Some s"
  by (induction s) auto

lemma url_rest_path:
  assumes "CHR ''%'' \<notin> set p" and "CHR ''#'' \<notin> set p" and "CHR ''?'' \<notin> set p" and "\<forall>c \<in> set p. \<not> is_control c"
  shows "url_rest p = Some (p, [])"
  using assms by (simp add: url_rest_def Cut_none unescape_id)

lemma url_rest_query:
  assumes "CHR ''%'' \<notin> set p" and "CHR ''#'' \<notin> set p" and "CHR ''?'' \<notin> set p" and "\<forall>c \<in> set p. \<not> is_control c"
    and "CHR ''#'' \<notin> set q" and "\<forall>c \<in> set q. \<not> is_control c"
  shows "url_rest (p @ CHR ''?'' # q) = Some (p, q)"
proof -
  have "Cut CHR ''#'' (p @ CHR ''?'' # q) = (p @ CHR ''?'' # q, None)"
    by (rule Cut_none) (use assms in simp)
  moreover have "\<not> (\<exists>c \<in> set (p @ CHR ''?'' # q). is_control c)"
    using assms(4,6) by (auto simp: is_control_def)
  ultimately show ?thesis using assms(1,3) by (simp add: url_rest_def Cut_at unescape_id)
qed

lemma query_pair_plain:
  assumes "plain v" and "k \<noteq> []" and "list_all plain_char k"
  shows "query_pair (k @ CHR ''='' # v) = Some (k, v)"
proof -
  have "c \<notin> set k" if "c \<in> {CHR ''%'', CHR ''='', CHR ''+'', CHR '';''}" for c
    using assms(3) plain_char_not(1) that by (auto simp: list_all_iff)
  then show ?thesis
    using assms plain_not_in [OF assms(1)] by (simp add: query_pair_def Cut_at unescape_id)
qed

lemma segment_query:
  assumes "plain rend" and "plain idx"
  shows "ParseQuery (''rend='' @ rend @ ''&idx='' @ idx) = [(''rend'', rend), (''idx'', idx)]"
proof -
  have "list_all plain_char ''rend''" "list_all plain_char ''idx''" by code_simp+
  with assms query_pair_plain [of rend "''rend''"] query_pair_plain [of idx "''idx''"]
  have "query_pair (''rend='' @ rend) = Some (''rend'', rend)" "query_pair (''idx='' @ idx) = Some (''idx'', idx)"
    by simp_all
  moreover have "split_on CHR ''&'' ((''rend='' @ rend) @ CHR ''&'' # (''idx='' @ idx)) = [''rend='' @ rend, ''idx='' @ idx]"
    unfolding split_on_append
    using plain_not_in [OF assms(1), of "CHR ''&''"] plain_not_in [OF assms(2), of "CHR ''&''"]
    by (subst split_on_none, simp, subst split_on_none, simp, simp)
  ultimately show ?thesis by (simp add: ParseQuery_def List.map_filter_def)
qed

section \<open>Clean paths\<close>

lemma cleanPath_root_of:
  assumes "clean_parts cs"
  shows "cleanPath (root_of cs) = root_of cs"
proof -
  have parts: "cs \<noteq> []" "\<forall>r \<in> set cs. CHR ''/'' \<notin> set r" "''..'' \<notin> set cs"
    and keep: "filter (\<lambda>c. c \<noteq> [] \<and> c \<noteq> ''.'') cs = cs"
    using assms by (auto simp: clean_parts_def intro!: filter_True)
  have split: "split_on CHR ''/'' (root_of cs) = [] # cs"
    using split_on_join [of cs "CHR ''/''"] parts by (simp add: root_of_def)
  have "foldl (clean_step True) [] ([] # cs) = cs"
    using clean_no_dots [of "[] # cs" True "[]"] parts(3) keep by simp
  then have clean: "filepath_Clean (root_of cs) = root_of cs"
    unfolding filepath_Clean_def Let_def split by (simp add: root_of_def)
  have "last (root_of cs) \<noteq> CHR ''/''"
  proof
    assume slash: "last (root_of cs) = CHR ''/''"
    then obtain p where "root_of cs = p @ [CHR ''/'']"
      by (metis append_butlast_last_id list.distinct(1) root_of_def)
    then have "[] # cs = split_on CHR ''/'' p @ [[]]"
      using split split_on_append [of "CHR ''/''" p "[]"] by simp
    then have "last cs = []" using parts(1) by (metis last.simps last_snoc)
    then show False using assms parts(1) last_in_set [OF parts(1)] by (auto simp: clean_parts_def)
  qed
  with clean show ?thesis by (simp add: cleanPath_def root_of_def Let_def)
qed

section \<open>Delivery\<close>

lemma mux_serve:
  assumes "cleanPath p = p" and "map_of pats p = None" and "map_of pats (p @ ''/'') = None"
    and "find (\<lambda>(q, h). take (length q) p = q)
      (sort_key (\<lambda>(q, h). - int (length q)) (filter (\<lambda>(q, h). HasSuffix q ''/'') pats)) = Some (q, h)"
  shows "mux_route pats verb p = Serve h"
  using assms by (simp add: mux_route_def mux_match_def Let_def)

lemma exchange_follow:
  assumes "CHR '' '' \<notin> set (req_RawQuery r)"
    and "net base r n = (n', resp)" and "\<forall>x. resp = Some x \<longrightarrow> resp_Location x = None"
  shows "follow net (Suc k) base r n = (n', resp)"
  using assms by (cases resp) (simp_all add: exchange_def)

lemma fetch_direct:
  assumes "url_rest rest = Some (p, q)" and "CHR '' '' \<notin> set q"
    and "net base \<lparr>req_Method = verb, req_Path = p, req_RawQuery = q, req_Body = body, req_BodyErr = False\<rparr> n =
      (n', resp)"
    and "\<forall>x. resp = Some x \<longrightarrow> resp_Location x = None"
  shows "fetch net verb base rest body n = (n', Fetched resp)"
  using assms exchange_follow [of "\<lparr>req_Method = verb, req_Path = p, req_RawQuery = q, req_Body = body,
      req_BodyErr = False\<rparr>" net base n n' resp 9]
  by (simp add: fetch_def numeral_nat)

definition segment_path :: "string \<Rightarrow> string \<Rightarrow> string" where
  "segment_path v want = ''/videos/'' @ v @ ''/'' @ want"

definition segment_q :: "string \<Rightarrow> string \<Rightarrow> string" where
  "segment_q rend idx = ''rend='' @ rend @ ''&idx='' @ idx"

definition seg_request :: "string \<Rightarrow> string \<Rightarrow> string \<Rightarrow> string \<Rightarrow> string \<Rightarrow> Request" where
  "seg_request verb want v rend idx = \<lparr>req_Method = verb, req_Path = segment_path v want,
     req_RawQuery = segment_q rend idx, req_Body = [], req_BodyErr = False\<rparr>"

definition word_char :: "char \<Rightarrow> bool" where
  "word_char c \<longleftrightarrow> c \<notin> {CHR ''%'', CHR ''#'', CHR ''?'', CHR '' ''} \<and> \<not> is_control c"

lemma word_char_facts:
  assumes "list_all word_char s"
  shows "CHR ''%'' \<notin> set s" and "CHR ''#'' \<notin> set s" and "CHR ''?'' \<notin> set s" and "CHR '' '' \<notin> set s"
    and "\<forall>c \<in> set s. \<not> is_control c"
  using assms by (auto simp: list_all_iff word_char_def)

lemma plain_word: "plain s \<Longrightarrow> list_all word_char s"
  using plain_char_not by (auto simp: plain_def list_all_iff word_char_def)

lemma route_words:
  "list_all word_char ''/videos/''" "list_all word_char ''segments''" "list_all word_char ''segments/loc''"
  "list_all word_char ''rend=''" "list_all word_char ''&idx=''" "list_all word_char ''/blob/videos/''"
  "list_all word_char ''/''"
  by code_simp+

lemma segment_path_words:
  assumes "plain v" and "list_all word_char want"
  shows "list_all word_char (segment_path v want)"
  unfolding segment_path_def list_all_append using plain_word [OF assms(1)] assms(2) route_words by blast

lemma segment_q_words:
  assumes "plain rend" and "plain idx"
  shows "list_all word_char (segment_q rend idx)"
  unfolding segment_q_def list_all_append using plain_word [OF assms(1)] plain_word [OF assms(2)] route_words by blast

lemma segment_url:
  assumes "plain v" and "plain rend" and "plain idx" and "list_all word_char want"
  shows "url_rest (segment_path v want @ CHR ''?'' # segment_q rend idx) =
      Some (segment_path v want, segment_q rend idx)"
  using word_char_facts [OF segment_path_words [OF assms(1,4)]] word_char_facts [OF segment_q_words [OF assms(2,3)]]
  by (intro url_rest_query)

lemma segment_request_params:
  assumes "plain v" and "plain rend" and "plain idx"
  shows "segment_params want (seg_request verb want v rend idx) =
    (case Sscanf_d idx of None \<Rightarrow> Inl ''bad idx'' | Some i \<Rightarrow> Inr (v, rend, idx, i))"
proof -
  have "length ''/videos/'' = 8" by simp
  then have "TrimPrefix (segment_path v want) ''/videos/'' = v @ CHR ''/'' # want"
    by (simp add: TrimPrefix_def segment_path_def)
  moreover have "SplitN2 CHR ''/'' (v @ CHR ''/'' # want) = [v, want]"
    using plain_part [OF assms(1)] by (simp add: SplitN2_def Cut_at)
  moreover have "Query_Get (seg_request verb want v rend idx) ''rend'' = rend"
    "Query_Get (seg_request verb want v rend idx) ''idx'' = idx"
    using segment_query [OF assms(2,3)] by (simp_all add: Query_Get_def seg_request_def segment_q_def)
  ultimately show ?thesis
    using assms by (simp add: segment_params_def seg_request_def plain_def Let_def)
qed

lemma metadata_route:
  assumes "plain v" and "want = ''segments'' \<or> want = ''segments/loc''"
  shows "metadata_main sha1 s (seg_request verb want v rend idx) w =
    routeVideo sha1 s (seg_request verb want v rend idx) w"
proof -
  let ?ws = "if want = ''segments'' then [''videos'', v, ''segments''] else [''videos'', v, ''segments'', ''loc'']"
  have "clean_parts ?ws" using plain_part [OF assms(1)] by (simp add: clean_parts_def)
  moreover have "root_of ?ws = segment_path v want"
    using assms(2) by (auto simp: root_of_def segment_path_def)
  ultimately have clean: "cleanPath (segment_path v want) = segment_path v want"
    using cleanPath_root_of [of ?ws] by simp
  have route: "mux_route
     [(''/healthz'', \<lambda>r w. (w, text_response ''ok'')),
      (''/videos'', handleCreateVideo s),
      (''/videos/'', routeVideo sha1 s),
      (''/'', \<lambda>r w. (w, text_response ''<h1>TritonTube Metadata gRPC</h1>''))]
      verb (segment_path v want) = Serve (routeVideo sha1 s)"
    by (rule mux_serve [where q = "''/videos/''", OF clean]) (simp_all add: segment_path_def HasSuffix_def)
  then show ?thesis by (simp add: metadata_main_def serve_mux_def seg_request_def)
qed

lemma metadata_deliver:
  assumes "plain v" and "plain rend" and "plain idx"
  shows "metadata_main sha1 s (seg_request ''POST'' ''segments'' v rend idx) w =
      handlePutSegment sha1 s (seg_request ''POST'' ''segments'' v rend idx) w"
    and "metadata_main sha1 s (seg_request ''GET'' ''segments/loc'' v rend idx) w =
      handleGetLocations s (seg_request ''GET'' ''segments/loc'' v rend idx) w"
proof -
  have suffix: "HasSuffix (a @ q) q" for a q by (simp add: HasSuffix_def)
  have "HasSuffix (segment_path v ''segments'') ''/segments''"
    using suffix [of "''/videos/'' @ v" "''/segments''"] by (simp add: segment_path_def)
  then show "metadata_main sha1 s (seg_request ''POST'' ''segments'' v rend idx) w =
      handlePutSegment sha1 s (seg_request ''POST'' ''segments'' v rend idx) w"
    unfolding metadata_route [OF assms(1) disjI1 [OF refl]] routeVideo_def by (simp add: seg_request_def)
  have "HasSuffix (segment_path v ''segments/loc'') ''/segments/loc''"
    using suffix [of "''/videos/'' @ v" "''/segments/loc''"] by (simp add: segment_path_def)
  then show "metadata_main sha1 s (seg_request ''GET'' ''segments/loc'' v rend idx) w =
      handleGetLocations s (seg_request ''GET'' ''segments/loc'' v rend idx) w"
    unfolding metadata_route [OF assms(1) disjI2 [OF refl]] routeVideo_def by (simp add: seg_request_def)
qed


section \<open>Blobs of segments\<close>

definition object_path :: "string \<Rightarrow> string \<Rightarrow> string \<Rightarrow> string" where
  "object_path v rend idx = v @ ''/'' @ rend @ ''/'' @ idx"

definition blob_url :: "string \<Rightarrow> string" where
  "blob_url obj = ''/blob/videos/'' @ obj"

abbreviation (input) obj_request :: "string \<Rightarrow> string \<Rightarrow> string \<Rightarrow> Request" where
  "obj_request verb obj body \<equiv> \<lparr>req_Method = verb, req_Path = blob_url obj, req_RawQuery = [],
     req_Body = body, req_BodyErr = False\<rparr>"

lemma blob_url_names:
  assumes "plain v" and "plain rend" and "plain idx"
  shows "blob_names (blob_url (object_path v rend idx)) = Some (''videos'', object_path v rend idx)"
    and "url_rest (blob_url (object_path v rend idx)) = Some (blob_url (object_path v rend idx), [])"
    and "cleanPath (blob_url (object_path v rend idx)) = blob_url (object_path v rend idx)"
proof -
  let ?obj = "object_path v rend idx"
  have obj: "?obj \<noteq> []" using plain_part [OF assms(1)] by (simp add: object_path_def)
  have "length ''/blob/'' = 6" by simp
  then have "TrimPrefix (blob_url ?obj) ''/blob/'' = ''videos'' @ CHR ''/'' # ?obj"
    by (simp add: TrimPrefix_def blob_url_def)
  moreover have "SplitN2 CHR ''/'' (''videos'' @ CHR ''/'' # ?obj) = [''videos'', ?obj]"
    unfolding SplitN2_def by (subst Cut_at) simp_all
  ultimately show "blob_names (blob_url ?obj) = Some (''videos'', ?obj)"
    using obj by (simp add: blob_names_def Let_def)
  have "list_all word_char (blob_url ?obj)"
    unfolding blob_url_def object_path_def list_all_append
    using assms [THEN plain_word] route_words by blast
  from word_char_facts [OF this] show "url_rest (blob_url ?obj) = Some (blob_url ?obj, [])"
    by (intro url_rest_path)
  have "clean_parts [''blob'', ''videos'', v, rend, idx]"
    using assms [THEN plain_part] by (simp add: clean_parts_def)
  moreover have "root_of [''blob'', ''videos'', v, rend, idx] = blob_url ?obj"
    by (simp add: root_of_def blob_url_def object_path_def)
  ultimately show "cleanPath (blob_url ?obj) = blob_url ?obj"
    using cleanPath_root_of [of "[''blob'', ''videos'', v, rend, idx]"] by simp
qed

lemma storage_deliver:
  assumes "plain v" and "plain rend" and "plain idx"
  shows "storage_main sha256 ft f (obj_request verb (object_path v rend idx) body) m =
    handle_blob sha256 ft f (obj_request verb (object_path v rend idx) body) m"
proof -
  have "mux_route
     [(''/healthz'', \<lambda>r m. (m, plain_response ''OK'')),
      (''/blob/'', handle_blob sha256 ft f),
      (''/'', \<lambda>r m. (m, plain_response ''<h1>TritonTube Storage</h1>''))]
     verb (blob_url (object_path v rend idx)) = Serve (handle_blob sha256 ft f)"
    by (rule mux_serve [where q = "''/blob/''", OF blob_url_names(3) [OF assms]])
      (simp_all add: blob_url_def HasSuffix_def)
  then show ?thesis by (simp add: storage_main_def serve_mux_def)
qed

text \<open>The file of an object on a node, and how a node behaves while \<open>st\<close> holds.\<close>

definition blob_at :: "cluster_config \<Rightarrow> cluster \<Rightarrow> string \<Rightarrow> string \<Rightarrow> byte list option" where
  "blob_at cfg n obj a =
     (case cc_nodes cfg a of None \<Rightarrow> None | Some f \<Rightarrow> cl_files n a (fullPath f ''videos'' obj))"

definition takes :: "cluster_config \<Rightarrow> (string \<Rightarrow> fs_faults option) \<Rightarrow> string \<Rightarrow> bool" where
  "takes cfg st a \<longleftrightarrow> cc_nodes cfg a \<noteq> None \<and> (case st a of None \<Rightarrow> False | Some ft \<Rightarrow> no_faults ft)"

definition acknowledges :: "cluster_config \<Rightarrow> (string \<Rightarrow> fs_faults option) \<Rightarrow> string \<Rightarrow> bool" where
  "acknowledges cfg st a \<longleftrightarrow> cc_nodes cfg a \<noteq> None \<and>
     (case st a of None \<Rightarrow> False
      | Some ft \<Rightarrow> no_faults ft \<or> f_mkdir ft = None \<and> f_create ft = None \<and> f_copy ft \<noteq> None)"

definition up :: "cluster_config \<Rightarrow> (string \<Rightarrow> fs_faults option) \<Rightarrow> string \<Rightarrow> bool" where
  "up cfg st a \<longleftrightarrow> cc_nodes cfg a \<noteq> None \<and> st a \<noteq> None"

lemma response_fields [simp]:
  "resp_Status (json_response c j) = c" "resp_Location (json_response c j) = None"
  "resp_Body (json_response c j) = json_print j @ [CHR 0x0A]"
  "resp_Status (error_response msg c) = c" "resp_Location (error_response msg c) = None"
  "resp_Status (plain_response s) = 200" "resp_Location (plain_response s) = None" "resp_Body (plain_response s) = s"
  by (simp_all add: json_response_def error_response_def plain_response_def)

text \<open>
  An object whose file is neither that of another object nor its temporary file, and what putting
  \<open>data\<close> on the nodes \<open>A\<close> does to the blobs.
\<close>

definition separate :: "cluster_config \<Rightarrow> string \<Rightarrow> string \<Rightarrow> bool" where
  "separate cfg obj obj' \<longleftrightarrow> (\<forall>f \<in> ran (cc_nodes cfg).
     fullPath f ''videos'' obj' \<notin> {fullPath f ''videos'' obj, fullPath f ''videos'' obj @ ''.tmp''})"

definition blobs_put :: "cluster_config \<Rightarrow> string set \<Rightarrow> string \<Rightarrow> string \<Rightarrow> cluster \<Rightarrow> cluster \<Rightarrow> bool" where
  "blobs_put cfg A obj data n n' \<longleftrightarrow>
     (\<forall>a. blob_at cfg n' obj a = (if a \<in> A then Some (bytes_of data) else blob_at cfg n obj a)) \<and>
     (\<forall>obj' a. separate cfg obj obj' \<longrightarrow> blob_at cfg n' obj' a = blob_at cfg n obj' a)"

lemma blobs_put_none: "blobs_put cfg {} obj data n n"
  by (simp add: blobs_put_def)

lemma blobs_put_more:
  "blobs_put cfg A obj data n n1 \<Longrightarrow> blobs_put cfg B obj data n1 n2 \<Longrightarrow> blobs_put cfg (A \<union> B) obj data n n2"
  by (simp add: blobs_put_def)

lemma blobs_put_file:
  assumes "cc_nodes cfg a = Some f" and "FS_Put sha256 ft f ''videos'' obj (bytes_of data) (cl_files n a) = (m', k, checksum, err)"
  shows "blobs_put cfg (if no_faults ft then {a} else {}) obj data n (n\<lparr>cl_files := (cl_files n)(a := m')\<rparr>)"
proof -
  have "f \<in> ran (cc_nodes cfg)" using assms(1) by (rule ranI)
  then have "m' (fullPath f ''videos'' obj') = cl_files n a (fullPath f ''videos'' obj')" if "separate cfg obj obj'" for obj'
    using FS_Put_changes [OF assms(2), of "fullPath f ''videos'' obj'"] that by (simp add: separate_def)
  moreover have "m' (fullPath f ''videos'' obj) =
      (if no_faults ft then Some (bytes_of data) else cl_files n a (fullPath f ''videos'' obj))"
    using FS_Put_fault(1) [OF _ assms(2)] assms(2) by (cases "no_faults ft") (auto simp: FS_Put_ok)
  ultimately show ?thesis
    using assms(1) by (simp add: blobs_put_def blob_at_def split: option.split)
qed

lemma put_replica:
  assumes "plain v" and "plain rend" and "plain idx" and "a \<noteq> cc_metadata cfg"
  obtains n' resp where
    "fetch (cluster_net sha1 sha256 cfg st) ''PUT'' a (''/blob/videos/'' @ object_path v rend idx) data n = (n', Fetched resp)"
    and "cl_world n' = cl_world n"
    and "blobs_put cfg (if takes cfg st a then {a} else {}) (object_path v rend idx) data n n'"
    and "(\<exists>r. resp = Some r \<and> resp_Status r = 201) \<longleftrightarrow> acknowledges cfg st a"
proof -
  let ?obj = "object_path v rend idx" and ?net = "cluster_net sha1 sha256 cfg st"
  show thesis
  proof (cases "cc_nodes cfg a = None \<or> st a = None")
    case True
    then have "?net a (obj_request ''PUT'' ?obj data) n = (n, None)"
      using assms(4) by (auto simp: cluster_net_def split: option.split)
    then have "fetch ?net ''PUT'' a (''/blob/videos/'' @ ?obj) data n = (n, Fetched None)"
      using fetch_direct [OF blob_url_names(2) [OF assms(1-3)], of ?net a "''PUT''" data n n None]
      by (simp add: blob_url_def)
    then show thesis
      by (rule that) (use True in \<open>auto simp: takes_def acknowledges_def blobs_put_none\<close>)
  next
    case False
    then obtain f ft where node: "cc_nodes cfg a = Some f" "st a = Some ft" by auto
    obtain m' k checksum err where put: "FS_Put sha256 ft f ''videos'' ?obj (bytes_of data) (cl_files n a) = (m', k, checksum, err)"
      by (metis prod_cases4)
    let ?resp = "case err of Some e \<Rightarrow> error_response (Error e) 500
       | None \<Rightarrow> json_response 201 (blob_json ''videos'' ?obj checksum k)"
    let ?n = "n\<lparr>cl_files := (cl_files n)(a := m')\<rparr>"
    have "?net a (obj_request ''PUT'' ?obj data) n = (?n, Some ?resp)"
      using assms(4) node handle_put [of "obj_request ''PUT'' ?obj data" "''videos''" ?obj sha256 ft f]
        blob_url_names(1) [OF assms(1-3)] put
      by (simp add: cluster_net_def storage_deliver [OF assms(1-3)] body_faults_def)
    then have "fetch ?net ''PUT'' a (''/blob/videos/'' @ ?obj) data n = (?n, Fetched (Some ?resp))"
      using fetch_direct [OF blob_url_names(2) [OF assms(1-3)], of ?net a "''PUT''" data n ?n "Some ?resp"]
      by (simp add: blob_url_def split: option.split)
    moreover have "blobs_put cfg (if takes cfg st a then {a} else {}) ?obj data n ?n"
      using blobs_put_file [OF node(1) put] node by (simp add: takes_def)
    moreover have "(\<exists>r. Some ?resp = Some r \<and> resp_Status r = 201) \<longleftrightarrow> acknowledges cfg st a"
    proof (cases "no_faults ft")
      case True
      with put node show ?thesis by (auto simp: FS_Put_ok acknowledges_def)
    next
      case False
      with FS_Put_fault(3) [OF False put] node show ?thesis by (cases err) (simp_all add: acknowledges_def)
    qed
    ultimately show thesis by (intro that [of ?n "Some ?resp"]) simp_all
  qed
qed


abbreviation (input) address :: "string \<Rightarrow> string" where
  "address base \<equiv> TrimRight base CHR ''/''"

lemma put_result_status: "pr_Status (put_result_of floats base resp) = 201 \<longleftrightarrow> (\<exists>r. resp = Some r \<and> resp_Status r = 201)"
  by (cases resp) (auto simp: put_result_of_def Let_def)

lemma put_all:
  assumes "plain v" and "plain rend" and "plain idx" and "\<forall>b \<in> set bases. address b \<noteq> cc_metadata cfg"
  obtains n' results where
    "put_replicas floats (cluster_net sha1 sha256 cfg st) (object_path v rend idx) data bases n = (n', Some results)"
    and "cl_world n' = cl_world n"
    and "blobs_put cfg {a \<in> address ` set bases. takes cfg st a} (object_path v rend idx) data n n'"
    and "successes results = length (filter (\<lambda>b. acknowledges cfg st (address b)) bases)"
    and "length results = length bases"
  using assms(4)
proof (induction bases arbitrary: n thesis)
  case Nil
  then show ?case by (simp add: successes_def blobs_put_none)
next
  case (Cons base bases)
  let ?net = "cluster_net sha1 sha256 cfg st" and ?obj = "object_path v rend idx"
  have "address base \<noteq> cc_metadata cfg" using Cons.prems(2) by simp
  then obtain n1 resp where
    first: "fetch ?net ''PUT'' (address base) (''/blob/videos/'' @ ?obj) data n = (n1, Fetched resp)"
      "cl_world n1 = cl_world n"
      "blobs_put cfg (if takes cfg st (address base) then {address base} else {}) ?obj data n n1"
      "(\<exists>r. resp = Some r \<and> resp_Status r = 201) \<longleftrightarrow> acknowledges cfg st (address base)"
    by (rule put_replica [where n = n and data = data and st = st and ?sha1.0 = sha1 and ?sha256.0 = sha256,
          OF assms(1-3)])
  obtain n' results where
    rest: "put_replicas floats ?net ?obj data bases n1 = (n', Some results)"
      "cl_world n' = cl_world n1"
      "blobs_put cfg {a \<in> address ` set bases. takes cfg st a} ?obj data n1 n'"
      "successes results = length (filter (\<lambda>b. acknowledges cfg st (address b)) bases)"
      "length results = length bases"
    by (rule Cons.IH [of n1]) (use Cons.prems(2) in auto)
  show ?case
  proof (rule Cons.prems(1))
    show "put_replicas floats ?net ?obj data (base # bases) n = (n', Some (put_result_of floats base resp # results))"
      unfolding put_replicas.simps first(1) by (simp add: rest(1))
    show "cl_world n' = cl_world n" by (simp add: first(2) rest(2))
    show "successes (put_result_of floats base resp # results) = length (filter (\<lambda>b. acknowledges cfg st (address b)) (base # bases))"
      using first(4) rest(4) by (simp add: successes_def put_result_status)
    have "(if takes cfg st (address base) then {address base} else {}) \<union> {a \<in> address ` set bases. takes cfg st a} =
        {a \<in> address ` set (base # bases). takes cfg st a}" by auto
    with blobs_put_more [OF first(3) rest(3)]
    show "blobs_put cfg {a \<in> address ` set (base # bases). takes cfg st a} ?obj data n n'" by simp
    show "length (put_result_of floats base resp # results) = length (base # bases)" using rest(5) by simp
  qed
qed

text \<open>What a node answers to a \<open>GET\<close> of an object: its file when the node is up and has one.\<close>

definition served :: "cluster_config \<Rightarrow> (string \<Rightarrow> fs_faults option) \<Rightarrow> cluster \<Rightarrow> string \<Rightarrow> string \<Rightarrow> byte list option" where
  "served cfg st n obj a = (if st a = None then None else blob_at cfg n obj a)"

lemma get_replica:
  assumes "plain v" and "plain rend" and "plain idx" and "a \<noteq> cc_metadata cfg"
  shows "fetch (cluster_net sha1 sha256 cfg st) ''GET'' a (''/blob/videos/'' @ object_path v rend idx) [] n =
      (n, Fetched (if up cfg st a then Some (case blob_at cfg n (object_path v rend idx) a of
          None \<Rightarrow> error_response ''404 page not found'' 404 | Some data \<Rightarrow> plain_response (string_of data)) else None))"
    (is "_ = (n, Fetched ?resp)")
proof -
  let ?obj = "object_path v rend idx" and ?net = "cluster_net sha1 sha256 cfg st"
  have "?net a (obj_request ''GET'' ?obj []) n = (n, ?resp)"
  proof (cases "up cfg st a")
    case False
    with assms(4) show ?thesis by (auto simp: cluster_net_def up_def split: option.split)
  next
    case True
    then obtain f ft where node: "cc_nodes cfg a = Some f" "st a = Some ft" by (auto simp: up_def)
    then show ?thesis
      using True assms(4) handle_get [of "obj_request ''GET'' ?obj []" "''videos''" ?obj sha256 ft f "cl_files n a"]
        blob_url_names(1) [OF assms(1-3)]
      by (cases "cl_files n a (fullPath f ''videos'' ?obj)")
        (simp_all add: cluster_net_def storage_deliver [OF assms(1-3)] blob_at_def FS_Get_def Let_def)
  qed
  moreover have "\<forall>x. ?resp = Some x \<longrightarrow> resp_Location x = None" by (auto split: option.split)
  ultimately show ?thesis
    using fetch_direct [OF blob_url_names(2) [OF assms(1-3)], of ?net a "''GET''" "[]" n n ?resp]
    by (simp add: blob_url_def)
qed

definition view_response :: "byte list option \<Rightarrow> Response" where
  "view_response found = (case found of None \<Rightarrow> error_response ''all replicas failed'' 502
     | Some data \<Rightarrow> text_response (string_of data))"

fun first_some :: "'a option list \<Rightarrow> 'a option" where
  "first_some [] = None"
| "first_some (x # xs) = (case x of None \<Rightarrow> first_some xs | Some y \<Rightarrow> Some y)"

lemma get_all:
  assumes "plain v" and "plain rend" and "plain idx" and "\<forall>b \<in> set bases. address b \<noteq> cc_metadata cfg"
  shows "get_replicas (cluster_net sha1 sha256 cfg st) (object_path v rend idx) bases n =
    (n, Some (view_response (first_some
      (map (\<lambda>b. served cfg st n (object_path v rend idx) (address b)) bases))))"
  using assms(4)
proof (induction bases)
  case Nil
  then show ?case by (simp add: view_response_def)
next
  case (Cons base bases)
  then have "address base \<noteq> cc_metadata cfg" by simp
  note get = get_replica [OF assms(1-3) this, of sha1 sha256 st n]
  show ?case
  proof (cases "blob_at cfg n (object_path v rend idx) (address base)")
    case None
    then show ?thesis unfolding get_replicas.simps get using Cons by (simp add: served_def)
  next
    case (Some data)
    then have "cc_nodes cfg (address base) \<noteq> None" by (auto simp: blob_at_def split: option.splits)
    then show ?thesis unfolding get_replicas.simps get using Cons Some by (simp add: served_def up_def view_response_def text_response_def plain_response_def)
  qed
qed

end
