(* ===== verification/EndToEnd.thy ===== *)
theory EndToEnd
  imports Cluster
begin

text \<open>
  Uploads and views through the whole system: the web front end registers a segment with the
  metadata server, whose service keeps the record in its store and in etcd, puts the data on the
  storage servers of the segment's placement, and later finds and reads them again. Everything
  between the user's request and the response is the code's own model, JSON texts and URLs
  included; the network only delivers (\<open>cluster_net\<close>), and says which nodes are up.
\<close>

section \<open>Requests of a user\<close>

definition upload_request :: "string \<Rightarrow> string \<Rightarrow> string \<Rightarrow> string \<Rightarrow> Request" where
  "upload_request v rend idx data = \<lparr>req_Method = ''POST'', req_Path = ''/upload'',
     req_RawQuery = ''id='' @ v @ CHR ''&'' # segment_q rend idx, req_Body = data, req_BodyErr = False\<rparr>"

definition view_request :: "string \<Rightarrow> string \<Rightarrow> string \<Rightarrow> Request" where
  "view_request v rend idx = \<lparr>req_Method = ''GET'', req_Path = ''/v/'' @ object_path v rend idx,
     req_RawQuery = [], req_Body = [], req_BodyErr = False\<rparr>"

lemma upload_query:
  assumes "plain v" and "plain rend" and "plain idx"
  shows "Query_Get (upload_request v rend idx data) ''id'' = v"
    and "Query_Get (upload_request v rend idx data) ''rend'' = rend"
    and "Query_Get (upload_request v rend idx data) ''idx'' = idx"
proof -
  have "list_all plain_char ''id''" by code_simp
  with assms(1) query_pair_plain [of v "''id''"] have pair: "query_pair (''id='' @ v) = Some (''id'', v)" by simp
  have "CHR ''&'' \<notin> set (''id='' @ v)" using plain_not_in [OF assms(1), of "CHR ''&''"] by simp
  then have "split_on CHR ''&'' ((''id='' @ v) @ CHR ''&'' # segment_q rend idx) =
      (''id='' @ v) # split_on CHR ''&'' (segment_q rend idx)"
    unfolding split_on_append by (simp add: split_on_none)
  with pair segment_query [OF assms(2,3)]
  have "ParseQuery (''id='' @ v @ CHR ''&'' # segment_q rend idx) =
      [(''id'', v), (''rend'', rend), (''idx'', idx)]"
    by (simp add: ParseQuery_def List.map_filter_def segment_q_def)
  then show "Query_Get (upload_request v rend idx data) ''id'' = v"
    "Query_Get (upload_request v rend idx data) ''rend'' = rend"
    "Query_Get (upload_request v rend idx data) ''idx'' = idx"
    by (simp_all add: Query_Get_def upload_request_def)
qed

lemma web_upload_route:
  "web_main floats net env w_env (upload_request v rend idx data) n =
   handle_upload floats net (web_base env) (web_writeW w_env) (upload_request v rend idx data) n"
proof -
  have "cleanPath ''/upload'' = ''/upload''" by code_simp
  then show ?thesis
    by (simp add: web_main_def mux_route_def mux_match_def upload_request_def Let_def)
qed

lemma web_view_route:
  assumes "plain v" and "plain rend" and "plain idx"
  shows "web_main floats net env w_env (view_request v rend idx) n =
    handle_view net (web_base env) (view_request v rend idx) n"
proof -
  have "clean_parts [''v'', v, rend, idx]" using assms [THEN plain_part] by (simp add: clean_parts_def)
  moreover have "root_of [''v'', v, rend, idx] = ''/v/'' @ object_path v rend idx"
    by (simp add: root_of_def object_path_def)
  ultimately have clean: "cleanPath (''/v/'' @ object_path v rend idx) = ''/v/'' @ object_path v rend idx"
    using cleanPath_root_of [of "[''v'', v, rend, idx]"] by simp
  have obj: "object_path v rend idx \<noteq> []" using plain_part [OF assms(1)] by (simp add: object_path_def)
  have "mux_route
        [(''/healthz'', \<lambda>r n. (n, Some (text_response ''OK''))),
         (''/upload'', handle_upload floats net (web_base env) (web_writeW w_env)),
         (''/v/'', handle_view net (web_base env)),
         (''/'', \<lambda>r n. (n, Some (text_response ''<h1>TritonTube Web</h1><p>Hello!</p>'')))]
      ''GET'' (''/v/'' @ object_path v rend idx) = Serve (handle_view net (web_base env))"
    by (rule mux_serve [where q = "''/v/''", OF clean]) (simp_all add: HasSuffix_def obj)
  then show ?thesis by (simp add: web_main_def view_request_def)
qed

lemma view_parts:
  assumes "plain v" and "plain rend" and "plain idx"
  shows "split_on CHR ''/'' (TrimPrefix (req_Path (view_request v rend idx)) ''/v/'') = [v, rend, idx]"
proof -
  have "TrimPrefix (''/v/'' @ object_path v rend idx) ''/v/'' = v @ CHR ''/'' # rend @ CHR ''/'' # idx"
    by (simp add: TrimPrefix_def object_path_def)
  moreover have "split_on CHR ''/'' (v @ CHR ''/'' # rend @ CHR ''/'' # idx) = [v, rend, idx]"
    unfolding split_on_append using assms [THEN plain_part] by (simp add: split_on_none)
  ultimately show ?thesis by (simp add: view_request_def)
qed


section \<open>The metadata server's part\<close>

text \<open>A cluster in which the metadata server works and the nodes of its ring are not its own address.\<close>

definition cluster_ok :: "cluster_config \<Rightarrow> bool" where
  "cluster_ok cfg \<longleftrightarrow> server_ok (cc_server cfg) \<and>
     (\<forall>b \<in> ring_nodes (ms_ring (cc_server cfg)). valid_utf8 b \<and> address b \<noteq> cc_metadata cfg)"

abbreviation (input) registered :: "cluster_config \<Rightarrow> string \<Rightarrow> string \<Rightarrow> int \<Rightarrow> World \<Rightarrow> Record option" where
  "registered cfg v rend i w \<equiv> pg w (writePool (ms_svc (cc_server cfg))) (segmentKey v rend i)"

lemma decode_segment:
  assumes "valid_utf8 v" and "valid_utf8 rend" and "\<forall>b \<in> set reps. valid_utf8 b" and "- (2 ^ 63) \<le> i" and "i < 2 ^ 63"
  shows "json_Decode (json_print (segment_json v rend i reps) @ [CHR 0x0A]) = Some (segment_json v rend i reps)"
    and "read_info (segment_json v rend i reps) = (\<lparr>si_Video = v, si_Rend = rend, si_Idx = i, si_Replicas = reps\<rparr>, True)"
proof -
  have "no_number [CHR 0x0A]" by code_simp
  from json_Decode_print [OF segment_json_ok [OF assms(1-3)] this]
  show "json_Decode (json_print (segment_json v rend i reps) @ [CHR 0x0A]) = Some (segment_json v rend i reps)" .
  show "read_info (segment_json v rend i reps) = (\<lparr>si_Video = v, si_Rend = rend, si_Idx = i, si_Replicas = reps\<rparr>, True)"
    by (rule read_segment_json [OF assms(4,5)])
qed

lemma fetch_metadata:
  assumes "plain v" and "plain rend" and "plain idx" and "list_all word_char want"
    and "metadata_main sha1 (cc_server cfg) (seg_request verb want v rend idx) (cl_world n) = (w', resp)"
    and "resp_Location resp = None"
  shows "fetch (cluster_net sha1 sha256 cfg st) verb (cc_metadata cfg)
      (segment_path v want @ CHR ''?'' # segment_q rend idx) [] n = (n\<lparr>cl_world := w'\<rparr>, Fetched (Some resp))"
  by (rule fetch_direct [OF segment_url [OF assms(1-4)] word_char_facts(4) [OF segment_q_words [OF assms(2,3)]]])
    (use assms(5,6) in \<open>simp_all add: cluster_net_def seg_request_def\<close>)

text \<open>Registering a segment through the network.\<close>

lemma fetch_register:
  fixes sha1 :: "string \<Rightarrow> byte list"
  assumes "plain v" and "plain rend" and "plain idx" and "Sscanf_d idx = Some i"
    and "cluster_ok cfg" and "world_ok (cl_world n)" and "ring_nodes (ms_ring (cc_server cfg)) \<noteq> {}"
  defines "reps \<equiv> place_segment sha1 (cc_server cfg) v rend idx"
  obtains w' where
    "fetch (cluster_net sha1 sha256 cfg st) ''POST'' (cc_metadata cfg)
      (''/videos/'' @ v @ ''/segments?rend='' @ rend @ ''&idx='' @ idx) [] n =
      (n\<lparr>cl_world := w'\<rparr>, Fetched (Some (json_response 200 (segment_json v rend i reps))))"
    and "world_ok w'"
    and "pg w' = (pg (cl_world n))(writePool (ms_svc (cc_server cfg)) := (pg (cl_world n) (writePool (ms_svc (cc_server cfg))))
        (segmentKey v rend i \<mapsto> put_record (segment_item v rend i reps) (registered cfg v rend i (cl_world n))))"
proof -
  have ok: "server_ok (cc_server cfg)" using assms(5) by (simp add: cluster_ok_def)
  have params: "segment_params ''segments'' (seg_request ''POST'' ''segments'' v rend idx) = Inr (v, rend, idx, i)"
    by (simp add: segment_request_params [OF assms(1-3)] assms(4))
  obtain w' where put: "handlePutSegment sha1 (cc_server cfg) (seg_request ''POST'' ''segments'' v rend idx) (cl_world n) =
      (w', json_response 200 (segment_json v rend i reps))"
    and w': "world_ok w'"
      "pg w' = (pg (cl_world n))(writePool (ms_svc (cc_server cfg)) := (pg (cl_world n) (writePool (ms_svc (cc_server cfg))))
        (segmentKey v rend i \<mapsto> put_record (segment_item v rend i reps) (registered cfg v rend i (cl_world n))))"
    unfolding reps_def
    by (rule put_segment_stores [OF assms(6) ok assms(7) params, of sha1]) blast
  have url: "segment_path v ''segments'' @ CHR ''?'' # segment_q rend idx =
      ''/videos/'' @ v @ ''/segments?rend='' @ rend @ ''&idx='' @ idx"
    by (simp add: segment_path_def segment_q_def)
  have "fetch (cluster_net sha1 sha256 cfg st) ''POST'' (cc_metadata cfg)
      (segment_path v ''segments'' @ CHR ''?'' # segment_q rend idx) [] n =
      (n\<lparr>cl_world := w'\<rparr>, Fetched (Some (json_response 200 (segment_json v rend i reps))))"
    by (rule fetch_metadata [OF assms(1-3) route_words(2)]) (simp_all add: metadata_deliver(1) [OF assms(1-3)] put)
  from this [unfolded url] w' show thesis by (rule that)
qed

text \<open>Finding it again.\<close>

lemma fetch_locations:
  assumes "plain v" and "plain rend" and "plain idx" and "Sscanf_d idx = Some i"
    and "cluster_ok cfg" and "world_ok (cl_world n)" and "set reps \<subseteq> ring_nodes (ms_ring (cc_server cfg))" and "reps \<noteq> []"
    and "registered cfg v rend i (cl_world n) = Some (put_record (segment_item v rend i reps) old)"
  shows "fetch (cluster_net sha1 sha256 cfg st) ''GET'' (cc_metadata cfg)
      (''/videos/'' @ v @ ''/segments/loc?rend='' @ rend @ ''&idx='' @ idx) [] n =
      (n, Fetched (Some (json_response 200 (segment_json v rend i reps))))"
proof -
  have ok: "server_ok (cc_server cfg)" and utf8: "\<forall>b \<in> set reps. valid_utf8 b"
    using assms(5,7) by (auto simp: cluster_ok_def)
  have params: "segment_params ''segments/loc'' (seg_request ''GET'' ''segments/loc'' v rend idx) = Inr (v, rend, idx, i)"
    by (simp add: segment_request_params [OF assms(1-3)] assms(4))
  note get = locations_stored [OF assms(6) ok params assms(9) plain_utf8 [OF assms(1)] plain_utf8 [OF assms(2)] utf8 assms(8)]
  have url: "segment_path v ''segments/loc'' @ CHR ''?'' # segment_q rend idx =
      ''/videos/'' @ v @ ''/segments/loc?rend='' @ rend @ ''&idx='' @ idx"
    by (simp add: segment_path_def segment_q_def)
  have "fetch (cluster_net sha1 sha256 cfg st) ''GET'' (cc_metadata cfg)
      (segment_path v ''segments/loc'' @ CHR ''?'' # segment_q rend idx) [] n =
      (n\<lparr>cl_world := cl_world n\<rparr>, Fetched (Some (json_response 200 (segment_json v rend i reps))))"
    by (rule fetch_metadata [OF assms(1-3) route_words(3)]) (simp_all add: metadata_deliver(2) [OF assms(1-3)] get)
  then show ?thesis unfolding url by simp
qed


section \<open>Uploads and views\<close>

abbreviation (input) placed :: "(string \<Rightarrow> byte list) \<Rightarrow> cluster_config \<Rightarrow> string \<Rightarrow> string \<Rightarrow> string \<Rightarrow> string list" where
  "placed sha1 cfg v rend idx \<equiv> place_segment sha1 (cc_server cfg) v rend idx"

lemma placed_nodes:
  assumes "cluster_ok cfg"
  shows "\<forall>b \<in> set (placed sha1 cfg v rend idx). valid_utf8 b \<and> address b \<noteq> cc_metadata cfg"
  using assms place_segment_nodes by (fastforce simp: cluster_ok_def)

text \<open>
  What an upload leaves behind: its segment is registered with the replicas of its placement, and
  the nodes among them that take the blob hold it.
\<close>

definition uploaded :: "(string \<Rightarrow> byte list) \<Rightarrow> cluster_config \<Rightarrow> (string \<Rightarrow> fs_faults option) \<Rightarrow> string \<Rightarrow> string \<Rightarrow>
    string \<Rightarrow> string \<Rightarrow> cluster \<Rightarrow> cluster \<Rightarrow> bool" where
  "uploaded sha1 cfg st v rend idx data n n' \<longleftrightarrow> world_ok (cl_world n') \<and>
     (\<exists>i old. Sscanf_d idx = Some i \<and> pg (cl_world n') = (pg (cl_world n))(writePool (ms_svc (cc_server cfg)) :=
        (pg (cl_world n) (writePool (ms_svc (cc_server cfg))))(segmentKey v rend i \<mapsto>
          put_record (segment_item v rend i (placed sha1 cfg v rend idx)) old))) \<and>
     blobs_put cfg {a \<in> address ` set (placed sha1 cfg v rend idx). takes cfg st a} (object_path v rend idx) data n n'"

lemma uploaded_blob:
  assumes "uploaded sha1 cfg st v rend idx data n n'" and "b \<in> set (placed sha1 cfg v rend idx)"
  shows "blob_at cfg n' (object_path v rend idx) (address b) =
    (if takes cfg st (address b) then Some (bytes_of data) else blob_at cfg n (object_path v rend idx) (address b))"
  using assms by (auto simp: uploaded_def blobs_put_def)

lemma upload_result:
  assumes names: "plain v" "plain rend" "plain idx" and "Sscanf_d idx = Some i"
    and "cluster_ok cfg" and "world_ok (cl_world n)" and "ring_nodes (ms_ring (cc_server cfg)) \<noteq> {}"
    and "web_base env = cc_metadata cfg"
  obtains n' results where
    "web_main floats (cluster_net sha1 sha256 cfg st) env w_env (upload_request v rend idx data) n =
      (n', Some (upload_response (web_writeW w_env) (object_path v rend idx) results))"
    and "uploaded sha1 cfg st v rend idx data n n'"
    and "successes results =
      length (filter (\<lambda>b. acknowledges cfg st (address b)) (placed sha1 cfg v rend idx))"
proof -
  let ?reps = "placed sha1 cfg v rend idx" and ?obj = "object_path v rend idx"
  obtain w' where meta: "fetch (cluster_net sha1 sha256 cfg st) ''POST'' (cc_metadata cfg)
      (''/videos/'' @ v @ ''/segments?rend='' @ rend @ ''&idx='' @ idx) [] n =
      (n\<lparr>cl_world := w'\<rparr>, Fetched (Some (json_response 200 (segment_json v rend i ?reps))))"
    and w': "world_ok w'" "pg w' = (pg (cl_world n))(writePool (ms_svc (cc_server cfg)) :=
        (pg (cl_world n) (writePool (ms_svc (cc_server cfg))))
        (segmentKey v rend i \<mapsto> put_record (segment_item v rend i ?reps) (registered cfg v rend i (cl_world n))))"
    by (rule fetch_register [where ?sha1.0 = sha1 and ?sha256.0 = sha256 and st = st, OF assms(1-7)])
  have reps: "?reps \<noteq> []" using assms(7) by (simp add: place_segment_empty)
  have utf8: "\<forall>b \<in> set ?reps. valid_utf8 b" and addr: "\<forall>b \<in> set ?reps. address b \<noteq> cc_metadata cfg"
    using placed_nodes [OF assms(5)] by blast+
  have range: "- (2 ^ 63) \<le> i" "i < 2 ^ 63" using Sscanf_d_range [OF assms(4)] by blast+
  note decode = decode_segment [OF plain_utf8 [OF names(1)] plain_utf8 [OF names(2)] utf8 range]
  obtain n' results where
    puts: "put_replicas floats (cluster_net sha1 sha256 cfg st) ?obj data ?reps (n\<lparr>cl_world := w'\<rparr>) = (n', Some results)"
      "cl_world n' = cl_world (n\<lparr>cl_world := w'\<rparr>)"
    and blobs: "blobs_put cfg {a \<in> address ` set ?reps. takes cfg st a} ?obj data (n\<lparr>cl_world := w'\<rparr>) n'"
    and succ: "successes results = length (filter (\<lambda>b. acknowledges cfg st (address b)) ?reps)"
    by (rule put_all [where n = "n\<lparr>cl_world := w'\<rparr>" and data = data and st = st and floats = floats and
          ?sha1.0 = sha1 and ?sha256.0 = sha256, OF names addr])
  have "blob_at cfg (n\<lparr>cl_world := w'\<rparr>) = blob_at cfg n"
    by (intro ext) (simp add: blob_at_def split: option.split)
  with blobs have blobs: "blobs_put cfg {a \<in> address ` set ?reps. takes cfg st a} ?obj data n n'"
    by (simp add: blobs_put_def)
  have fields: "req_Method (upload_request v rend idx data) = ''POST''" "req_BodyErr (upload_request v rend idx data) = False"
    "req_Body (upload_request v rend idx data) = data" by (simp_all add: upload_request_def)
  have "handle_upload floats (cluster_net sha1 sha256 cfg st) (cc_metadata cfg) (web_writeW w_env)
      (upload_request v rend idx data) n = (n', Some (upload_response (web_writeW w_env) ?obj results))"
    unfolding handle_upload_def upload_query [OF names] Let_def meta fields
    using names reps decode puts(1)
    by (simp add: plain_def object_path_def)
  moreover have "uploaded sha1 cfg st v rend idx data n n'"
    unfolding uploaded_def using w' puts(2) blobs assms(4) by auto
  ultimately show thesis using succ assms(8) by (intro that [of n' results]) (simp_all add: web_upload_route)
qed

lemma view_registered:
  assumes names: "plain v" "plain rend" "plain idx" and i: "Sscanf_d idx = Some i"
    and "cluster_ok cfg" and "ring_nodes (ms_ring (cc_server cfg)) \<noteq> {}" and "web_base env = cc_metadata cfg"
    and ok: "world_ok (cl_world n)" and reg: "registered cfg v rend i (cl_world n) =
      Some (put_record (segment_item v rend i (placed sha1 cfg v rend idx)) old)"
  shows "web_main floats (cluster_net sha1 sha256 cfg st) env w_env (view_request v rend idx) n =
    (n, Some (view_response (first_some
      (map (\<lambda>b. served cfg st n (object_path v rend idx) (address b)) (placed sha1 cfg v rend idx)))))"
proof -
  let ?reps = "placed sha1 cfg v rend idx" and ?obj = "object_path v rend idx"
  have reps: "?reps \<noteq> []" using assms(6) by (simp add: place_segment_empty)
  have utf8: "\<forall>b \<in> set ?reps. valid_utf8 b" and addr: "\<forall>b \<in> set ?reps. address b \<noteq> cc_metadata cfg"
    using placed_nodes [OF assms(5)] by blast+
  have range: "- (2 ^ 63) \<le> i" "i < 2 ^ 63" using Sscanf_d_range [OF i] by blast+
  note decode = decode_segment [OF plain_utf8 [OF names(1)] plain_utf8 [OF names(2)] utf8 range]
  note meta = fetch_locations [where st = st and ?sha1.0 = sha1 and ?sha256.0 = sha256,
      OF names i assms(5) ok place_segment_nodes reps reg]
  note gets = get_all [OF names addr, of sha1 sha256 st n]
  have "handle_view (cluster_net sha1 sha256 cfg st) (cc_metadata cfg) (view_request v rend idx) n =
      (n, Some (view_response (first_some (map (\<lambda>b. served cfg st n ?obj (address b)) ?reps))))"
    unfolding handle_view_def view_parts [OF names] Let_def
    using names reps decode gets meta
    by (simp add: plain_def object_path_def)
  then show ?thesis using assms(7) by (simp add: web_view_route [OF names])
qed

lemma view_result:
  assumes names: "plain v" "plain rend" "plain idx"
    and "cluster_ok cfg" and "ring_nodes (ms_ring (cc_server cfg)) \<noteq> {}" and "web_base env = cc_metadata cfg"
    and up: "uploaded sha1 cfg st v rend idx data n n'"
  shows "web_main floats (cluster_net sha1 sha256 cfg st') env w_env (view_request v rend idx) n' =
    (n', Some (view_response (first_some
      (map (\<lambda>b. served cfg st' n' (object_path v rend idx) (address b)) (placed sha1 cfg v rend idx)))))"
proof -
  obtain i old where i: "Sscanf_d idx = Some i" and reg: "registered cfg v rend i (cl_world n') =
      Some (put_record (segment_item v rend i (placed sha1 cfg v rend idx)) old)" and ok: "world_ok (cl_world n')"
    using up by (fastforce simp: uploaded_def)
  show ?thesis by (rule view_registered [OF names i assms(4-6) ok reg])
qed

text \<open>A segment that is not registered is not viewed.\<close>

lemma view_unregistered:
  assumes names: "plain v" "plain rend" "plain idx" and i: "Sscanf_d idx = Some i"
    and "cluster_ok cfg" and "web_base env = cc_metadata cfg" and ok: "world_ok (cl_world n)"
    and reg: "registered cfg v rend i (cl_world n) = None"
  shows "web_main floats (cluster_net sha1 sha256 cfg st) env w_env (view_request v rend idx) n =
    (n, Some (error_response ''metadata error'' 502))"
proof -
  have params: "segment_params ''segments/loc'' (seg_request ''GET'' ''segments/loc'' v rend idx) = Inr (v, rend, idx, i)"
    by (simp add: segment_request_params [OF names] i)
  have sok: "server_ok (cc_server cfg)" using assms(5) by (simp add: cluster_ok_def)
  note get = locations_value [OF ok sok params, unfolded reg]
  have url: "segment_path v ''segments/loc'' @ CHR ''?'' # segment_q rend idx =
      ''/videos/'' @ v @ ''/segments/loc?rend='' @ rend @ ''&idx='' @ idx"
    by (simp add: segment_path_def segment_q_def)
  have "fetch (cluster_net sha1 sha256 cfg st) ''GET'' (cc_metadata cfg)
      (segment_path v ''segments/loc'' @ CHR ''?'' # segment_q rend idx) [] n =
      (n\<lparr>cl_world := cl_world n\<rparr>, Fetched (Some (error_response ''not found'' 404)))"
    by (rule fetch_metadata [OF names route_words(3)]) (simp_all add: metadata_deliver(2) [OF names] get)
  then have meta: "fetch (cluster_net sha1 sha256 cfg st) ''GET'' (cc_metadata cfg)
      (''/videos/'' @ v @ ''/segments/loc?rend='' @ rend @ ''&idx='' @ idx) [] n =
      (n, Fetched (Some (error_response ''not found'' 404)))" unfolding url by simp
  have "handle_view (cluster_net sha1 sha256 cfg st) (cc_metadata cfg) (view_request v rend idx) n =
      (n, Some (error_response ''metadata error'' 502))"
    unfolding handle_view_def view_parts [OF names] Let_def using names meta by (simp add: plain_def)
  then show ?thesis using assms(6) by (simp add: web_view_route [OF names])
qed

section \<open>A small deployment\<close>

definition sample_cluster :: cluster_config where
  "sample_cluster = \<lparr>cc_metadata = ''http://m:8082'', cc_server = sample_ms,
     cc_nodes = [''n1'' \<mapsto> NewFS ''/a'', ''n2'' \<mapsto> NewFS ''/b'', ''n3'' \<mapsto> NewFS ''/c'']\<rparr>"

definition empty_cluster :: cluster where
  "empty_cluster = \<lparr>cl_world = empty_world, cl_files = (\<lambda>a. Map.empty)\<rparr>"

text \<open>All nodes up and working; all up with full disks; only \<open>n3\<close> up.\<close>

definition all_up :: "string \<Rightarrow> fs_faults option" where
  "all_up a = Some fault_free"

definition disks_full :: "string \<Rightarrow> fs_faults option" where
  "disks_full a = Some (fault_free\<lparr>f_copy := Some (Err ''no space left on device'')\<rparr>)"

definition only_n3 :: "string \<Rightarrow> fs_faults option" where
  "only_n3 a = (if a = ''n3'' then Some fault_free else None)"

lemma sample_names: "plain ''v''" "plain ''hd''" "plain ''1''" "Sscanf_d ''1'' = Some 1"
  by code_simp+

lemma sample_address: "address ''n1'' = ''n1''" "address ''n2'' = ''n2''" "address ''n3'' = ''n3''"
  by code_simp+

lemma sample_cluster_ok: "cluster_ok sample_cluster" "world_ok (cl_world empty_cluster)"
    "ring_nodes (ms_ring (cc_server sample_cluster)) \<noteq> {}" "web_base ''http://m:8082'' = cc_metadata sample_cluster"
  using sample_ms_ok sample_utf8(3) empty_world_ok sample_address
  by (simp_all add: cluster_ok_def sample_cluster_def sample_ms_nodes empty_cluster_def web_base_def)

lemma sample_placed: "placed sample_sha sample_cluster ''v'' ''hd'' ''1'' = [''n2'', ''n3'']"
  by (simp add: sample_cluster_def sample_place)

lemma sample_takes:
  "takes sample_cluster all_up ''n2''" "takes sample_cluster all_up ''n3''"
  "\<not> takes sample_cluster disks_full ''n2''" "\<not> takes sample_cluster disks_full ''n3''"
  "\<not> takes sample_cluster only_n3 ''n2''" "takes sample_cluster only_n3 ''n3''"
  "acknowledges sample_cluster all_up ''n2''" "acknowledges sample_cluster all_up ''n3''"
  "acknowledges sample_cluster disks_full ''n2''" "acknowledges sample_cluster disks_full ''n3''"
  "\<not> acknowledges sample_cluster only_n3 ''n2''" "acknowledges sample_cluster only_n3 ''n3''"
  "up sample_cluster all_up ''n2''" "up sample_cluster all_up ''n3''" "\<not> up sample_cluster only_n3 ''n2''" "up sample_cluster only_n3 ''n3''"
  by (simp_all add: takes_def acknowledges_def up_def sample_cluster_def all_up_def disks_full_def only_n3_def
      fault_free_def no_faults_def)

lemma sample_no_blob: "blob_at sample_cluster empty_cluster obj a = None"
  by (simp add: blob_at_def empty_cluster_def split: option.split)

abbreviation (input) sample_web :: "(string \<Rightarrow> fs_faults option) \<Rightarrow> Request \<Rightarrow> cluster \<Rightarrow> cluster \<times> Response option" where
  "sample_web st r n \<equiv> web_main (\<lambda>x. 0) (cluster_net sample_sha (\<lambda>bs. bs) sample_cluster st) ''http://m:8082'' [] r n"

lemma sample_quorum: "web_writeW [] = 1"
  by (simp add: web_writeW_def)

section \<open>Properties\<close>

text \<open>
  C3: An upload is answered 201 exactly when at least \<open>UPLOAD_W\<close> replicas answered 201, and 502
  otherwise; in both cases the segment is registered with the replicas of its placement, the
  replicas that took the data hold it, and no other record and no other blob is changed.
\<close>

theorem upload_quorum:
  assumes "plain v" and "plain rend" and "plain idx" and "Sscanf_d idx = Some i"
    and "cluster_ok cfg" and "world_ok (cl_world n)" and "ring_nodes (ms_ring (cc_server cfg)) \<noteq> {}"
    and "web_base env = cc_metadata cfg"
  shows "\<exists>n' r. web_main floats (cluster_net sha1 sha256 cfg st) env w_env (upload_request v rend idx data) n = (n', Some r) \<and>
    resp_Status r = (if web_writeW w_env \<le> int (length (filter (\<lambda>b. acknowledges cfg st (address b)) (placed sha1 cfg v rend idx)))
      then 201 else 502) \<and>
    uploaded sha1 cfg st v rend idx data n n'"
proof -
  obtain n' results where up: "web_main floats (cluster_net sha1 sha256 cfg st) env w_env (upload_request v rend idx data) n =
      (n', Some (upload_response (web_writeW w_env) (object_path v rend idx) results))"
    "uploaded sha1 cfg st v rend idx data n n'"
    "successes results = length (filter (\<lambda>b. acknowledges cfg st (address b)) (placed sha1 cfg v rend idx))"
    by (rule upload_result [where floats = floats and ?sha1.0 = sha1 and ?sha256.0 = sha256 and st = st and
          w_env = w_env and data = data, OF assms])
  have "resp_Status (upload_response (web_writeW w_env) (object_path v rend idx) results) =
      (if web_writeW w_env \<le> int (length (filter (\<lambda>b. acknowledges cfg st (address b)) (placed sha1 cfg v rend idx)))
       then 201 else 502)"
    using up(3) by (simp add: upload_response_def Let_def)
  with up(1,2) show ?thesis by blast
qed

lemma upload_quorum_witness:
  "(\<exists>n' r. sample_web only_n3 (upload_request ''v'' ''hd'' ''1'' ''xy'') empty_cluster = (n', Some r) \<and> resp_Status r = 201) \<and>
   (\<exists>n' r. sample_web Map.empty (upload_request ''v'' ''hd'' ''1'' ''xy'') empty_cluster = (n', Some r) \<and> resp_Status r = 502)"
proof -
  note quorum = upload_quorum [OF sample_names sample_cluster_ok, of "\<lambda>x. 0" sample_sha "\<lambda>bs. bs" _ "[]" "''xy''"]
  have "\<not> acknowledges sample_cluster Map.empty a" for a by (simp add: acknowledges_def)
  with quorum [of only_n3] quorum [of Map.empty] show ?thesis
    unfolding sample_placed sample_quorum by (simp add: sample_address sample_takes) blast
qed

lemma uploaded_by:
  assumes "plain v" and "plain rend" and "plain idx" and "Sscanf_d idx = Some i"
    and "cluster_ok cfg" and "world_ok (cl_world n)" and "ring_nodes (ms_ring (cc_server cfg)) \<noteq> {}"
    and "web_base env = cc_metadata cfg"
    and "web_main floats (cluster_net sha1 sha256 cfg st) env w_env (upload_request v rend idx data) n = (n', r)"
  shows "uploaded sha1 cfg st v rend idx data n n'"
    and "r = Some r' \<Longrightarrow> resp_Status r' = (if web_writeW w_env \<le>
      int (length (filter (\<lambda>b. acknowledges cfg st (address b)) (placed sha1 cfg v rend idx))) then 201 else 502)"
    and "r \<noteq> None"
proof -
  obtain n1 results where up: "web_main floats (cluster_net sha1 sha256 cfg st) env w_env (upload_request v rend idx data) n =
      (n1, Some (upload_response (web_writeW w_env) (object_path v rend idx) results))"
    "uploaded sha1 cfg st v rend idx data n n1"
    "successes results = length (filter (\<lambda>b. acknowledges cfg st (address b)) (placed sha1 cfg v rend idx))"
    by (rule upload_result [where floats = floats and ?sha1.0 = sha1 and ?sha256.0 = sha256 and st = st and
          w_env = w_env and data = data, OF assms(1-8)])
  then show "uploaded sha1 cfg st v rend idx data n n'" "r \<noteq> None"
    "r = Some r' \<Longrightarrow> resp_Status r' = (if web_writeW w_env \<le>
      int (length (filter (\<lambda>b. acknowledges cfg st (address b)) (placed sha1 cfg v rend idx))) then 201 else 502)"
    using assms(9) by (auto simp: upload_response_def Let_def)
qed

lemma first_some_all:
  "\<forall>x \<in> set xs. x = None \<or> x = Some y \<Longrightarrow> Some y \<in> set xs \<Longrightarrow> first_some xs = Some y"
  by (induction xs) (auto split: option.split)

lemma first_some_none: "\<forall>x \<in> set xs. x = None \<Longrightarrow> first_some xs = None"
  by (induction xs) auto

text \<open>
  C2: What was uploaded is viewed: when, at the time of a view, at least one replica is up that
  took the upload and none is up that missed it, the view answers with the very data of the
  upload, whatever was on the nodes before, and changes nothing.
\<close>

theorem view_after_upload:
  assumes "plain v" and "plain rend" and "plain idx" and "Sscanf_d idx = Some i"
    and "cluster_ok cfg" and "world_ok (cl_world n)" and "ring_nodes (ms_ring (cc_server cfg)) \<noteq> {}"
    and "web_base env = cc_metadata cfg"
    and "web_main floats (cluster_net sha1 sha256 cfg st) env w_env (upload_request v rend idx data) n = (n', r)"
    and "b \<in> set (placed sha1 cfg v rend idx)" and "up cfg st' (address b)"
    and "\<forall>b \<in> set (placed sha1 cfg v rend idx). up cfg st' (address b) \<longrightarrow> takes cfg st (address b)"
  shows "web_main floats' (cluster_net sha1 sha256 cfg st') env w_env' (view_request v rend idx) n' =
    (n', Some (text_response data))"
proof -
  note upl = uploaded_by(1) [OF assms(1-9)]
  let ?xs = "map (\<lambda>b. served cfg st' n' (object_path v rend idx) (address b)) (placed sha1 cfg v rend idx)"
  have served: "served cfg st' n' (object_path v rend idx) (address b) =
      (if up cfg st' (address b) then Some (bytes_of data) else None)"
    if "b \<in> set (placed sha1 cfg v rend idx)" for b
  proof (cases "up cfg st' (address b)")
    case True
    with uploaded_blob [OF upl that] assms(12) that show ?thesis by (auto simp: served_def up_def)
  next
    case False
    then show ?thesis by (auto simp: served_def up_def blob_at_def split: option.split)
  qed
  then have "\<forall>x \<in> set ?xs. x = None \<or> x = Some (bytes_of data)" by auto
  moreover have "Some (bytes_of data) \<in> set ?xs" using served [OF assms(10)] assms(10,11) by force
  ultimately have "first_some ?xs = Some (bytes_of data)" by (rule first_some_all)
  then show ?thesis
    unfolding view_result [OF assms(1-3,5,7,8) upl] by (simp add: view_response_def)
qed

lemma view_after_upload_witness:
  "\<exists>n' r. sample_web all_up (upload_request ''v'' ''hd'' ''1'' ''xy'') empty_cluster = (n', r) \<and>
     sample_web only_n3 (view_request ''v'' ''hd'' ''1'') n' = (n', Some (text_response ''xy''))"
proof -
  obtain n' r where put: "sample_web all_up (upload_request ''v'' ''hd'' ''1'' ''xy'') empty_cluster = (n', r)"
    by (metis surj_pair)
  have n3: "''n3'' \<in> set (placed sample_sha sample_cluster ''v'' ''hd'' ''1'')" "up sample_cluster only_n3 (address ''n3'')"
    "\<forall>b \<in> set (placed sample_sha sample_cluster ''v'' ''hd'' ''1''). up sample_cluster only_n3 (address b) \<longrightarrow>
       takes sample_cluster all_up (address b)"
    unfolding sample_placed by (simp_all add: sample_address sample_takes)
  from put view_after_upload [OF sample_names sample_cluster_ok put n3] show ?thesis by blast
qed

text \<open>
  C38: A view can answer with data that a later upload, acknowledged with 201, has replaced: the
  replicas are tried in order and nothing compares versions, so a first replica that missed the
  second upload answers with the first one's data once it is up again.
\<close>

theorem stale_view:
  assumes "plain v" and "plain rend" and "plain idx" and "Sscanf_d idx = Some i"
    and "cluster_ok cfg" and "world_ok (cl_world n)" and "ring_nodes (ms_ring (cc_server cfg)) \<noteq> {}"
    and "web_base env = cc_metadata cfg"
    and "web_main floats (cluster_net sha1 sha256 cfg st) env w_env (upload_request v rend idx data) n = (n1, r1)"
    and "web_main floats (cluster_net sha1 sha256 cfg st2) env w_env (upload_request v rend idx data2) n1 = (n2, Some r2)"
    and "web_writeW w_env \<le> int (length (filter (\<lambda>b. acknowledges cfg st2 (address b)) (placed sha1 cfg v rend idx)))"
    and "placed sha1 cfg v rend idx = b # bs" and "takes cfg st (address b)" and "\<not> takes cfg st2 (address b)"
    and "up cfg st' (address b)"
  shows "resp_Status r2 = 201 \<and>
    web_main floats (cluster_net sha1 sha256 cfg st') env w_env (view_request v rend idx) n2 =
      (n2, Some (text_response data))"
proof -
  note one = uploaded_by(1) [OF assms(1-9)]
  then have ok: "world_ok (cl_world n1)" by (simp add: uploaded_def)
  note two = uploaded_by [OF assms(1-5) ok assms(7,8,10)]
  have "blob_at cfg n2 (object_path v rend idx) (address b) = Some (bytes_of data)"
    using uploaded_blob [OF one, of b] uploaded_blob [OF two(1), of b] assms(12-14) by simp
  then have "served cfg st' n2 (object_path v rend idx) (address b) = Some (bytes_of data)"
    using assms(15) by (simp add: served_def up_def)
  then show ?thesis
    unfolding view_result [OF assms(1-3,5,7,8) two(1)] using two(2) assms(11,12) by (simp add: view_response_def)
qed

lemma stale_view_witness:
  "\<exists>n1 r1 n2 r2. sample_web all_up (upload_request ''v'' ''hd'' ''1'' ''old'') empty_cluster = (n1, r1) \<and>
     sample_web only_n3 (upload_request ''v'' ''hd'' ''1'' ''new'') n1 = (n2, Some r2) \<and> resp_Status r2 = 201 \<and>
     sample_web all_up (view_request ''v'' ''hd'' ''1'') n2 = (n2, Some (text_response ''old''))"
proof -
  obtain n1 r1 where one: "sample_web all_up (upload_request ''v'' ''hd'' ''1'' ''old'') empty_cluster = (n1, r1)"
    by (metis surj_pair)
  obtain n2 res where two: "sample_web only_n3 (upload_request ''v'' ''hd'' ''1'' ''new'') n1 = (n2, res)"
    by (metis surj_pair)
  have "world_ok (cl_world n1)"
    using uploaded_by(1) [OF sample_names sample_cluster_ok one] by (simp add: uploaded_def)
  from uploaded_by(3) [OF sample_names sample_cluster_ok(1) this sample_cluster_ok(3,4) two]
  obtain r2 where res: "res = Some r2" by auto
  have enough: "web_writeW [] \<le> int (length (filter (\<lambda>b. acknowledges sample_cluster only_n3 (address b))
      (placed sample_sha sample_cluster ''v'' ''hd'' ''1'')))"
    unfolding sample_placed sample_quorum by (simp add: sample_address sample_takes)
  have n2: "takes sample_cluster all_up (address ''n2'')" "\<not> takes sample_cluster only_n3 (address ''n2'')"
    "up sample_cluster all_up (address ''n2'')"
    unfolding sample_address using sample_takes by blast+
  from one two res stale_view [OF sample_names sample_cluster_ok one two [unfolded res] enough sample_placed n2]
  show ?thesis by blast
qed

text \<open>
  C39: An upload can be acknowledged with 201 although no replica holds it: when the copy fails on
  every replica, each of them answers 201 all the same, and the segment, if it was never stored
  before, is in no way to be viewed, whichever nodes are up.
\<close>

theorem lost_upload_acknowledged:
  assumes "plain v" and "plain rend" and "plain idx" and "Sscanf_d idx = Some i"
    and "cluster_ok cfg" and "world_ok (cl_world n)" and "ring_nodes (ms_ring (cc_server cfg)) \<noteq> {}"
    and "web_base env = cc_metadata cfg"
    and "web_main floats (cluster_net sha1 sha256 cfg st) env w_env (upload_request v rend idx data) n = (n', Some r)"
    and "\<forall>b \<in> set (placed sha1 cfg v rend idx). acknowledges cfg st (address b) \<and> \<not> takes cfg st (address b)"
    and "web_writeW w_env \<le> int (length (placed sha1 cfg v rend idx))"
    and "\<forall>a. blob_at cfg n (object_path v rend idx) a = None"
  shows "resp_Status r = 201 \<and>
    web_main floats (cluster_net sha1 sha256 cfg st') env w_env (view_request v rend idx) n' =
      (n', Some (error_response ''all replicas failed'' 502))"
proof -
  note upl = uploaded_by [OF assms(1-9)]
  have "filter (\<lambda>b. acknowledges cfg st (address b)) (placed sha1 cfg v rend idx) = placed sha1 cfg v rend idx"
    using assms(10) by simp
  then have "resp_Status r = 201" using upl(2) assms(11) by simp
  moreover have "first_some (map (\<lambda>b. served cfg st' n' (object_path v rend idx) (address b)) (placed sha1 cfg v rend idx)) = None"
    by (rule first_some_none) (use uploaded_blob [OF upl(1)] assms(10,12) in \<open>auto simp: served_def\<close>)
  ultimately show ?thesis
    unfolding view_result [OF assms(1-3,5,7,8) upl(1)] by (simp add: view_response_def)
qed

lemma lost_upload_acknowledged_witness:
  "\<exists>n' r. sample_web disks_full (upload_request ''v'' ''hd'' ''1'' ''xy'') empty_cluster = (n', Some r) \<and>
     resp_Status r = 201 \<and>
     sample_web all_up (view_request ''v'' ''hd'' ''1'') n' = (n', Some (error_response ''all replicas failed'' 502))"
proof -
  obtain n' res where put: "sample_web disks_full (upload_request ''v'' ''hd'' ''1'' ''xy'') empty_cluster = (n', res)"
    by (metis surj_pair)
  obtain r where res: "res = Some r"
    using uploaded_by(3) [OF sample_names sample_cluster_ok put] by auto
  have full: "\<forall>b \<in> set (placed sample_sha sample_cluster ''v'' ''hd'' ''1'').
      acknowledges sample_cluster disks_full (address b) \<and> \<not> takes sample_cluster disks_full (address b)"
    "web_writeW [] \<le> int (length (placed sample_sha sample_cluster ''v'' ''hd'' ''1''))"
    "\<forall>a. blob_at sample_cluster empty_cluster (object_path ''v'' ''hd'' ''1'') a = None"
    unfolding sample_placed sample_quorum by (simp_all add: sample_address sample_takes sample_no_blob)
  from put res lost_upload_acknowledged [OF sample_names sample_cluster_ok put [unfolded res] full]
  show ?thesis by blast
qed

end
