(* ===== verification/VideoStore.thy ===== *)
theory VideoStore
  imports EndToEnd
begin

text \<open>
  While all nodes work, the whole system is a map from segments to data: an abstract map is
  carried through any sequence of uploads, and a view answers with its value. What has to be seen
  to is that no upload disturbs another segment, in the metadata or on the disks.
\<close>

section \<open>Indices as they are printed\<close>

lemma parse_print_int:
  assumes "- (2 ^ 63) \<le> i" and "i < 2 ^ 63"
  shows "parse_int64 (print_int i) = Some i"
proof -
  have "take 1 (itoa n) \<noteq> ''-''" for n
    using is_digit_itoa [of n] by (cases "itoa n") (auto simp: is_digit_def)
  with assms show ?thesis
    by (auto simp: print_int_def parse_int64_def digits_val_itoa is_digit_itoa itoa_nonempty Let_def)
qed

lemma skip_spaces_none:
  assumes "\<forall>w \<in> set spaces. w \<noteq> [] \<and> hd w \<noteq> c"
  shows "skip_spaces spaces (c # s) = c # s"
proof -
  have "\<not> (w \<noteq> [] \<and> take (length w) (c # s) = w)" if "w \<in> set spaces" for w
    using assms that by (cases w) auto
  then have "find (\<lambda>w. w \<noteq> [] \<and> take (length w) (c # s) = w) spaces = None"
    by (auto simp: find_None_iff)
  then have "space_at spaces (c # s) = 0" by (simp add: space_at_def)
  then show ?thesis by (subst skip_spaces.simps) simp
qed

lemma spaces_no_number: "w \<in> set unicode_spaces \<Longrightarrow> w \<noteq> [] \<and> hd w \<noteq> CHR ''-'' \<and> \<not> is_digit (hd w)"
proof -
  have "list_all (\<lambda>w. w \<noteq> [] \<and> hd w \<noteq> CHR ''-'' \<and> \<not> is_digit (hd w)) unicode_spaces" by code_simp
  then show "w \<in> set unicode_spaces \<Longrightarrow> w \<noteq> [] \<and> hd w \<noteq> CHR ''-'' \<and> \<not> is_digit (hd w)"
    by (simp add: list_all_iff)
qed

lemma Sscanf_print_int:
  assumes "- (2 ^ 63) \<le> i" and "i < 2 ^ 63"
  shows "Sscanf_d (print_int i) = Some i"
proof -
  let ?sp = "filter (\<lambda>w. w \<noteq> [CHR 0x0A]) unicode_spaces"
  have digits: "takeWhile is_digit (itoa n) = itoa n" for n
    using is_digit_itoa [of n] by (simp add: list_all_iff takeWhile_eq_all_conv)
  obtain d ds where itoa: "itoa (nat \<bar>i\<bar>) = d # ds" and d: "is_digit d"
    using is_digit_itoa [of "nat \<bar>i\<bar>"] itoa_nonempty [of "nat \<bar>i\<bar>"] by (cases "itoa (nat \<bar>i\<bar>)") auto
  have nospace: "skip_spaces ?sp (c # s) = c # s" if "c = CHR ''-'' \<or> is_digit c" for c s
    using that spaces_no_number by (intro skip_spaces_none) auto
  have notsign: "[d] \<noteq> ''+''" "[d] \<noteq> ''-''" using d by (auto simp: is_digit_def)
  show ?thesis
  proof (cases "i < 0")
    case True
    then have "print_int i = CHR ''-'' # d # ds" using itoa by (simp add: print_int_def)
    moreover have "takeWhile is_digit (d # ds) = d # ds" using digits [of "nat \<bar>i\<bar>"] itoa by simp
    ultimately show ?thesis
      using parse_print_int [OF assms] by (simp add: Sscanf_d_def nospace)
  next
    case False
    then have "print_int i = d # ds" using itoa by (simp add: print_int_def)
    moreover have "takeWhile is_digit (d # ds) = d # ds" using digits [of "nat \<bar>i\<bar>"] itoa by simp
    then have "takeWhile is_digit ds = ds" using d by (simp del: takeWhile_eq_all_conv)
    ultimately show ?thesis
      using parse_print_int [OF assms] notsign d by (simp add: Sscanf_d_def nospace del: takeWhile_eq_all_conv)
  qed
qed

lemma print_int_chars: "c \<in> set (print_int i) \<Longrightarrow> c = CHR ''-'' \<or> is_digit c"
  using is_digit_itoa [of "nat \<bar>i\<bar>"] by (auto simp: print_int_def list_all_iff split: if_splits)

lemma print_int_no_dot: "CHR ''.'' \<notin> set (print_int i)"
  using print_int_chars [of "CHR ''.''" i] by (auto simp: is_digit_def)

lemma plain_print_int: "plain (print_int i)"
proof -
  have "print_int i \<noteq> []" using itoa_nonempty by (simp add: print_int_def)
  moreover have "print_int i \<noteq> ''.''" "print_int i \<noteq> ''..''" using print_int_no_dot [of i] by auto
  moreover have "list_all plain_char (print_int i)"
    using print_int_chars by (fastforce simp: list_all_iff plain_char_def)
  ultimately show ?thesis by (simp add: plain_def)
qed

section \<open>Files of different segments\<close>

definition clean_nodes :: "cluster_config \<Rightarrow> bool" where
  "clean_nodes cfg \<longleftrightarrow> (\<forall>f \<in> ran (cc_nodes cfg). \<exists>rs. clean_parts rs \<and> f = NewFS (root_of rs))"

lemma root_of_inj:
  assumes "clean_parts xs" and "clean_parts ys" and "root_of xs = root_of ys"
  shows "xs = ys"
proof -
  have "split_on CHR ''/'' (join_with ''/'' zs) = zs" if "clean_parts zs" for zs
    using that by (intro split_on_join) (auto simp: clean_parts_def)
  with assms show ?thesis by (metis list.inject root_of_def)
qed

lemma object_file:
  assumes "clean_parts rs" and "plain v" and "plain rend" and "plain idx"
  shows "fullPath (NewFS (root_of rs)) ''videos'' (object_path v rend idx) = root_of (rs @ [''videos'', v, rend, idx])"
    and "clean_parts (rs @ [''videos'', v, rend, idx])"
proof -
  note parts = assms(2-4) [THEN plain_part]
  have "split_on CHR ''/'' (v @ CHR ''/'' # rend @ CHR ''/'' # idx) = [v, rend, idx]"
    unfolding split_on_append using parts by (simp add: split_on_none)
  then have split: "split_on CHR ''/'' ''videos'' @ split_on CHR ''/'' (object_path v rend idx) = [''videos'', v, rend, idx]"
    by (simp add: object_path_def)
  have "''..'' \<notin> set [''videos'', v, rend, idx]" using parts by auto
  note clean_no_dots [OF this, of True rs]
  then show "fullPath (NewFS (root_of rs)) ''videos'' (object_path v rend idx) = root_of (rs @ [''videos'', v, rend, idx])"
    unfolding fullPath_components [OF assms(1)] split using parts by (simp add: root_of_def)
  show "clean_parts (rs @ [''videos'', v, rend, idx])"
    using assms(1) parts by (auto simp: clean_parts_def)
qed

lemma segments_separate:
  assumes "clean_nodes cfg" and "plain v" and "plain rend" and "plain idx"
    and "plain v'" and "plain rend'" and "plain idx'" and "CHR ''.'' \<notin> set idx'"
    and "(v, rend, idx) \<noteq> (v', rend', idx')"
  shows "separate cfg (object_path v rend idx) (object_path v' rend' idx')"
  unfolding separate_def
proof
  fix f assume "f \<in> ran (cc_nodes cfg)"
  then obtain rs where rs: "clean_parts rs" "f = NewFS (root_of rs)" using assms(1) by (auto simp: clean_nodes_def)
  note one = object_file [OF rs(1) assms(2-4)] and two = object_file [OF rs(1) assms(5-7)]
  have "clean_parts (rs @ [''videos'', v, rend, idx @ ''.tmp''])"
    using one(2) plain_part [OF assms(4)] by (auto simp: clean_parts_def)
  moreover have "root_of (rs @ [''videos'', v, rend, idx]) @ ''.tmp'' = root_of (rs @ [''videos'', v, rend, idx @ ''.tmp''])"
    using join_with_last [of "rs @ [''videos'', v, rend, idx]" "''/''" "''.tmp''"] by (simp add: root_of_def butlast_append)
  ultimately have "root_of (rs @ [''videos'', v', rend', idx']) \<noteq> root_of (rs @ [''videos'', v, rend, idx]) @ ''.tmp''"
    using root_of_inj [OF two(2)] assms(8) by fastforce
  moreover have "root_of (rs @ [''videos'', v', rend', idx']) \<noteq> root_of (rs @ [''videos'', v, rend, idx])"
    using root_of_inj [OF two(2) one(2)] assms(9) by fastforce
  ultimately show "fullPath f ''videos'' (object_path v' rend' idx') \<notin>
      {fullPath f ''videos'' (object_path v rend idx), fullPath f ''videos'' (object_path v rend idx) @ ''.tmp''}"
    using one(1) two(1) rs(2) by simp
qed


section \<open>The map of segments\<close>

type_synonym segment = "string \<times> string \<times> int"

fun segment_ok :: "segment \<Rightarrow> bool" where
  "segment_ok (v, rend, i) \<longleftrightarrow> plain v \<and> plain rend \<and> - (2 ^ 63) \<le> i \<and> i < 2 ^ 63"

text \<open>What a segment has in the system, when the map has \<open>x\<close> for it.\<close>

fun stores_segment :: "(string \<Rightarrow> byte list) \<Rightarrow> cluster_config \<Rightarrow> cluster \<Rightarrow> segment \<Rightarrow> string option \<Rightarrow> bool" where
  "stores_segment sha1 cfg n (v, rend, i) x \<longleftrightarrow>
     (case x of
        None \<Rightarrow> registered cfg v rend i (cl_world n) = None
      | Some data \<Rightarrow>
          (\<exists>old. registered cfg v rend i (cl_world n) =
             Some (put_record (segment_item v rend i (placed sha1 cfg v rend (print_int i))) old)) \<and>
          (\<forall>b \<in> set (placed sha1 cfg v rend (print_int i)).
             blob_at cfg n (object_path v rend (print_int i)) (address b) = Some (bytes_of data)))"

definition refines :: "(string \<Rightarrow> byte list) \<Rightarrow> cluster_config \<Rightarrow> cluster \<Rightarrow> (segment \<Rightarrow> string option) \<Rightarrow> bool" where
  "refines sha1 cfg n spec \<longleftrightarrow> world_ok (cl_world n) \<and>
     (\<forall>s. segment_ok s \<longrightarrow> stores_segment sha1 cfg n s (spec s))"

fun upload_of :: "segment \<times> string \<Rightarrow> Request" where
  "upload_of ((v, rend, i), data) = upload_request v rend (print_int i) data"

fun view_of :: "segment \<Rightarrow> Request" where
  "view_of (v, rend, i) = view_request v rend (print_int i)"

text \<open>A system in which every node of the ring works.\<close>

definition system_ok :: "cluster_config \<Rightarrow> (string \<Rightarrow> fs_faults option) \<Rightarrow> string \<Rightarrow> bool" where
  "system_ok cfg st env \<longleftrightarrow> cluster_ok cfg \<and> clean_nodes cfg \<and> ring_nodes (ms_ring (cc_server cfg)) \<noteq> {} \<and>
     web_base env = cc_metadata cfg \<and> (\<forall>b \<in> ring_nodes (ms_ring (cc_server cfg)). takes cfg st (address b))"

lemma stores_segment_keeps:
  assumes "stores_segment sha1 cfg n s' x" and "segment_ok s'" and "segment_ok s" and "s = (v, rend, i)" and "s \<noteq> s'"
    and "clean_nodes cfg" and "uploaded sha1 cfg st v rend (print_int i) data n n'"
  shows "stores_segment sha1 cfg n' s' x"
proof -
  obtain v' rend' i' where s': "s' = (v', rend', i')" by (cases s')
  have i: "Sscanf_d (print_int i) = Some i" using assms(3,4) by (simp add: Sscanf_print_int)
  have "print_int i \<noteq> print_int i'" if "i \<noteq> i'" using that print_int_inj by blast
  then have sep: "separate cfg (object_path v rend (print_int i)) (object_path v' rend' (print_int i'))"
    using assms(2-6) s' plain_print_int print_int_no_dot by (intro segments_separate) auto
  have "CHR ''/'' \<notin> set v" "CHR ''/'' \<notin> set v'" using assms(2-4) s' by (auto dest: plain_part)
  then have "segmentKey v' rend' i' \<noteq> segmentKey v rend i" using segmentKey_eq assms(4,5) s' by blast
  then have "registered cfg v' rend' i' (cl_world n') = registered cfg v' rend' i' (cl_world n)"
    using assms(7) i by (auto simp: uploaded_def)
  moreover have "blob_at cfg n' (object_path v' rend' (print_int i')) a = blob_at cfg n (object_path v' rend' (print_int i')) a" for a
    using assms(7) sep by (simp add: uploaded_def blobs_put_def)
  ultimately show ?thesis using assms(1) s' by (simp split: option.splits)
qed

lemma refines_upload:
  assumes "refines sha1 cfg n spec" and "segment_ok s" and "system_ok cfg st env"
  shows "refines sha1 cfg (fst (web_main floats (cluster_net sha1 sha256 cfg st) env w_env (upload_of (s, data)) n))
    (spec(s \<mapsto> data))"
proof -
  obtain v rend i where s: "s = (v, rend, i)" by (cases s)
  have names: "plain v" "plain rend" "plain (print_int i)" "Sscanf_d (print_int i) = Some i"
    using assms(2) s by (simp_all add: plain_print_int Sscanf_print_int)
  have sys: "cluster_ok cfg" "clean_nodes cfg" "ring_nodes (ms_ring (cc_server cfg)) \<noteq> {}" "web_base env = cc_metadata cfg"
    using assms(3) by (simp_all add: system_ok_def)
  have ok: "world_ok (cl_world n)" using assms(1) by (simp add: refines_def)
  obtain n' r where up: "web_main floats (cluster_net sha1 sha256 cfg st) env w_env (upload_of (s, data)) n = (n', r)"
    by (metis surj_pair)
  note upl = uploaded_by(1) [OF names sys(1) ok sys(3,4) up [unfolded s upload_of.simps]]
  have own: "stores_segment sha1 cfg n' s (Some data)"
  proof -
    have "takes cfg st (address b)" if "b \<in> set (placed sha1 cfg v rend (print_int i))" for b
      using assms(3) that place_segment_nodes unfolding system_ok_def by blast
    then have "\<forall>b \<in> set (placed sha1 cfg v rend (print_int i)).
        blob_at cfg n' (object_path v rend (print_int i)) (address b) = Some (bytes_of data)"
      using uploaded_blob [OF upl] by simp
    moreover have "\<exists>old. registered cfg v rend i (cl_world n') =
        Some (put_record (segment_item v rend i (placed sha1 cfg v rend (print_int i))) old)"
      using upl names(4) by (auto simp: uploaded_def)
    ultimately show ?thesis using s by simp
  qed
  have "stores_segment sha1 cfg n' s' ((spec(s \<mapsto> data)) s')" if "segment_ok s'" for s'
  proof (cases "s' = s")
    case True
    with own show ?thesis by simp
  next
    case False
    have "stores_segment sha1 cfg n s' (spec s')" using assms(1) that unfolding refines_def by blast
    from stores_segment_keeps [OF this that assms(2) s _ sys(2) upl] False show ?thesis by simp
  qed
  moreover have "world_ok (cl_world n')" using upl by (simp add: uploaded_def)
  ultimately show ?thesis by (simp add: refines_def up)
qed

lemma refines_view:
  assumes "refines sha1 cfg n spec" and "segment_ok (v, rend, i)" and "system_ok cfg st env"
    and "b \<in> set (placed sha1 cfg v rend (print_int i))" and "up cfg st' (address b)"
  shows "web_main floats (cluster_net sha1 sha256 cfg st') env w_env (view_of (v, rend, i)) n =
    (n, Some (case spec (v, rend, i) of Some data \<Rightarrow> text_response data
      | None \<Rightarrow> error_response ''metadata error'' 502))"
proof -
  have names: "plain v" "plain rend" "plain (print_int i)" "Sscanf_d (print_int i) = Some i"
    using assms(2) by (simp_all add: plain_print_int Sscanf_print_int)
  have sys: "cluster_ok cfg" "ring_nodes (ms_ring (cc_server cfg)) \<noteq> {}" "web_base env = cc_metadata cfg"
    using assms(3) by (simp_all add: system_ok_def)
  have ok: "world_ok (cl_world n)" and st: "stores_segment sha1 cfg n (v, rend, i) (spec (v, rend, i))"
    using assms(1,2) unfolding refines_def by blast+
  show ?thesis
  proof (cases "spec (v, rend, i)")
    case None
    with st have "registered cfg v rend i (cl_world n) = None" by simp
    from view_unregistered [OF names sys(1,3) ok this] None show ?thesis by simp
  next
    case (Some data)
    with st obtain old where reg: "registered cfg v rend i (cl_world n) =
        Some (put_record (segment_item v rend i (placed sha1 cfg v rend (print_int i))) old)"
      and blobs: "\<forall>b \<in> set (placed sha1 cfg v rend (print_int i)).
        blob_at cfg n (object_path v rend (print_int i)) (address b) = Some (bytes_of data)" by auto
    let ?xs = "map (\<lambda>b. served cfg st' n (object_path v rend (print_int i)) (address b)) (placed sha1 cfg v rend (print_int i))"
    have "\<forall>x \<in> set ?xs. x = None \<or> x = Some (bytes_of data)" using blobs by (auto simp: served_def)
    moreover have "served cfg st' n (object_path v rend (print_int i)) (address b) = Some (bytes_of data)"
      using blobs assms(4,5) by (auto simp: served_def up_def)
    then have "Some (bytes_of data) \<in> set ?xs" using assms(4) by force
    ultimately have "first_some ?xs = Some (bytes_of data)" by (rule first_some_all)
    with view_registered [OF names sys ok reg, of floats sha256 st' w_env] Some show ?thesis
      by (simp add: view_response_def)
  qed
qed


definition upload_all :: "(string \<Rightarrow> int) \<Rightarrow> cluster network \<Rightarrow> string \<Rightarrow> string \<Rightarrow> (segment \<times> string) list \<Rightarrow> cluster \<Rightarrow> cluster" where
  "upload_all floats net env w_env us n = fold (\<lambda>u n. fst (web_main floats net env w_env (upload_of u) n)) us n"

interpretation uploads: map_refinement
  "\<lambda>u n. fst (web_main floats (cluster_net sha1 sha256 cfg st) env w_env (upload_of u) n)"
  "\<lambda>n spec. system_ok cfg st env \<and> refines sha1 cfg n spec" segment_ok
  for floats sha1 sha256 cfg st env w_env
  by unfold_locales (blast intro: refines_upload)

text \<open>
  C1: While every node works, the system refines a map from segments to data: after any sequence of
  uploads, of any segments in any order, a view answers with the data uploaded last for its
  segment, or with an error when there was none, as long as one replica of the segment is up
  then. The web, metadata and storage servers, the JSON and URL texts between them, the record
  store and the file names are all inside this statement.
\<close>

theorem system_refines_map:
  assumes "system_ok cfg st env" and "refines sha1 cfg n Map.empty" and "\<forall>u \<in> set us. segment_ok (fst u)"
    and "segment_ok (v, rend, i)" and "b \<in> set (placed sha1 cfg v rend (print_int i))" and "up cfg st' (address b)"
  shows "let n' = upload_all floats (cluster_net sha1 sha256 cfg st) env w_env us n in
    web_main floats' (cluster_net sha1 sha256 cfg st') env w_env' (view_of (v, rend, i)) n' =
    (n', Some (case map_of (rev us) (v, rend, i) of
        Some data \<Rightarrow> text_response data
      | None \<Rightarrow> error_response ''metadata error'' 502))"
  unfolding Let_def upload_all_def
  by (rule refines_view [OF conjunct2 [OF uploads.rel_puts [OF conjI [OF assms(1,2)] assms(3)]] assms(4,1,5,6)])

definition sample_uploads :: "(segment \<times> string) list" where
  "sample_uploads = [((''v'', ''hd'', 1), ''old''), ((''w'', ''hd'', 1), ''x''), ((''v'', ''hd'', 1), ''new'')]"

lemma sample_system: "system_ok sample_cluster all_up ''http://m:8082''" "refines sample_sha sample_cluster empty_cluster Map.empty"
proof -
  have "NewFS ''/a'' = NewFS (root_of [''a''])" "NewFS ''/b'' = NewFS (root_of [''b''])" "NewFS ''/c'' = NewFS (root_of [''c''])"
    by (simp_all add: root_of_def)
  moreover have "clean_parts [''a'']" "clean_parts [''b'']" "clean_parts [''c'']" by (simp_all add: clean_parts_def)
  ultimately have "clean_nodes sample_cluster"
    unfolding clean_nodes_def by (auto simp: sample_cluster_def ran_def split: if_splits)
  moreover have "takes sample_cluster all_up ''n1''"
    by (simp add: takes_def sample_cluster_def all_up_def fault_free_def no_faults_def)
  ultimately show "system_ok sample_cluster all_up ''http://m:8082''"
    using sample_cluster_ok sample_takes(1,2) sample_address
    by (simp add: system_ok_def sample_cluster_def sample_ms_nodes)
  show "refines sample_sha sample_cluster empty_cluster Map.empty"
    using empty_world_ok by (simp add: refines_def empty_cluster_def pg_def empty_world_def NewStore_def)
qed

lemma system_refines_map_witness:
  "let n' = upload_all (\<lambda>x. 0) (cluster_net sample_sha (\<lambda>bs. bs) sample_cluster all_up) ''http://m:8082'' [] sample_uploads empty_cluster
   in sample_web only_n3 (view_of (''v'', ''hd'', 1)) n' = (n', Some (text_response ''new''))"
proof -
  have seg: "segment_ok (''v'', ''hd'', 1)" "\<forall>u \<in> set sample_uploads. segment_ok (fst u)"
    using sample_names by (auto simp: sample_uploads_def) (code_simp)
  have "print_int 1 = ''1''" by code_simp
  then have n3: "''n3'' \<in> set (placed sample_sha sample_cluster ''v'' ''hd'' (print_int 1))"
    unfolding sample_placed by (simp add: sample_placed)
  have "up sample_cluster only_n3 (address ''n3'')" by (simp only: sample_address sample_takes)
  from system_refines_map [OF sample_system seg(2,1) n3 this] show ?thesis by (simp add: sample_uploads_def Let_def)
qed

end
