(* ===== verification/Spec2Isabelle.thy ===== *)
theory Spec2Isabelle
  imports MetadataConcurrency GrpcStub RingWatch VideoStore
begin

text \<open>
  TritonTube, a video store in Go: segments of videos are placed on storage servers by a
  consistent-hash ring, a metadata service records where they are, and a web server uploads and
  serves them. This development models the program and proves what makes it correct; it also
  states where the code does less than it means to.

  The program and the theories. A user talks to the web server (\<open>cmd/web\<close>), which asks the
  metadata server (\<open>cmd/metadata\<close>) over HTTP where a segment goes and puts it on the storage
  servers (\<open>cmd/storage\<close>). The metadata server keeps a ring (\<open>internal/chash\<close>) and the metadata
  service (\<open>internal/metadata\<close>), whose records are in a transactional store (\<open>pgxsim\<close>) and in a
  key-value store with revisions and watchers (\<open>etcdsim\<close>), and which is also reached through an
  in-process gRPC stub. Independent of these is the storage service (\<open>internal/storage\<close>): a node
  that stores and replicates streamed segments, a ring manager that shares the members of the
  cluster through etcd, and a rebalancer that follows it.

  \<^item> Prelude: Go maps as association lists, 64-bit counters as \<open>64 word\<close>, decimal printing, the
    contract of \<open>sort.Slice\<close> (locale \<open>slice_sort\<close>), invariants of step relations (locale
    \<open>invariant\<close>, interpreted on every step relation below) and refinements of a map (locale
    \<open>map_refinement\<close>).
  \<^item> Chash: \<open>ring.go\<close>. Binary search and walk equal the clockwise walk; replicas are distinct
    members, as many as asked for; what a change of members moves; the ring as a function of its
    members. Locale \<open>placement\<close> is what clients of a lookup rely on.
  \<^item> Etcdsim: \<open>etcdsim.go\<close>. Transactions as atomic compare-and-apply on an abstract map,
    revisions that are never reused, watchers as a step relation (no send or close on a closed
    channel) and as replicas of the store. Locale \<open>kv_store\<close> is the map the clients see.
  \<^item> Pgxsim: \<open>pgxsim.go\<close>. Optimistic transactions: own writes, atomic commit, first committer
    wins, listings.
  \<^item> MetadataService: \<open>service.go\<close> and the messages of \<open>metadata.pb.go\<close>. Every branch of every
    handler, round trips, agreement of the two stores, paging, the retry budget.
  \<^item> MetadataConcurrency: any number of concurrent \<open>PutMetadata\<close> calls, interleaved between the
    acquisitions of the locks: no update is lost, a conditional put is exclusive, every call
    returns, and the order of the etcd writes may differ from that of the commits.
  \<^item> GrpcStub: \<open>grpcstub/grpc.go\<close> and the generated handlers and client. A call through the stub
    is the call of the service; types are checked for all messages; nil requests panic.
  \<^item> Paths, Json, Http: what the program uses of \<open>path/filepath\<close>, \<open>encoding/json\<close>, \<open>net/http\<close>,
    \<open>net/url\<close>, \<open>strings\<close> and \<open>fmt\<close>, written out as functions: printing and parsing JSON with
    its round trip, URLs, queries, the multiplexer, the client with redirects.
  \<^item> MetadataServer: \<open>cmd/metadata/main.go\<close>, from the environment to every handler.
  \<^item> StoragePb, Storage: \<open>storage.pb.go\<close> with the in-process stream, the file store \<open>fs.go\<close>, replication,
    the segment records, the S3 uploaders, the RPCs of \<open>service.go\<close> and the rebalancer.
  \<^item> Manager: \<open>manager.go\<close>. The ring always matches the members; recovery from etcd; what two
    managers do to each other.
  \<^item> RingWatch: the goroutine of \<open>Watch\<close>, its channel and the loop of \<open>Rebalancer.Run\<close> over the
    channels of Etcdsim, as a step relation: plans are executed in the order of the ring states.
  \<^item> StorageServer: \<open>cmd/storage/main.go\<close>, and \<open>cmd/storage-admin/main.go\<close> up to the plans it
    prints. Requests stay below the data directory.
  \<^item> Web: \<open>cmd/web/main.go\<close>, over a network that is a function.
  \<^item> Cluster, EndToEnd: a network that leads to a metadata server and storage servers, some of
    them down or failing, and uploads and views through all of it: what is uploaded is viewed,
    quorums, stale and lost uploads.
  \<^item> VideoStore: while every node works, the whole is a map from segments to data.

  How state corresponds. A struct is a record with the source's field names, behind a prefix where
  they repeat; a method is a function of the state that returns it updated, and a mutex makes each
  method one step. Pointers that are shared (pools, etcd clients) are indices into a heap,
  \<open>World\<close>; channels are kept in the client that sends on them. Errors are \<open>Inl\<close> values or, where
  the source compares or prints them, values of \<open>go_error\<close>; a panic is a value of its own.
  Goroutines are step relations, with any interleaving.

  Parameters. \<open>sha1\<close> and \<open>sha256\<close> are the digests and \<open>srt\<close> the sort of the ring, of which only
  \<open>slice_sort\<close> is used. \<open>marshal\<close> and \<open>unmarshal\<close> are the codecs of ring states and segment records
  (the JSON of the HTTP servers is computed). \<open>now\<close> is the clock, \<open>sched\<close> the order in which
  replication goroutines end, \<open>fs_faults\<close> which system calls fail, \<open>floats\<close> the value of a number
  that no 64-bit integer has, \<open>net\<close> and \<open>st\<close> which servers answer.

  Bounds and fuel. The JSON parser has fuel of two units for every byte, which is enough
  (\<open>parse_fuel\<close>), and nests up to 10000 as in Go. The client follows ten requests, as in Go. The
  receive loop of an upload, which may run forever, is a partial function, and exactly when it
  returns is proved. Statements on versions and revisions say below which count the 64-bit
  counters do not wrap.

  Not modelled, and why. Contexts, deadlines and timeouts, but for cancellation in RingWatch and
  Etcdsim: in the other parts they only turn an exchange into a failed one, which the parameters
  allow. Listening, logging, flags and signals, which are input and output. Directories and
  permissions of the file system, beyond calls that fail; so a \<open>GET\<close> of a path that is a directory,
  which the code answers with an empty 200, is not found here. The content type that \<open>net/http\<close>
  guesses when a handler sets none. Limits of memory, such as a count of replicas too large to
  allocate. A response body that breaks off while
  the web server relays it. Concurrent requests to the HTTP servers: their shared state is that of
  the metadata service and the file store; puts to the former are interleaved in
  MetadataConcurrency, two puts of one file at a time are not. Interfaces without state, and tests.
\<close>

end
